(* ===== verification/AESD_Prelude.thy ===== *)
theory AESD_Prelude
  imports Main "HOL-Library.Word"
begin

text \<open>
  Shared vocabulary of the development: the fixed-width types of the C sources, undefined
  behaviour as the left injection of a sum, arrays with bounds checks, NUL-terminated strings
  inside allocated blocks, the block heap of the kernel module, and generic lemmas on lists
  and on the index arithmetic of rings. The collection \<open>c_simps\<close> unfolds the error monad and
  the array, string and heap primitives.
\<close>

named_theorems c_simps "error monad, array, string and heap primitives of the C model"

section \<open>Machine types\<close>

type_synonym u8 = "8 word"
type_synonym i32 = "32 word"
type_synonym u64 = "64 word"
type_synonym byte = "8 word"

text \<open>An address names an allocated block; a C pointer is \<open>None\<close> for \<open>NULL\<close>.\<close>

type_synonym addr = nat
type_synonym ptr = "addr option"

abbreviation NUL :: byte where "NUL \<equiv> 0"
abbreviation newline :: byte where "newline \<equiv> 10"

section \<open>Undefined behaviour as a value\<close>

text \<open>
  What stops a computation: undefined behaviour, the \<open>panic\<close> of a kernel, and a call that waits for
  something that does not happen.
\<close>

datatype c_error =
    Out_of_bounds
  | Null_deref
  | Use_of_freed
  | Invalid_free
  | Invalid_join
  | Panics
  | Blocks

type_synonym 'a res = "c_error + 'a"

definition bindE :: "'e + 'a \<Rightarrow> ('a \<Rightarrow> 'e + 'b) \<Rightarrow> 'e + 'b" where
  "bindE m f = (case m of Inl e \<Rightarrow> Inl e | Inr x \<Rightarrow> f x)"

section \<open>Arrays\<close>

definition arr_get :: "'a list \<Rightarrow> nat \<Rightarrow> 'a res" where
  "arr_get xs i = (if i < length xs then Inr (xs ! i) else Inl Out_of_bounds)"

definition arr_set :: "'a list \<Rightarrow> nat \<Rightarrow> 'a \<Rightarrow> 'a list res" where
  "arr_set xs i v = (if i < length xs then Inr (xs[i := v]) else Inl Out_of_bounds)"

section \<open>Strings in a block of memory\<close>

text \<open>
  A block is the list of bytes from the pointer to the end of its allocation. The string
  functions of the C library read up to the first NUL; running off the end of the block is
  undefined behaviour.
\<close>

definition c_str :: "byte list \<Rightarrow> byte list res" where
  "c_str bs = (if NUL \<in> set bs then Inr (takeWhile (\<lambda>b. b \<noteq> NUL) bs) else Inl Out_of_bounds)"

fun strpos :: "byte list \<Rightarrow> byte list \<Rightarrow> nat option" where
  "strpos needle [] = (if needle = [] then Some 0 else None)"
| "strpos needle (c # cs) =
     (if take (length needle) (c # cs) = needle then Some 0
      else map_option Suc (strpos needle cs))"

definition c_strlen :: "byte list \<Rightarrow> nat res" where
  "c_strlen bs = bindE (c_str bs) (\<lambda>s. Inr (length s))"

text \<open>\<open>strstr(haystack, needle)\<close>: the position of the first match, \<open>None\<close> for \<open>NULL\<close>.\<close>

definition c_strstr :: "byte list \<Rightarrow> byte list \<Rightarrow> nat option res" where
  "c_strstr bs needle = bindE (c_str bs) (\<lambda>s. Inr (strpos needle s))"

text \<open>\<open>strcpy\<close> and \<open>strcat\<close> return the destination block after the copy.\<close>

definition c_strcpy :: "byte list \<Rightarrow> byte list \<Rightarrow> byte list res" where
  "c_strcpy dst src = bindE (c_str src) (\<lambda>s.
     if length s < length dst then Inr (s @ NUL # drop (Suc (length s)) dst)
     else Inl Out_of_bounds)"

definition c_strcat :: "byte list \<Rightarrow> byte list \<Rightarrow> byte list res" where
  "c_strcat dst src = bindE (c_str dst) (\<lambda>d. bindE (c_str src) (\<lambda>s.
     if length d + length s < length dst
     then Inr (d @ s @ NUL # drop (Suc (length d + length s)) dst)
     else Inl Out_of_bounds))"

section \<open>The block heap\<close>

type_synonym heap = "addr \<Rightarrow> byte list option"

definition block :: "heap \<Rightarrow> ptr \<Rightarrow> byte list res" where
  "block h p = (case p of None \<Rightarrow> Inl Null_deref
     | Some a \<Rightarrow> (case h a of None \<Rightarrow> Inl Use_of_freed | Some bs \<Rightarrow> Inr bs))"

text \<open>The first \<open>n\<close> bytes at a pointer, as \<open>memcpy\<close>-like callees read them.\<close>

definition block_read :: "heap \<Rightarrow> ptr \<Rightarrow> nat \<Rightarrow> byte list res" where
  "block_read h p n = bindE (block h p) (\<lambda>bs.
     if n \<le> length bs then Inr (take n bs) else Inl Out_of_bounds)"

text \<open>Storing bytes at the start of a block, as \<open>copy_from_user\<close> does.\<close>

definition block_write :: "heap \<Rightarrow> ptr \<Rightarrow> byte list \<Rightarrow> heap res" where
  "block_write h p xs = (case p of None \<Rightarrow> Inl Null_deref
     | Some a \<Rightarrow> (case h a of None \<Rightarrow> Inl Use_of_freed
        | Some bs \<Rightarrow> if length xs \<le> length bs then Inr (h(a \<mapsto> xs @ drop (length xs) bs))
                    else Inl Out_of_bounds))"

text \<open>\<open>kfree(NULL)\<close> does nothing; freeing an address that is not allocated is an error.\<close>

definition kfree :: "heap \<Rightarrow> ptr \<Rightarrow> heap res" where
  "kfree h p = (case p of None \<Rightarrow> Inr h
     | Some a \<Rightarrow> if h a = None then Inl Invalid_free else Inr (h(a := None)))"

section \<open>Sequences of operations\<close>

text \<open>
  Runs an operation that returns a new state and an output over a list of arguments,
  collecting the outputs; the first error stops the run.
\<close>

fun run_ops :: "('q \<Rightarrow> 'a \<Rightarrow> 'e + ('q \<times> 'b)) \<Rightarrow> 'q \<Rightarrow> 'a list \<Rightarrow> 'e + ('q \<times> 'b list)" where
  "run_ops f q [] = Inr (q, [])"
| "run_ops f q (x # xs) =
     bindE (f q x) (\<lambda>(q', y). bindE (run_ops f q' xs) (\<lambda>(q'', ys). Inr (q'', y # ys)))"

text \<open>A fold whose body may fail.\<close>

fun foldE :: "('a \<Rightarrow> 's \<Rightarrow> 'e + 's) \<Rightarrow> 'a list \<Rightarrow> 's \<Rightarrow> 'e + 's" where
  "foldE f [] s = Inr s"
| "foldE f (x # xs) s = bindE (f x s) (foldE f xs)"

text \<open>The last \<open>n\<close> elements of a list.\<close>

definition lastn :: "nat \<Rightarrow> 'a list \<Rightarrow> 'a list" where
  "lastn n xs = drop (length xs - n) xs"

section \<open>Lemmas on the error monad\<close>

lemma bindE_Inl [simp]: "bindE (Inl e) f = Inl e"
  by (simp add: bindE_def)

lemma bindE_Inr [simp]: "bindE (Inr x) f = f x"
  by (simp add: bindE_def)

lemma bindE_eq_Inr: "bindE m f = Inr y \<longleftrightarrow> (\<exists>x. m = Inr x \<and> f x = Inr y)"
  by (cases m) simp_all

lemma bindE_eq_Inl: "bindE m f = Inl e \<longleftrightarrow> m = Inl e \<or> (\<exists>x. m = Inr x \<and> f x = Inl e)"
  by (cases m) simp_all

lemma bindE_cong [fundef_cong]:
  "m = m' \<Longrightarrow> (\<And>x. m' = Inr x \<Longrightarrow> f x = f' x) \<Longrightarrow> bindE m f = bindE m' f'"
  by (cases m') simp_all

section \<open>Lemmas on arrays, strings and the heap\<close>

lemma arr_get_Inr [simp]: "i < length xs \<Longrightarrow> arr_get xs i = Inr (xs ! i)"
  by (simp add: arr_get_def)

lemma arr_set_Inr [simp]: "i < length xs \<Longrightarrow> arr_set xs i v = Inr (xs[i := v])"
  by (simp add: arr_set_def)

lemma c_str_Inr [simp]: "NUL \<in> set bs \<Longrightarrow> c_str bs = Inr (takeWhile (\<lambda>b. b \<noteq> NUL) bs)"
  by (simp add: c_str_def)

lemma c_str_eq_Inr:
  "c_str bs = Inr s \<longleftrightarrow> NUL \<in> set bs \<and> s = takeWhile (\<lambda>b. b \<noteq> NUL) bs"
  by (auto simp: c_str_def)

lemma takeWhile_NUL_append:
  "NUL \<notin> set s \<Longrightarrow> takeWhile (\<lambda>b. b \<noteq> NUL) (s @ NUL # xs) = s"
  by (subst takeWhile_append2) auto

lemma NUL_notin_takeWhile [simp]: "NUL \<notin> set (takeWhile (\<lambda>b. b \<noteq> NUL) bs)"
  by (auto dest: set_takeWhileD)

lemma strpos_single: "strpos [c] s = None \<longleftrightarrow> c \<notin> set s"
  by (induction s) auto

lemma block_Some [simp]: "h a = Some bs \<Longrightarrow> block h (Some a) = Inr bs"
  by (simp add: block_def)

lemma block_None [simp]: "block h None = Inl Null_deref"
  by (simp add: block_def)

lemma block_eq_Inr: "block h p = Inr bs \<longleftrightarrow> (\<exists>a. p = Some a \<and> h a = Some bs)"
  by (auto simp: block_def split: option.splits)

lemma kfree_Some [simp]: "h a \<noteq> None \<Longrightarrow> kfree h (Some a) = Inr (h(a := None))"
  by (auto simp: kfree_def)

lemma kfree_None [simp]: "kfree h None = Inr h"
  by (simp add: kfree_def)

lemmas c_ops = arr_get_def arr_set_def c_str_def c_strlen_def c_strstr_def c_strcpy_def
  c_strcat_def block_def block_read_def block_write_def kfree_def

declare c_ops [c_simps]

section \<open>Lemmas on lists and rings\<close>

lemma length_lastn [simp]: "length (lastn n xs) = min n (length xs)"
  by (simp add: lastn_def)

lemma lastn_short [simp]: "length xs \<le> n \<Longrightarrow> lastn n xs = xs"
  by (simp add: lastn_def)

lemma lastn_snoc_full:
  "0 < n \<Longrightarrow> n \<le> length xs \<Longrightarrow> lastn n (xs @ [x]) = tl (lastn n xs) @ [x]"
  by (simp add: lastn_def tl_drop Suc_diff_le flip: drop_Suc)

lemma lastn_lastn_append: "lastn n (lastn n xs @ ys) = lastn n (xs @ ys)"
proof (cases "length xs \<le> n")
  case True
  then show ?thesis by simp
next
  case False
  then show ?thesis by (simp add: lastn_def add.commute)
qed

text \<open>Reading a ring from a start position.\<close>

lemma nth_rotate_mod: "k < length xs \<Longrightarrow> rotate n xs ! k = xs ! ((n + k) mod length xs)"
  by (simp add: nth_rotate)

section \<open>Lemmas on words\<close>

lemma unat_word_of_nat_le:
  fixes c :: "'l::len word"
  assumes "r \<le> unat c"
  shows "unat (word_of_nat r :: 'l word) = r"
proof -
  have "r < 2 ^ LENGTH('l)" using assms unsigned_less [of c] by (rule le_less_trans)
  then show ?thesis by (simp add: unat_of_nat)
qed

lemma sint_small:
  fixes w :: "64 word"
  assumes "unat w < 2 ^ 63"
  shows "sint w = int (unat w)"
proof -
  have "uint w < 2 ^ 63"
    using assms by (metis of_nat_less_iff of_nat_numeral of_nat_power uint_nat)
  moreover have "- (2 ^ 63) \<le> uint w" by (rule order_trans [of _ 0]) simp_all
  ultimately have "sint w = uint w" by (simp add: sint_uint signed_take_bit_int_eq_self)
  then show ?thesis by (simp only: uint_nat)
qed

end
