(* ===== verification/Queue_Interfaces.thy ===== *)
theory Queue_Interfaces
  imports AESD_Prelude
begin

text \<open>
  Contracts between the ring of write buffers and its clients: a queue that keeps the newest
  \<open>cap\<close> elements and hands back what it overwrites, and its extension by a lookup of a byte
  position in the concatenation of the elements. The client lemmas (a run of any length keeps
  the newest elements, hands back the older ones in order, and walking by element sizes visits
  every element once) are proved here from the contracts alone.
\<close>

section \<open>Elements laid end to end\<close>

text \<open>Number of bytes of a list of elements with size function \<open>sz\<close>.\<close>

definition span :: "('a \<Rightarrow> nat) \<Rightarrow> 'a list \<Rightarrow> nat" where
  "span sz xs = sum_list (map sz xs)"

text \<open>Reference lookup: the element and the byte in it that hold position \<open>c\<close>.\<close>

fun locate :: "('a \<Rightarrow> nat) \<Rightarrow> 'a list \<Rightarrow> nat \<Rightarrow> (nat \<times> nat) option" where
  "locate sz [] c = None"
| "locate sz (x # xs) c =
     (if c < sz x then Some (0, c)
      else map_option (\<lambda>(k, r). (Suc k, r)) (locate sz xs (c - sz x)))"

lemma span_simps [simp]:
  "span sz [] = 0" "span sz (x # xs) = sz x + span sz xs"
  "span sz (xs @ ys) = span sz xs + span sz ys"
  "span sz (replicate n x) = n * sz x"
  by (simp_all add: span_def sum_list_replicate)

lemma locate_Some_iff:
  "locate sz xs c = Some (k, r) \<longleftrightarrow>
     k < length xs \<and> c = span sz (take k xs) + r \<and> r < sz (xs ! k)"
proof (induction xs arbitrary: c k)
  case Nil
  then show ?case by simp
next
  case (Cons x xs)
  show ?case
  proof (cases k)
    case 0
    then show ?thesis by auto
  next
    case (Suc k')
    show ?thesis
    proof (cases "c < sz x")
      case True
      with Suc show ?thesis by simp
    next
      case False
      then have "c - sz x = n \<longleftrightarrow> c = sz x + n" for n by linarith
      with False Suc Cons [of "c - sz x" k'] show ?thesis by (simp add: case_prod_unfold add.assoc)
    qed
  qed
qed

lemma locate_None_iff: "locate sz xs c = None \<longleftrightarrow> span sz xs \<le> c"
proof (induction xs arbitrary: c)
  case (Cons x xs)
  have "c < sz x \<Longrightarrow> \<not> sz x + span sz xs \<le> c" by linarith
  with Cons [of "c - sz x"] show ?case by (cases "c < sz x") (simp_all add: le_diff_conv2 add.commute)
qed simp

lemma locate_append_empty:
  "sz z = 0 \<Longrightarrow> locate sz (xs @ replicate n z) c = locate sz xs c"
  by (induction xs arbitrary: c) (simp_all add: locate_None_iff)

text \<open>A located position is the same byte of the concatenation.\<close>

lemma locate_concat:
  assumes "locate (\<lambda>x. length (f x)) xs c = Some (k, r)"
  shows "concat (map f xs) ! c = f (xs ! k) ! r"
  using assms
proof (induction xs arbitrary: c k)
  case (Cons x xs)
  then show ?case by (auto simp: nth_append split: if_splits)
qed simp

section \<open>Bounded queue that keeps the newest elements\<close>

locale bounded_queue =
  fixes add :: "'q \<Rightarrow> 'a \<Rightarrow> 'e + ('q \<times> 'a)"
    and items :: "'q \<Rightarrow> 'a list"
    and invar :: "'q \<Rightarrow> bool"
    and cap :: nat
    and none :: 'a
  assumes cap_pos: "0 < cap"
    and items_bound: "invar q \<Longrightarrow> length (items q) \<le> cap"
    and add_room: "invar q \<Longrightarrow> length (items q) < cap \<Longrightarrow>
      \<exists>q'. add q x = Inr (q', none) \<and> invar q' \<and> items q' = items q @ [x]"
    and add_full: "invar q \<Longrightarrow> length (items q) = cap \<Longrightarrow>
      \<exists>q'. add q x = Inr (q', hd (items q)) \<and> invar q' \<and> items q' = tl (items q) @ [x]"
begin

lemma add_cases:
  assumes "invar q"
  obtains q' where "add q x = Inr (q', if length (items q) < cap then none else hd (items q))"
    "invar q'" "items q' = lastn cap (items q @ [x])"
proof (cases "length (items q) < cap")
  case True
  then show ?thesis using add_room [OF assms True, of x] that by auto
next
  case False
  then have len: "length (items q) = cap" using items_bound [OF assms] by simp
  then have "lastn cap (items q @ [x]) = tl (items q) @ [x]"
    using lastn_snoc_full [OF cap_pos, of "items q" x] by simp
  then show ?thesis using add_full [OF assms len, of x] len that by auto
qed

lemma run_keeps_newest:
  assumes "invar q"
  shows "\<exists>q' ys. run_ops add q xs = Inr (q', ys) \<and> invar q' \<and> items q' = lastn cap (items q @ xs)"
  using assms
proof (induction xs arbitrary: q)
  case Nil
  then show ?case using items_bound by simp
next
  case (Cons x xs)
  obtain q1 y where q1: "add q x = Inr (q1, y)" "invar q1" "items q1 = lastn cap (items q @ [x])"
    using add_cases [OF Cons.prems] by metis
  obtain q' ys where "run_ops add q1 xs = Inr (q', ys)" "invar q'"
    "items q' = lastn cap (items q1 @ xs)"
    using Cons.IH [OF q1(2)] by blast
  then show ?case using q1 by (simp add: lastn_lastn_append)
qed

text \<open>
  What a run hands back: nothing while there is room, afterwards the oldest elements in order.
\<close>

lemma run_hands_back_oldest:
  assumes "invar q" "run_ops add q xs = Inr (q', ys)"
  shows "ys = replicate (min (cap - length (items q)) (length xs)) none @
     take (length (items q) + length xs - cap) (items q @ xs)"
  using assms
proof (induction xs arbitrary: q ys)
  case Nil
  then show ?case using items_bound [of q] by simp
next
  case (Cons x xs)
  obtain q1 where q1: "add q x = Inr (q1, if length (items q) < cap then none else hd (items q))"
    "invar q1" "items q1 = lastn cap (items q @ [x])"
    using add_cases [OF Cons.prems(1)] by metis
  then obtain ys1 where run1: "run_ops add q1 xs = Inr (q', ys1)"
    and ys: "ys = (if length (items q) < cap then none else hd (items q)) # ys1"
    using Cons.prems(2) by (auto simp: bindE_eq_Inr)
  note IH = Cons.IH [OF q1(2) run1]
  show ?case
  proof (cases "length (items q) < cap")
    case True
    then have "cap - length (items q) = Suc (cap - Suc (length (items q)))" by simp
    with True IH ys q1(3) show ?thesis by simp
  next
    case False
    then have len: "length (items q) = cap" using items_bound [OF Cons.prems(1)] by simp
    obtain z zs where z: "items q = z # zs" using len cap_pos by (cases "items q") auto
    have "items q1 = zs @ [x]"
      using q1(3) len z lastn_snoc_full [OF cap_pos, of "items q" x] by simp
    with IH ys len [symmetric] z show ?thesis by simp
  qed
qed

end

section \<open>Lookup by byte position\<close>

locale indexed_queue = bounded_queue add items invar cap none
  for add :: "'q \<Rightarrow> 'a \<Rightarrow> 'e + ('q \<times> 'a)"
    and items :: "'q \<Rightarrow> 'a list"
    and invar :: "'q \<Rightarrow> bool"
    and cap :: nat
    and none :: 'a +
  fixes lookup :: "'q \<Rightarrow> u64 \<Rightarrow> 'e + ('q \<times> ('a \<times> nat) option)"
    and sz :: "'a \<Rightarrow> nat"
  assumes lookup_hit: "invar q \<Longrightarrow> locate sz (items q) (unat c) = Some (k, r) \<Longrightarrow>
      lookup q c = Inr (q, Some (items q ! k, r))"
    and lookup_miss: "invar q \<Longrightarrow> locate sz (items q) (unat c) = None \<Longrightarrow>
      \<exists>q'. lookup q c = Inr (q', None)"
begin

text \<open>Jumping from the start of one element to the start of the next meets each element once.\<close>

lemma lookup_at_boundary:
  assumes "invar q" "k < length (items q)" "0 < sz (items q ! k)"
    and "unat c = span sz (take k (items q))"
  shows "lookup q c = Inr (q, Some (items q ! k, 0))"
proof -
  have "locate sz (items q) (unat c) = Some (k, 0)"
    using assms by (simp add: locate_Some_iff)
  then show ?thesis by (rule lookup_hit [OF assms(1)])
qed

lemma lookup_within:
  assumes "invar q" "unat c < span sz (items q)"
  obtains k r where "lookup q c = Inr (q, Some (items q ! k, r))" "k < length (items q)"
    "unat c = span sz (take k (items q)) + r" "r < sz (items q ! k)"
proof -
  have "locate sz (items q) (unat c) \<noteq> None" using assms(2) by (simp add: locate_None_iff)
  then obtain k r where l: "locate sz (items q) (unat c) = Some (k, r)" by auto
  then show ?thesis
    using that lookup_hit [OF assms(1) l] by (simp add: locate_Some_iff)
qed

end

section \<open>Linked lists of caller-owned elements\<close>

text \<open>
  An intrusive list: the caller owns the elements, the list only links them. \<open>rep m xs\<close> says
  that memory \<open>m\<close> holds the list \<open>xs\<close>, \<open>avail m a\<close> that element \<open>a\<close> is allocated.
\<close>

locale linked_list =
  fixes rep :: "'m \<Rightarrow> 'a list \<Rightarrow> bool"
    and avail :: "'m \<Rightarrow> 'a \<Rightarrow> bool"
    and ins_tail :: "'m \<Rightarrow> 'a \<Rightarrow> 'e + 'm"
    and del :: "'m \<Rightarrow> 'a \<Rightarrow> 'e + 'm"
    and first :: "'m \<Rightarrow> 'a option"
  assumes rep_distinct: "rep m xs \<Longrightarrow> distinct xs"
    and rep_avail: "rep m xs \<Longrightarrow> a \<in> set xs \<Longrightarrow> avail m a"
    and ins_tail_law: "rep m xs \<Longrightarrow> avail m n \<Longrightarrow> n \<notin> set xs \<Longrightarrow>
      \<exists>m'. ins_tail m n = Inr m' \<and> rep m' (xs @ [n]) \<and> (\<forall>a. avail m' a = avail m a)"
    and del_law: "rep m (ys @ a # zs) \<Longrightarrow>
      \<exists>m'. del m a = Inr m' \<and> rep m' (ys @ zs) \<and> (\<forall>a. avail m' a = avail m a)"
    and first_law: "rep m xs \<Longrightarrow> first m = (case xs of [] \<Rightarrow> None | a # _ \<Rightarrow> Some a)"
begin

lemma first_iff: "rep m xs \<Longrightarrow> first m = Some a \<longleftrightarrow> (\<exists>as. xs = a # as)"
  using first_law by (auto split: list.splits)

lemma del_first:
  assumes "rep m (a # as)"
  obtains m' where "del m a = Inr m'" "rep m' as" "a \<notin> set as" "\<And>b. avail m' b = avail m b"
  using del_law[of m "[]" a as] rep_distinct[OF assms] assms by auto

text \<open>Elements linked at the tail one after the other end up in this order.\<close>

lemma ins_tail_all:
  "rep m xs \<Longrightarrow> distinct (xs @ ns) \<Longrightarrow> \<forall>n\<in>set ns. avail m n \<Longrightarrow>
   \<exists>m'. foldE (\<lambda>n m. ins_tail m n) ns m = Inr m' \<and> rep m' (xs @ ns) \<and> (\<forall>a. avail m' a = avail m a)"
proof (induction ns arbitrary: m xs)
  case (Cons n ns)
  then obtain m1 where m1: "ins_tail m n = Inr m1" "rep m1 (xs @ [n])" "\<forall>a. avail m1 a = avail m a"
    using ins_tail_law[of m xs n] by auto
  then show ?case using Cons.IH[of m1 "xs @ [n]"] Cons.prems by auto
qed simp

text \<open>Deleting the elements in any order empties the list.\<close>

lemma del_all:
  "rep m xs \<Longrightarrow> distinct ds \<Longrightarrow> set ds = set xs \<Longrightarrow>
   \<exists>m'. foldE (\<lambda>a m. del m a) ds m = Inr m' \<and> rep m' [] \<and> (\<forall>a. avail m' a = avail m a)"
proof (induction ds arbitrary: m xs)
  case (Cons d ds)
  then obtain ys zs where xs: "xs = ys @ d # zs" by (metis list.set_intros(1) split_list)
  obtain m1 where m1: "del m d = Inr m1" "rep m1 (ys @ zs)" "\<forall>a. avail m1 a = avail m a"
    using del_law[of m ys d zs] Cons.prems(1) xs by auto
  have "set ds = set (ys @ zs)"
    using Cons.prems rep_distinct[OF Cons.prems(1)] xs by auto
  then show ?case using Cons.IH[of m1 "ys @ zs"] Cons.prems(2) m1 by auto
qed simp

end

end
