(* ===== verification/Circular_Buffer.thy ===== *)
theory Circular_Buffer
  imports Queue_Interfaces
begin

text \<open>
  The ring of write buffers of the driver, \<open>aesd-char-driver/aesd-circular-buffer.c\<close> and
  \<open>.h\<close>: the two structs, the three operations and the iteration macro, the bounded-queue
  interface they provide, and the lookup of a position in the concatenation of all entries.
\<close>

section \<open>Data\<close>

definition AESDCHAR_MAX_WRITE_OPERATIONS_SUPPORTED :: nat where
  "AESDCHAR_MAX_WRITE_OPERATIONS_SUPPORTED = 10"

abbreviation ENTRY_SIZE :: nat where
  "ENTRY_SIZE \<equiv> AESDCHAR_MAX_WRITE_OPERATIONS_SUPPORTED"

record aesd_buffer_entry =
  buffptr :: ptr
  ent_size :: u64

record aesd_circular_buffer =
  entry :: "aesd_buffer_entry list"
  in_offs :: u8
  out_offs :: u8
  full :: bool

text \<open>The all-zero struct, \<open>{0,}\<close> in C.\<close>

definition zero_entry :: aesd_buffer_entry where
  "zero_entry = \<lparr>buffptr = None, ent_size = 0\<rparr>"

section \<open>Operations\<close>

text \<open>
  \<open>(offset + 1) % ENTRY_SIZE\<close>: the operand is promoted to \<open>int\<close>, so the sum does not wrap
  before the remainder is taken; the result is stored back into a \<open>uint8_t\<close>.
\<close>

definition next_offs :: "u8 \<Rightarrow> u8" where
  "next_offs offset = word_of_nat ((unat offset + 1) mod ENTRY_SIZE)"

text \<open>
  The loop of the lookup. The result is the index of the returned entry and the value stored
  through \<open>entry_offset_byte_rtn\<close>, or \<open>None\<close> when the loop ends.
\<close>

function find_loop ::
  "aesd_buffer_entry list \<Rightarrow> nat \<Rightarrow> u8 \<Rightarrow> u64 \<Rightarrow> (nat \<times> u64) option res" where
  "find_loop es i offset char_offset =
     (if i < ENTRY_SIZE then
        bindE (arr_get es (unat offset)) (\<lambda>e.
          if ent_size e > char_offset then Inr (Some (unat offset, char_offset))
          else find_loop es (Suc i) (next_offs offset) (char_offset - ent_size e))
      else Inr None)"
  by pat_completeness auto
termination
  by (relation "measure (\<lambda>(es, i, offset, c). ENTRY_SIZE - i)") auto

definition aesd_circular_buffer_find_entry_offset_for_fpos ::
  "aesd_circular_buffer \<Rightarrow> u64 \<Rightarrow> (aesd_circular_buffer \<times> (nat \<times> u64) option) res" where
  "aesd_circular_buffer_find_entry_offset_for_fpos buffer char_offset =
     bindE (find_loop (entry buffer) 0 (out_offs buffer) char_offset) (\<lambda>r.
       case r of
         Some p \<Rightarrow> Inr (buffer, Some p)
       | None \<Rightarrow> Inr (buffer\<lparr>full := False, in_offs := 0, out_offs := 0\<rparr>, None))"

definition aesd_circular_buffer_add_entry ::
  "aesd_circular_buffer \<Rightarrow> aesd_buffer_entry \<Rightarrow> (aesd_circular_buffer \<times> aesd_buffer_entry) res"
where
  "aesd_circular_buffer_add_entry buffer add_entry =
     bindE (if full buffer
            then bindE (arr_get (entry buffer) (unat (out_offs buffer))) (\<lambda>e.
                   Inr (e, buffer\<lparr>out_offs := next_offs (out_offs buffer)\<rparr>))
            else Inr (zero_entry, buffer)) (\<lambda>(out, b1).
     bindE (arr_set (entry b1) (unat (in_offs b1)) add_entry) (\<lambda>es.
       let b2 = b1\<lparr>entry := es, in_offs := next_offs (in_offs b1)\<rparr>;
           b3 = (if in_offs b2 = out_offs b2 then b2\<lparr>full := True\<rparr> else b2)
       in Inr (b3, out)))"

definition aesd_circular_buffer_init :: aesd_circular_buffer where
  "aesd_circular_buffer_init =
     \<lparr>entry = replicate ENTRY_SIZE zero_entry, in_offs = 0, out_offs = 0, full = False\<rparr>"

text \<open>
  The iteration macro: \<open>index\<close> is a \<open>uint8_t\<close>, the body sees the entry at \<open>index\<close>.
\<close>

function foreach_loop ::
  "(aesd_buffer_entry \<Rightarrow> 's \<Rightarrow> 's res) \<Rightarrow> aesd_buffer_entry list \<Rightarrow> u8 \<Rightarrow> 's \<Rightarrow> 's res" where
  "foreach_loop body es index s =
     (if unat index < ENTRY_SIZE then
        bindE (arr_get es (unat index)) (\<lambda>e.
          bindE (body e s) (\<lambda>s'. foreach_loop body es (index + 1) s'))
      else Inr s)"
  by pat_completeness auto
termination
proof (relation "measure (\<lambda>(body, es, index, s). ENTRY_SIZE - unat index)")
  show "wf (measure (\<lambda>(body, es, index, s). ENTRY_SIZE - unat index))" by simp
qed (auto simp: AESDCHAR_MAX_WRITE_OPERATIONS_SUPPORTED_def unat_word_ariths)

definition AESD_CIRCULAR_BUFFER_FOREACH ::
  "(aesd_buffer_entry \<Rightarrow> 's \<Rightarrow> 's res) \<Rightarrow> aesd_circular_buffer \<Rightarrow> 's \<Rightarrow> 's res" where
  "AESD_CIRCULAR_BUFFER_FOREACH body buffer s = foreach_loop body (entry buffer) 0 s"

section \<open>Invariant and abstraction\<close>

text \<open>
  \<open>scan\<close> lists all ten slots in the order the lookup visits them; \<open>live\<close> is its prefix of
  entries written and not yet overwritten, oldest first. In a clean ring every slot past the
  live ones is the zero struct.
\<close>

definition ring_wf :: "aesd_circular_buffer \<Rightarrow> bool" where
  "ring_wf b \<longleftrightarrow> length (entry b) = ENTRY_SIZE \<and> unat (in_offs b) < ENTRY_SIZE \<and>
     unat (out_offs b) < ENTRY_SIZE \<and> (full b \<longrightarrow> in_offs b = out_offs b)"

definition scan :: "aesd_circular_buffer \<Rightarrow> aesd_buffer_entry list" where
  "scan b = rotate (unat (out_offs b)) (entry b)"

definition live_count :: "aesd_circular_buffer \<Rightarrow> nat" where
  "live_count b = (if full b then ENTRY_SIZE
     else (unat (in_offs b) + ENTRY_SIZE - unat (out_offs b)) mod ENTRY_SIZE)"

definition live :: "aesd_circular_buffer \<Rightarrow> aesd_buffer_entry list" where
  "live b = take (live_count b) (scan b)"

definition ring_clean :: "aesd_circular_buffer \<Rightarrow> bool" where
  "ring_clean b \<longleftrightarrow>
     ring_wf b \<and> drop (live_count b) (scan b) = replicate (ENTRY_SIZE - live_count b) zero_entry"

text \<open>The size of an entry in bytes, and the lookup with the index resolved to the entry.\<close>

definition entry_bytes :: "aesd_buffer_entry \<Rightarrow> nat" where
  "entry_bytes e = unat (ent_size e)"

definition lookup_entry ::
  "aesd_circular_buffer \<Rightarrow> u64 \<Rightarrow> (aesd_circular_buffer \<times> (aesd_buffer_entry \<times> nat) option) res"
where
  "lookup_entry b c = bindE (aesd_circular_buffer_find_entry_offset_for_fpos b c) (\<lambda>(b', r).
     Inr (b', map_option (\<lambda>(i, off). (entry b' ! i, unat off)) r))"

text \<open>A ring with two entries, of three and four bytes, that has wrapped around.\<close>

definition sample_ring :: aesd_circular_buffer where
  "sample_ring = \<lparr>entry = \<lparr>buffptr = Some 2, ent_size = 4\<rparr> # replicate 8 zero_entry @
       [\<lparr>buffptr = Some 1, ent_size = 3\<rparr>],
     in_offs = 1, out_offs = 9, full = False\<rparr>"

section \<open>Index arithmetic\<close>

lemmas entry_size_eq [simp] = AESDCHAR_MAX_WRITE_OPERATIONS_SUPPORTED_def

declare find_loop.simps [simp del] foreach_loop.simps [simp del]

lemma unat_next_offs [simp]: "unat (next_offs x) = (unat x + 1) mod 10"
proof -
  have "(unat x + 1) mod 10 < (2::nat) ^ 8"
    using mod_less_divisor [of 10 "unat x + 1"] by simp
  then show ?thesis by (simp add: next_offs_def unat_of_nat)
qed

lemma length_scan [simp]: "ring_wf b \<Longrightarrow> length (scan b) = 10"
  by (simp add: scan_def ring_wf_def)

lemma scan_nth: "ring_wf b \<Longrightarrow> k < 10 \<Longrightarrow> scan b ! k = entry b ! ((unat (out_offs b) + k) mod 10)"
  by (simp add: scan_def ring_wf_def nth_rotate_mod)

lemma live_count_le: "live_count b \<le> 10"
  by (simp add: live_count_def less_imp_le)

lemma live_count_less: "\<not> full b \<Longrightarrow> live_count b < 10"
  by (simp add: live_count_def)

lemma length_live [simp]: "ring_wf b \<Longrightarrow> length (live b) = live_count b"
  by (simp add: live_def live_count_le min_absorb2)

lemma ring_clean_wf [dest]: "ring_clean b \<Longrightarrow> ring_wf b"
  by (simp add: ring_clean_def)

lemma scan_clean: "ring_clean b \<Longrightarrow> scan b = live b @ replicate (10 - live_count b) zero_entry"
  by (metis ring_clean_def append_take_drop_id live_def entry_size_eq)

lemma in_offs_pos:
  assumes "ring_wf b" "\<not> full b"
  shows "unat (in_offs b) = (unat (out_offs b) + live_count b) mod 10"
  using assms by (simp add: live_count_def ring_wf_def mod_simps)

lemma ring_pos_iff:
  fixes a i j :: nat
  assumes "i < 10" "j < 10"
  shows "(a + i) mod 10 = (a + j) mod 10 \<longleftrightarrow> i = j"
proof
  assume eq: "(a + i) mod 10 = (a + j) mod 10"
  have split: "n = 10 * (n div 10) + n mod 10" for n :: nat by simp
  define q where "q = (a + i) div 10"
  define q' where "q' = (a + j) div 10"
  define m where "m = (a + i) mod 10"
  have "a + i = 10 * q + m" unfolding q_def m_def by (rule split)
  moreover have "a + j = 10 * q' + m" unfolding q'_def m_def eq by (rule split)
  ultimately show "i = j" using assms by (cases q q' rule: linorder_cases) linarith+
qed simp

lemma mod_ten_less_twenty: "(x::nat) < 20 \<Longrightarrow> x mod 10 = (if x < 10 then x else x - 10)"
  by (simp add: mod_if)

lemma ring_count_step:
  fixes i p :: nat
  assumes "i < 10" "p < 10"
  shows "Suc i mod 10 \<noteq> p \<Longrightarrow> (Suc i mod 10 + 10 - p) mod 10 = Suc ((i + 10 - p) mod 10)"
    and "Suc i mod 10 = p \<Longrightarrow> (i + 10 - p) mod 10 = 9"
  using assms by (auto simp: mod_ten_less_twenty split: if_splits)

section \<open>The lookup against its reference\<close>

lemma take_rotate_step:
  assumes "length es = 10" "i < 10" "p < 10"
  shows "take (10 - i) (rotate p es) = es ! p # take (10 - Suc i) (rotate ((p + 1) mod 10) es)"
proof -
  obtain x xs where x: "rotate p es = x # xs"
    using assms(1) by (cases "rotate p es") auto
  have hd: "x = es ! p"
    using nth_rotate_mod [of 0 es p] assms x by simp
  have "rotate ((p + 1) mod 10) es = xs @ [x]"
    using rotate_conv_mod [of "Suc p" es] assms(1) x by simp
  moreover have "10 - i = Suc (10 - Suc i)" and "length xs = 9"
    using assms(2) arg_cong [OF x, of length] assms(1) by simp_all
  ultimately show ?thesis using assms(2) x hd by simp
qed

lemma find_loop_locate:
  assumes "length es = 10" "i \<le> 10" "unat offset < 10"
  shows "find_loop es i offset c =
    Inr (map_option (\<lambda>(k, r). ((unat offset + k) mod 10, word_of_nat r))
          (locate entry_bytes (take (10 - i) (rotate (unat offset) es)) (unat c)))"
  using assms
proof (induction es i offset c rule: find_loop.induct)
  case (1 es i offset c)
  show ?case
  proof (cases "i < 10")
    case False
    with 1 show ?thesis by (simp add: find_loop.simps)
  next
    case True
    let ?e = "es ! unat offset"
    note step = take_rotate_step [OF "1.prems"(1) True "1.prems"(3)]
    show ?thesis
    proof (cases "ent_size ?e > c")
      case found: True
      then have "unat c < unat (ent_size ?e)" by (simp add: word_less_nat_alt)
      with found True "1.prems" step show ?thesis by (simp add: find_loop.simps entry_bytes_def)
    next
      case False
      then have le: "unat (ent_size ?e) \<le> unat c" by (simp add: word_less_nat_alt)
      then have sub: "unat (c - ent_size ?e) = unat c - unat (ent_size ?e)"
        by (simp add: unat_sub word_le_nat_alt)
      have rec: "find_loop es i offset c = find_loop es (Suc i) (next_offs offset) (c - ent_size ?e)"
        using False True "1.prems" by (subst find_loop.simps) simp
      have "find_loop es (Suc i) (next_offs offset) (c - ent_size ?e) =
        Inr (map_option (\<lambda>(k, r). ((unat (next_offs offset) + k) mod 10, word_of_nat r))
          (locate entry_bytes (take (10 - Suc i) (rotate (unat (next_offs offset)) es))
            (unat (c - ent_size ?e))))"
        using "1.prems" True False by (intro "1.IH") auto
      moreover have "entry_bytes ?e = unat (ent_size ?e)" by (simp add: entry_bytes_def)
      ultimately show ?thesis
        using le rec by (simp add: step sub option.map_comp comp_def case_prod_unfold mod_simps)
    qed
  qed
qed

lemma find_entry_wf:
  assumes "ring_wf b"
  shows "aesd_circular_buffer_find_entry_offset_for_fpos b c =
    Inr (case locate entry_bytes (scan b) (unat c) of
           Some (k, r) \<Rightarrow> (b, Some ((unat (out_offs b) + k) mod 10, word_of_nat r))
         | None \<Rightarrow> (b\<lparr>full := False, in_offs := 0, out_offs := 0\<rparr>, None))"
  using assms find_loop_locate [of "entry b" 0 "out_offs b" c]
  by (auto simp: aesd_circular_buffer_find_entry_offset_for_fpos_def ring_wf_def scan_def
      split: option.splits)

section \<open>Adding an entry\<close>

lemma add_entry_full:
  assumes "ring_wf b" "full b"
  shows "aesd_circular_buffer_add_entry b e =
    Inr (b\<lparr>entry := (entry b)[unat (out_offs b) := e],
           in_offs := next_offs (in_offs b), out_offs := next_offs (out_offs b)\<rparr>,
         entry b ! unat (out_offs b))"
  using assms by (simp add: aesd_circular_buffer_add_entry_def ring_wf_def Let_def)

lemma add_entry_room:
  assumes "ring_wf b" "\<not> full b"
  shows "aesd_circular_buffer_add_entry b e =
    Inr (b\<lparr>entry := (entry b)[unat (in_offs b) := e], in_offs := next_offs (in_offs b),
           full := (next_offs (in_offs b) = out_offs b)\<rparr>, zero_entry)"
  using assms by (simp add: aesd_circular_buffer_add_entry_def ring_wf_def Let_def)

lemma add_entry_total:
  assumes "ring_wf b"
  obtains b' out where "aesd_circular_buffer_add_entry b e = Inr (b', out)"
  using assms add_entry_full add_entry_room by (cases "full b") blast+

lemma add_entry_wf:
  assumes "ring_wf b" "aesd_circular_buffer_add_entry b e = Inr (b', out)"
  shows "ring_wf b'"
  using assms add_entry_full [of b e] add_entry_room [of b e]
  by (cases "full b") (auto simp: ring_wf_def)

lemma scan_add_full:
  assumes "ring_wf b" "full b" "aesd_circular_buffer_add_entry b e = Inr (b', out)"
  shows "scan b' = tl (scan b) @ [e]" "out = hd (scan b)" "full b'"
proof -
  let ?p = "unat (out_offs b)"
  have b': "b' = b\<lparr>entry := (entry b)[?p := e], in_offs := next_offs (in_offs b),
      out_offs := next_offs (out_offs b)\<rparr>" and out: "out = entry b ! ?p"
    using assms add_entry_full by auto
  have wf': "ring_wf b'" using assms add_entry_wf by blast
  have p: "?p < 10" and len: "length (entry b) = 10"
    using assms(1) by (simp_all add: ring_wf_def)
  show "full b'" using assms(2) b' by simp
  show "out = hd (scan b)"
    using scan_nth [OF assms(1), of 0] p out assms(1)
    by (metis hd_conv_nth length_scan list.size(3) add_0_right mod_less zero_less_numeral zero_neq_numeral)
  show "scan b' = tl (scan b) @ [e]"
  proof (rule nth_equalityI)
    show "length (scan b') = length (tl (scan b) @ [e])" using wf' assms(1) by simp
  next
    fix k assume "k < length (scan b')"
    then have k: "k < 10" using wf' by simp
    have "scan b' ! k = (entry b)[?p := e] ! ((?p + Suc k) mod 10)"
      using scan_nth [OF wf' k] b' by (simp add: mod_simps)
    also have "\<dots> = (tl (scan b) @ [e]) ! k"
    proof (cases "k = 9")
      case True
      then show ?thesis using p len assms(1) by (simp add: nth_append)
    next
      case False
      then have "(?p + Suc k) mod 10 \<noteq> (?p + 0) mod 10"
        using k by (subst ring_pos_iff) auto
      then show ?thesis
        using False k p assms(1) scan_nth [OF assms(1), of "Suc k"] by (simp add: nth_append nth_tl)
    qed
    finally show "scan b' ! k = (tl (scan b) @ [e]) ! k" .
  qed
qed

lemma scan_add_room:
  assumes "ring_wf b" "\<not> full b" "aesd_circular_buffer_add_entry b e = Inr (b', out)"
  shows "scan b' = (scan b)[live_count b := e]" "out = zero_entry"
    "live_count b' = Suc (live_count b)"
proof -
  let ?p = "unat (out_offs b)" and ?i = "unat (in_offs b)"
  have b': "b' = b\<lparr>entry := (entry b)[?i := e], in_offs := next_offs (in_offs b),
      full := (next_offs (in_offs b) = out_offs b)\<rparr>" and out: "out = zero_entry"
    using assms add_entry_room by auto
  have wf': "ring_wf b'" using assms add_entry_wf by blast
  have p: "?p < 10" "?i < 10" and len: "length (entry b) = 10"
    using assms(1) by (simp_all add: ring_wf_def)
  note n = live_count_less [OF assms(2)]
  note ipos = in_offs_pos [OF assms(1,2)]
  show "out = zero_entry" by (rule out)
  show "live_count b' = Suc (live_count b)"
  proof (cases "next_offs (in_offs b) = out_offs b")
    case True
    then have "(?i + 1) mod 10 = ?p" using unat_next_offs by metis
    then show ?thesis using True assms(2) b' p by (auto simp: live_count_def ring_count_step)
  next
    case False
    then have "(?i + 1) mod 10 \<noteq> ?p" using unat_next_offs by (metis word_unat_eq_iff)
    then show ?thesis using False assms(2) b' p by (auto simp: live_count_def ring_count_step)
  qed
  show "scan b' = (scan b)[live_count b := e]"
  proof (rule nth_equalityI)
    show "length (scan b') = length ((scan b)[live_count b := e])" using wf' assms(1) by simp
  next
    fix k assume "k < length (scan b')"
    then have k: "k < 10" using wf' by simp
    have "scan b' ! k = (entry b)[?i := e] ! ((?p + k) mod 10)"
      using scan_nth [OF wf' k] b' by simp
    also have "\<dots> = (scan b)[live_count b := e] ! k"
      using ring_pos_iff [OF k n, of ?p] k n p len ipos assms(1) scan_nth [OF assms(1) k]
      by (cases "k = live_count b") simp_all
    finally show "scan b' ! k = (scan b)[live_count b := e] ! k" .
  qed
qed

section \<open>The ring as a bounded queue with lookup\<close>

lemma ring_clean_init: "ring_clean aesd_circular_buffer_init"
  by (simp add: ring_clean_def ring_wf_def aesd_circular_buffer_init_def live_count_def scan_def)

lemma live_init [simp]: "live aesd_circular_buffer_init = []"
  by (simp add: live_def aesd_circular_buffer_init_def live_count_def)

lemma add_entry_clean_room:
  assumes "ring_clean b" "\<not> full b" "aesd_circular_buffer_add_entry b e = Inr (b', out)"
  shows "ring_clean b'" "live b' = live b @ [e]" "out = zero_entry"
proof -
  let ?n = "live_count b"
  have wf: "ring_wf b" using assms(1) by (rule ring_clean_wf)
  note room = scan_add_room [OF wf assms(2,3)]
  have n: "?n < 10" by (rule live_count_less [OF assms(2)])
  have "scan b' = live b @ e # replicate (9 - ?n) zero_entry"
  proof -
    have "replicate (10 - ?n) zero_entry = zero_entry # replicate (9 - ?n) zero_entry"
      using n by (simp flip: replicate_Suc add: Suc_diff_le)
    then show ?thesis
      using room(1) scan_clean [OF assms(1)] wf by (simp add: list_update_append)
  qed
  then show "live b' = live b @ [e]" and "ring_clean b'"
    using room(3) wf add_entry_wf [OF wf assms(3)] n
    by (simp_all add: live_def [of b'] ring_clean_def)
  show "out = zero_entry" by (rule room(2))
qed

lemma add_entry_clean_full:
  assumes "ring_clean b" "full b" "aesd_circular_buffer_add_entry b e = Inr (b', out)"
  shows "ring_clean b'" "live b' = tl (live b) @ [e]" "out = hd (live b)"
proof -
  have wf: "ring_wf b" using assms(1) by (rule ring_clean_wf)
  note full = scan_add_full [OF wf assms(2,3)]
  have n: "live_count b = 10" "live_count b' = 10"
    using assms(2) full(3) by (simp_all add: live_count_def)
  show "ring_clean b'" "live b' = tl (live b) @ [e]" "out = hd (live b)"
    using full n wf add_entry_wf [OF wf assms(3)] by (simp_all add: live_def ring_clean_def)
qed

lemma full_iff_length_live: "ring_wf b \<Longrightarrow> full b \<longleftrightarrow> length (live b) = 10"
  using live_count_less [of b] by (auto simp: live_count_def)

lemma lookup_entry_clean:
  assumes "ring_clean b"
  shows "locate entry_bytes (live b) (unat c) = Some (k, r) \<Longrightarrow>
      lookup_entry b c = Inr (b, Some (live b ! k, r))"
    and "locate entry_bytes (live b) (unat c) = None \<Longrightarrow> \<exists>b'. lookup_entry b c = Inr (b', None)"
proof -
  have wf: "ring_wf b" using assms by (rule ring_clean_wf)
  have same: "locate entry_bytes (scan b) (unat c) = locate entry_bytes (live b) (unat c)"
    unfolding scan_clean [OF assms] by (rule locate_append_empty) (simp add: entry_bytes_def zero_entry_def)
  note find = find_entry_wf [OF wf, of c, unfolded same]
  show "\<exists>b'. lookup_entry b c = Inr (b', None)" if "locate entry_bytes (live b) (unat c) = None"
    using find that by (simp add: lookup_entry_def)
  show "lookup_entry b c = Inr (b, Some (live b ! k, r))"
    if l: "locate entry_bytes (live b) (unat c) = Some (k, r)"
  proof -
    have k: "k < live_count b" and r: "r \<le> unat c"
      using l wf by (simp_all add: locate_Some_iff)
    have "unat (word_of_nat r :: u64) = r"
      by (rule unat_word_of_nat_le [OF r])
    moreover have "entry b ! ((unat (out_offs b) + k) mod 10) = live b ! k"
      using k scan_nth [OF wf, of k] live_count_le [of b] by (simp add: live_def)
    ultimately show ?thesis using find l by (simp add: lookup_entry_def)
  qed
qed

interpretation ring: indexed_queue
  aesd_circular_buffer_add_entry live ring_clean ENTRY_SIZE zero_entry lookup_entry entry_bytes
proof (unfold_locales, goal_cases)
  case 1
  show ?case by simp
next
  case (2 q)
  then show ?case using ring_clean_wf by (simp add: live_count_le)
next
  case (3 q x)
  then have wf: "ring_wf q" and "\<not> full q" using full_iff_length_live [of q] by auto
  then obtain q' out where a: "aesd_circular_buffer_add_entry q x = Inr (q', out)"
    using add_entry_total by blast
  from add_entry_clean_room [OF 3(1) \<open>\<not> full q\<close> a] a show ?case by simp
next
  case (4 q x)
  then have wf: "ring_wf q" and "full q" using full_iff_length_live [of q] by auto
  then obtain q' out where a: "aesd_circular_buffer_add_entry q x = Inr (q', out)"
    using add_entry_total by blast
  from add_entry_clean_full [OF 4(1) \<open>full q\<close> a] a show ?case by simp
next
  case (5 q c k r)
  then show ?case by (rule lookup_entry_clean)
next
  case (6 q c)
  then show ?case by (rule lookup_entry_clean)
qed

section \<open>Iteration\<close>

lemma foreach_loop_drop:
  assumes "length es = 10" "unat index \<le> 10"
  shows "foreach_loop body es index s = foldE body (drop (unat index) es) s"
  using assms
proof (induction body es index s rule: foreach_loop.induct)
  case (1 body es index s)
  show ?case
  proof (cases "unat index < 10")
    case False
    with 1 show ?thesis by (simp add: foreach_loop.simps)
  next
    case True
    then have idx: "unat (index + 1) = Suc (unat index)" by (simp add: unat_word_ariths)
    have "drop (unat index) es = es ! unat index # drop (unat (index + 1)) es"
      using True "1.prems"(1) by (simp add: idx Cons_nth_drop_Suc)
    moreover have "foreach_loop body es index s =
        bindE (body (es ! unat index) s) (foreach_loop body es (index + 1))"
      using True "1.prems"(1) by (subst foreach_loop.simps) simp
    moreover have "foreach_loop body es (index + 1) s' = foldE body (drop (unat (index + 1)) es) s'"
      if "body (es ! unat index) s = Inr s'" for s'
      using "1.IH" [OF _ _ that] True "1.prems" idx by simp
    ultimately show ?thesis by (cases "body (es ! unat index) s") simp_all
  qed
qed

section \<open>Properties\<close>

lemma sample_ring_clean: "ring_clean sample_ring"
  by code_simp

lemma sample_ring_span: "span entry_bytes (live sample_ring) = 7"
  by code_simp

lemma scan_reset [simp]:
  "scan (b\<lparr>full := f, in_offs := i, out_offs := 0\<rparr>) = entry b"
  by (simp add: scan_def)

lemma find_entry_preserves_wf:
  "ring_wf b \<Longrightarrow> aesd_circular_buffer_find_entry_offset_for_fpos b c = Inr (b', r) \<Longrightarrow> ring_wf b'"
  by (auto simp: find_entry_wf ring_wf_def split: option.splits)

text \<open>
  (C2) Starting from the initialised ring, any sequence of added entries succeeds, leaves
  exactly the last ten of them (in order, oldest first) as the ring's contents, and hands back
  the zero struct for the first ten and afterwards every overwritten entry, oldest first.
\<close>

theorem ring_keeps_last_ten:
  "\<exists>b ys. run_ops aesd_circular_buffer_add_entry aesd_circular_buffer_init es = Inr (b, ys) \<and>
     ring_clean b \<and> live b = lastn 10 es \<and>
     ys = replicate (min 10 (length es)) zero_entry @ take (length es - 10) es"
proof -
  obtain b ys where "run_ops aesd_circular_buffer_add_entry aesd_circular_buffer_init es = Inr (b, ys)"
    "ring_clean b" "live b = lastn 10 es"
    using ring.run_keeps_newest [OF ring_clean_init, of es] by auto
  moreover from ring.run_hands_back_oldest [OF ring_clean_init this(1)]
  have "ys = replicate (min 10 (length es)) zero_entry @ take (length es - 10) es" by simp
  ultimately show ?thesis by blast
qed

text \<open>
  (C14) In a clean ring the lookup of a position inside the stored data leaves the ring as it is
  and returns the slot of the live entry that holds that byte of the concatenation, with the
  position inside it: the sizes of the older entries plus the returned offset give the position.
\<close>

theorem find_entry_hit:
  assumes "ring_clean b" "unat c < span entry_bytes (live b)"
  shows "\<exists>i off k. aesd_circular_buffer_find_entry_offset_for_fpos b c = Inr (b, Some (i, off)) \<and>
     k < length (live b) \<and> i < 10 \<and> entry b ! i = live b ! k \<and>
     unat c = span entry_bytes (take k (live b)) + unat off \<and> unat off < entry_bytes (live b ! k)"
proof -
  have wf: "ring_wf b" using assms(1) by (rule ring_clean_wf)
  obtain k r where lk: "lookup_entry b c = Inr (b, Some (live b ! k, r))" "k < length (live b)"
    "unat c = span entry_bytes (take k (live b)) + r" "r < entry_bytes (live b ! k)"
    using ring.lookup_within [OF assms] by metis
  then obtain i off where
    "aesd_circular_buffer_find_entry_offset_for_fpos b c = Inr (b, Some (i, off))"
    "entry b ! i = live b ! k" "unat off = r"
    unfolding lookup_entry_def by (auto simp: bindE_eq_Inr)
  moreover from this(1) have "i < 10"
    using wf by (auto simp: find_entry_wf split: option.splits)
  ultimately show ?thesis using lk by metis
qed

theorem find_entry_hit_witness:
  "\<exists>i off k. aesd_circular_buffer_find_entry_offset_for_fpos sample_ring 4 =
       Inr (sample_ring, Some (i, off)) \<and>
     k < length (live sample_ring) \<and> i < 10 \<and> entry sample_ring ! i = live sample_ring ! k \<and>
     unat (4 :: u64) = span entry_bytes (take k (live sample_ring)) + unat off \<and>
     unat off < entry_bytes (live sample_ring ! k)"
  by (rule find_entry_hit) (simp_all add: sample_ring_clean sample_ring_span)

text \<open>
  A lookup past the stored data returns \<open>NULL\<close>, and empties the ring: both offsets become
  zero and the full flag is cleared, while the ten slots keep their entries, so the next lookup
  scans them in array order.
\<close>

theorem find_entry_miss:
  assumes "ring_clean b" "span entry_bytes (live b) \<le> unat c"
  shows "\<exists>b'. aesd_circular_buffer_find_entry_offset_for_fpos b c = Inr (b', None) \<and>
     live b' = [] \<and> entry b' = entry b \<and> scan b' = entry b"
proof -
  have "span entry_bytes (scan b) = span entry_bytes (live b)"
    unfolding scan_clean [OF assms(1)] by (simp add: entry_bytes_def zero_entry_def)
  then have "locate entry_bytes (scan b) (unat c) = None"
    using assms(2) by (simp add: locate_None_iff)
  then show ?thesis
    using find_entry_wf [OF ring_clean_wf [OF assms(1)], of c]
    by (simp add: live_def live_count_def)
qed

theorem find_entry_miss_witness:
  "\<exists>b'. aesd_circular_buffer_find_entry_offset_for_fpos sample_ring 7 = Inr (b', None) \<and>
     live b' = [] \<and> entry b' = entry sample_ring \<and> scan b' = entry sample_ring"
  by (rule find_entry_miss) (simp_all add: sample_ring_clean sample_ring_span)

text \<open>
  (C16) Memory safety: on a ring whose array has ten slots and whose offsets are in range, the
  lookup and the insertion never index out of the array, and every state they produce is again
  such a ring, whatever the contents of the slots.
\<close>

theorem ring_ops_safe:
  assumes "ring_wf b"
  shows "(\<exists>b1 r. aesd_circular_buffer_find_entry_offset_for_fpos b c = Inr (b1, r) \<and> ring_wf b1) \<and>
     (\<exists>b2 out. aesd_circular_buffer_add_entry b e = Inr (b2, out) \<and> ring_wf b2)"
proof
  show "\<exists>b1 r. aesd_circular_buffer_find_entry_offset_for_fpos b c = Inr (b1, r) \<and> ring_wf b1"
    using find_entry_wf [OF assms, of c] find_entry_preserves_wf [OF assms, of c]
    by (metis prod.exhaust)
  show "\<exists>b2 out. aesd_circular_buffer_add_entry b e = Inr (b2, out) \<and> ring_wf b2"
    using add_entry_total [OF assms, of e] add_entry_wf [OF assms] by metis
qed

theorem ring_ops_safe_witness:
  "ring_wf sample_ring \<and>
   (\<exists>b1 r. aesd_circular_buffer_find_entry_offset_for_fpos sample_ring 99 = Inr (b1, r) \<and> ring_wf b1) \<and>
   (\<exists>b2 out. aesd_circular_buffer_add_entry sample_ring zero_entry = Inr (b2, out) \<and> ring_wf b2)"
  using ring_ops_safe [of sample_ring 99 zero_entry] sample_ring_clean by blast

text \<open>
  The iteration macro runs its body once on each of the ten slots, in index order, and
  stops at the first failure of the body; the \<open>uint8_t\<close> index never wraps.
\<close>

theorem foreach_visits_all_slots:
  assumes "ring_wf b"
  shows "AESD_CIRCULAR_BUFFER_FOREACH body b s = foldE body (entry b) s"
  using assms foreach_loop_drop [of "entry b" 0 body s]
  by (simp add: AESD_CIRCULAR_BUFFER_FOREACH_def ring_wf_def)

theorem foreach_visits_all_slots_witness:
  "ring_wf sample_ring \<and>
   AESD_CIRCULAR_BUFFER_FOREACH (\<lambda>e s. Inr (buffptr e # s)) sample_ring [] =
     Inr (Some 1 # replicate 8 None @ [Some 2])"
  using foreach_visits_all_slots [of sample_ring "\<lambda>e s. Inr (buffptr e # s)" "[]"]
    ring_clean_wf [OF sample_ring_clean]
  by (simp add: sample_ring_def zero_entry_def numeral_eq_Suc)

end
