(* ===== verification/Char_Driver.thy ===== *)
theory Char_Driver
  imports Circular_Buffer
begin

text \<open>
  The character device \<open>aesd-char-driver/main.c\<close> with \<open>aesdchar.h\<close>: the device struct, the
  file operations (open, release, read, write) and the module's registration and removal.
  What the kernel answers is a parameter of the handlers, the record \<open>kernel_api\<close>: the
  allocator, the two user-space copies, the semaphore operations on an abstract semaphore type,
  and the registration calls. Debug output is modelled as far as it reads memory: a \<open>%s\<close>
  argument is read up to its NUL.
\<close>

section \<open>Kernel interface\<close>

definition ENOMEM :: u64 where "ENOMEM = 12"
definition EFAULT :: u64 where "EFAULT = 14"
definition ERESTARTSYS :: u64 where "ERESTARTSYS = 512"

text \<open>
  \<open>kmalloc\<close> answers an address and the initial contents of its block, or \<open>None\<close>; the two
  copies answer the number of bytes they could not copy; \<open>cdev_add\<close> and
  \<open>alloc_chrdev_region\<close> answer a negative error number or zero (the latter with a device
  number).
\<close>

record 'sem kernel_api =
  kmalloc :: "heap \<Rightarrow> u64 \<Rightarrow> (addr \<times> byte list) option"
  copy_from_user :: "byte list \<Rightarrow> u64 \<Rightarrow> u64"
  copy_to_user :: "byte list \<Rightarrow> u64 \<Rightarrow> u64"
  down_read_trylock :: "'sem \<Rightarrow> int \<times> 'sem"
  up_read :: "'sem \<Rightarrow> 'sem"
  down_write_trylock :: "'sem \<Rightarrow> int \<times> 'sem"
  up_write :: "'sem \<Rightarrow> 'sem"
  init_rwsem :: 'sem
  alloc_chrdev_region :: "i32 \<Rightarrow> int \<times> i32"
  cdev_add :: "i32 \<Rightarrow> int"

text \<open>Documented behaviour of the allocator: a fresh block of at least the requested size.\<close>

definition kmalloc_ok :: "'sem kernel_api \<Rightarrow> bool" where
  "kmalloc_ok K \<longleftrightarrow> (\<forall>h n a bs. kmalloc K h n = Some (a, bs) \<longrightarrow> h a = None \<and> unat n \<le> length bs)"

section \<open>Device and module state\<close>

datatype dev_ref = Aesd_device
datatype cdev_ref = Cdev_of dev_ref
datatype module_ref = THIS_MODULE
datatype handler = Aesd_read | Aesd_write | Aesd_open | Aesd_release

record file_operations =
  fop_owner :: module_ref
  fop_read :: handler
  fop_write :: handler
  fop_open :: handler
  fop_release :: handler

record cdev =
  cdev_owner :: "module_ref option"
  cdev_ops :: "file_operations option"

record 'sem aesd_dev =
  dev_cdev :: cdev
  ring :: aesd_circular_buffer
  sem :: 'sem
  temp_char_buffer :: ptr

text \<open>
  The module: its two globals, the device, the kernel heap, and which device number ranges and
  character devices the kernel currently holds for it.
\<close>

record 'sem module =
  aesd_major :: i32
  aesd_minor :: i32
  aesd_device :: "'sem aesd_dev"
  kheap :: heap
  regions :: "i32 list"
  cdevs :: "i32 list"

record inode =
  i_cdev :: cdev_ref

record kfile =
  private_data :: "dev_ref option"

section \<open>File operations\<close>

definition aesd_fops :: file_operations where
  "aesd_fops = \<lparr>fop_owner = THIS_MODULE, fop_read = Aesd_read, fop_write = Aesd_write,
     fop_open = Aesd_open, fop_release = Aesd_release\<rparr>"

text \<open>\<open>container_of(ptr, struct aesd_dev, cdev)\<close>: the device whose member \<open>cdev\<close> is pointed to.\<close>

fun container_of_cdev :: "cdev_ref \<Rightarrow> dev_ref" where
  "container_of_cdev (Cdev_of d) = d"

definition aesd_open :: "inode \<Rightarrow> kfile \<Rightarrow> kfile \<times> int" where
  "aesd_open inode filp = (filp\<lparr>private_data := Some (container_of_cdev (i_cdev inode))\<rparr>, 0)"

definition aesd_release :: "inode \<Rightarrow> kfile \<Rightarrow> kfile \<times> int" where
  "aesd_release inode filp = (filp, 0)"

text \<open>\<open>PDEBUG("...%s...", p)\<close>: the string at the pointer is read up to its NUL.\<close>

definition pdebug_str :: "heap \<Rightarrow> ptr \<Rightarrow> byte list res" where
  "pdebug_str h p = bindE (block h p) c_str"

text \<open>
  The result of a read: the module, the file position, the bytes stored from the start of the
  user's buffer, and the returned \<open>ssize_t\<close> in two's complement.
\<close>

definition aesd_read ::
  "'sem kernel_api \<Rightarrow> 'sem module \<Rightarrow> kfile \<Rightarrow> u64 \<Rightarrow> u64 \<Rightarrow>
     ('sem module \<times> u64 \<times> byte list \<times> u64) res" where
  "aesd_read K m filp count f_pos =
     (case private_data filp of None \<Rightarrow> Inl Null_deref
      | Some Aesd_device \<Rightarrow>
        let dev = aesd_device m; (got, s1) = down_read_trylock K (sem dev) in
        if got \<noteq> 1 then Inr (m\<lparr>aesd_device := dev\<lparr>sem := s1\<rparr>\<rparr>, f_pos, [], - ERESTARTSYS)
        else
          bindE (aesd_circular_buffer_find_entry_offset_for_fpos (ring dev) f_pos) (\<lambda>(b, r).
            let m1 = m\<lparr>aesd_device := dev\<lparr>ring := b, sem := up_read K s1\<rparr>\<rparr> in
            case r of
              None \<Rightarrow> Inr (m1, f_pos, [], 0)
            | Some (i, entry_offset_byte_rtn) \<Rightarrow>
                bindE (arr_get (entry b) i) (\<lambda>e.
                  let retval = (if count \<le> ent_size e then count else ent_size e);
                      f_pos1 = f_pos + retval in
                  bindE (pdebug_str (kheap m1) (buffptr e)) (\<lambda>_.
                  bindE (block_read (kheap m1) (buffptr e) (entry_bytes e)) (\<lambda>src.
                    let left = copy_to_user K src (ent_size e);
                        stored = take (entry_bytes e - unat left) src in
                    Inr (m1, f_pos1, stored, if left \<noteq> 0 then - EFAULT else retval))))))"

text \<open>The part of a write under the semaphore, with the user's data at address \<open>a\<close>.\<close>

definition aesd_write_locked ::
  "'sem kernel_api \<Rightarrow> 'sem module \<Rightarrow> addr \<Rightarrow> u64 \<Rightarrow> 'sem module res" where
  "aesd_write_locked K m a count =
     (let dev = aesd_device m; h = kheap m in
      bindE (block h (Some a)) (\<lambda>buffer.
      bindE (c_strstr buffer [newline]) (\<lambda>pos.
        case pos of
          None \<Rightarrow>
            (case temp_char_buffer dev of
               None \<Rightarrow> Inr (m\<lparr>aesd_device := dev\<lparr>temp_char_buffer := Some a\<rparr>\<rparr>)
             | Some t \<Rightarrow>
                 bindE (block h (Some t)) (\<lambda>temp.
                 bindE (c_strlen temp) (\<lambda>len.
                   let malloc_size = count + word_of_nat len + 1 in
                   case kmalloc K h malloc_size of
                     None \<Rightarrow> Inl Null_deref
                   | Some (c, junk) \<Rightarrow>
                       bindE (c_strcpy junk temp) (\<lambda>concat1.
                       bindE (c_strcat concat1 buffer) (\<lambda>concat2.
                       bindE (kfree (h(c \<mapsto> concat2)) (Some a)) (\<lambda>h1.
                       bindE (kfree h1 (Some t)) (\<lambda>h2.
                         Inr (m\<lparr>kheap := h2,
                                aesd_device := dev\<lparr>temp_char_buffer := Some c\<rparr>\<rparr>))))))))
        | Some _ \<Rightarrow>
            bindE (aesd_circular_buffer_add_entry (ring dev)
                     \<lparr>buffptr = Some a, ent_size = count\<rparr>) (\<lambda>(b, entry_output).
            bindE (case buffptr entry_output of
                     None \<Rightarrow> Inr h
                   | Some _ \<Rightarrow> bindE (pdebug_str h (buffptr entry_output)) (\<lambda>_.
                                kfree h (buffptr entry_output))) (\<lambda>h1.
              Inr (m\<lparr>kheap := h1, aesd_device := dev\<lparr>ring := b\<rparr>\<rparr>))))))"

definition aesd_write ::
  "'sem kernel_api \<Rightarrow> 'sem module \<Rightarrow> kfile \<Rightarrow> byte list \<Rightarrow> u64 \<Rightarrow> ('sem module \<times> u64) res" where
  "aesd_write K m filp buf count =
     (case private_data filp of None \<Rightarrow> Inl Null_deref
      | Some Aesd_device \<Rightarrow>
        (case kmalloc K (kheap m) count of
           None \<Rightarrow> Inr (m, - ENOMEM)
         | Some (a, junk) \<Rightarrow>
             let left = copy_from_user K buf count;
                 data = take (unat count - unat left) buf in
             bindE (block_write ((kheap m)(a \<mapsto> junk)) (Some a) data) (\<lambda>h1.
               if left \<noteq> 0 then
                 bindE (kfree h1 (Some a)) (\<lambda>h2. Inr (m\<lparr>kheap := h2\<rparr>, - EFAULT))
               else
                 bindE (pdebug_str h1 (Some a)) (\<lambda>_.
                   let dev = aesd_device m; (got, s1) = down_write_trylock K (sem dev);
                       m1 = m\<lparr>kheap := h1, aesd_device := dev\<lparr>sem := s1\<rparr>\<rparr> in
                   if got \<noteq> 1 then
                     bindE (kfree h1 (Some a)) (\<lambda>h2. Inr (m1\<lparr>kheap := h2\<rparr>, count))
                   else
                     bindE (aesd_write_locked K m1 a count) (\<lambda>m2.
                       Inr (m2\<lparr>aesd_device := (aesd_device m2)
                                  \<lparr>sem := up_write K (sem (aesd_device m2))\<rparr>\<rparr>, count))))))"

section \<open>Registration\<close>

definition MKDEV :: "i32 \<Rightarrow> i32 \<Rightarrow> i32" where
  "MKDEV ma mi = or (push_bit 20 ma) mi"

definition MAJOR :: "i32 \<Rightarrow> i32" where
  "MAJOR dev = drop_bit 20 dev"

definition aesd_setup_cdev :: "'sem kernel_api \<Rightarrow> 'sem module \<Rightarrow> 'sem module \<times> int" where
  "aesd_setup_cdev K m =
     (let devno = MKDEV (aesd_major m) (aesd_minor m);
          c = \<lparr>cdev_owner = Some THIS_MODULE, cdev_ops = Some aesd_fops\<rparr>;
          err = cdev_add K devno;
          m1 = m\<lparr>aesd_device := (aesd_device m)\<lparr>dev_cdev := c\<rparr>\<rparr> in
      (if err = 0 then m1\<lparr>cdevs := devno # cdevs m1\<rparr> else m1, err))"

text \<open>The device after \<open>memset\<close>, \<open>init_rwsem\<close> and \<open>aesd_circular_buffer_init\<close>.\<close>

definition fresh_device :: "'sem kernel_api \<Rightarrow> 'sem aesd_dev" where
  "fresh_device K = \<lparr>dev_cdev = \<lparr>cdev_owner = None, cdev_ops = None\<rparr>,
     ring = aesd_circular_buffer_init, sem = init_rwsem K, temp_char_buffer = None\<rparr>"

definition aesd_init_module :: "'sem kernel_api \<Rightarrow> 'sem module \<Rightarrow> 'sem module \<times> int" where
  "aesd_init_module K m =
     (let (result, dev) = alloc_chrdev_region K (aesd_minor m);
          m1 = m\<lparr>aesd_major := MAJOR dev\<rparr> in
      if result < 0 then (m1, result)
      else
        let m2 = m1\<lparr>regions := dev # regions m1, aesd_device := fresh_device K\<rparr>;
            (m3, result1) = aesd_setup_cdev K m2 in
        if result1 \<noteq> 0 then (m3\<lparr>regions := remove1 dev (regions m3)\<rparr>, result1)
        else (m3, result1))"

definition aesd_cleanup_module :: "'sem module \<Rightarrow> 'sem module" where
  "aesd_cleanup_module m =
     (let devno = MKDEV (aesd_major m) (aesd_minor m) in
      m\<lparr>cdevs := remove1 devno (cdevs m), regions := remove1 devno (regions m)\<rparr>)"

section \<open>Invariant\<close>

text \<open>The addresses the device refers to: those of the ten slots and the partial line.\<close>

definition ptr_list :: "ptr \<Rightarrow> addr list" where
  "ptr_list p = (case p of None \<Rightarrow> [] | Some a \<Rightarrow> [a])"

definition entry_ptrs :: "aesd_buffer_entry list \<Rightarrow> addr list" where
  "entry_ptrs es = concat (map (\<lambda>e. ptr_list (buffptr e)) es)"

definition owned :: "'sem module \<Rightarrow> addr list" where
  "owned m = entry_ptrs (entry (ring (aesd_device m))) @ ptr_list (temp_char_buffer (aesd_device m))"

text \<open>
  A slot is sound when it is empty or refers to an allocated block that holds its bytes and a
  terminating NUL.
\<close>

definition slot_ok :: "heap \<Rightarrow> aesd_buffer_entry \<Rightarrow> bool" where
  "slot_ok h e = (case buffptr e of None \<Rightarrow> ent_size e = 0
     | Some a \<Rightarrow> (case h a of None \<Rightarrow> False
         | Some bs \<Rightarrow> entry_bytes e \<le> length bs \<and> NUL \<in> set bs))"

definition temp_ok :: "heap \<Rightarrow> ptr \<Rightarrow> bool" where
  "temp_ok h p = (case p of None \<Rightarrow> True
     | Some t \<Rightarrow> (case h t of None \<Rightarrow> False | Some bs \<Rightarrow> NUL \<in> set bs))"

definition drv_inv :: "'sem module \<Rightarrow> bool" where
  "drv_inv m \<longleftrightarrow> ring_wf (ring (aesd_device m)) \<and>
     (\<forall>e \<in> set (entry (ring (aesd_device m))). slot_ok (kheap m) e) \<and>
     temp_ok (kheap m) (temp_char_buffer (aesd_device m)) \<and> distinct (owned m)"

section \<open>Reachable states\<close>

text \<open>
  The states the module goes through: a successful load, then any sequence of calls of its
  handlers that return, each with its own answers of the kernel.
\<close>

inductive reachable :: "'sem module \<Rightarrow> bool" where
  dev_load: "aesd_init_module K m0 = (m, 0) \<Longrightarrow> reachable m"
| dev_write: "reachable m \<Longrightarrow> kmalloc_ok K \<Longrightarrow> length buf = unat count \<Longrightarrow>
    aesd_write K m filp buf count = Inr (m', ret) \<Longrightarrow> reachable m'"
| dev_read: "reachable m \<Longrightarrow> aesd_read K m filp count f_pos = Inr (m', pos, bs, ret) \<Longrightarrow> reachable m'"

section \<open>Pointers of the slots\<close>

lemma entry_ptrs_simps [simp]:
  "entry_ptrs [] = []" "entry_ptrs (e # es) = ptr_list (buffptr e) @ entry_ptrs es"
  "entry_ptrs (es @ es') = entry_ptrs es @ entry_ptrs es'"
  by (simp_all add: entry_ptrs_def)

lemma ptr_list_simps [simp]: "ptr_list None = []" "ptr_list (Some a) = [a]"
  by (simp_all add: ptr_list_def)

lemma in_entry_ptrs: "a \<in> set (entry_ptrs es) \<longleftrightarrow> (\<exists>e \<in> set es. buffptr e = Some a)"
  by (induction es) (auto simp: ptr_list_def split: option.splits)

lemma entry_ptrs_replicate_zero [simp]: "entry_ptrs (replicate n zero_entry) = []"
  by (induction n) (simp_all add: zero_entry_def)

lemma entry_split:
  assumes "i < length es"
  obtains xs ys where "es = xs @ es ! i # ys" "\<And>e. es[i := e] = xs @ e # ys"
  using assms id_take_nth_drop upd_conv_take_nth_drop by metis

lemma slot_ok_upd [simp]: "buffptr e \<noteq> Some a \<Longrightarrow> slot_ok (h(a := v)) e = slot_ok h e"
  by (auto simp: slot_ok_def split: option.splits)

lemma temp_ok_upd [simp]: "p \<noteq> Some a \<Longrightarrow> temp_ok (h(a := v)) p = temp_ok h p"
  by (auto simp: temp_ok_def split: option.splits)

lemma slot_ok_zero [simp]: "slot_ok h zero_entry"
  by (simp add: slot_ok_def zero_entry_def)

lemma slot_ok_Some:
  "slot_ok h e \<Longrightarrow> buffptr e = Some a \<Longrightarrow>
     \<exists>bs. h a = Some bs \<and> entry_bytes e \<le> length bs \<and> NUL \<in> set bs"
  by (auto simp: slot_ok_def split: option.splits)

lemma temp_ok_Some: "temp_ok h (Some t) \<Longrightarrow> \<exists>bs. h t = Some bs \<and> NUL \<in> set bs"
  by (auto simp: temp_ok_def split: option.splits)

lemma add_entry_slots:
  assumes "ring_wf b" "aesd_circular_buffer_add_entry b e = Inr (b', out)"
  shows "entry b' = (entry b)[unat (in_offs b) := e]"
    "out = (if full b then entry b ! unat (in_offs b) else zero_entry)"
    "unat (in_offs b) < length (entry b)"
  using assms add_entry_full [of b e] add_entry_room [of b e]
  by (cases "full b"; auto simp: ring_wf_def)+

lemma drv_inv_slot: "drv_inv m \<Longrightarrow> e \<in> set (entry (ring (aesd_device m))) \<Longrightarrow> slot_ok (kheap m) e"
  by (simp add: drv_inv_def)

lemma drv_inv_fresh:
  "drv_inv (m\<lparr>aesd_device := fresh_device K\<rparr>)"
  using ring_clean_wf [OF ring_clean_init]
  by (simp add: drv_inv_def owned_def fresh_device_def temp_ok_def aesd_circular_buffer_init_def)

section \<open>Every handler keeps the invariant\<close>

text \<open>Adding the new block to the ring and freeing the entry it overwrote.\<close>

lemma add_line_inv:
  fixes m :: "'sem module"
  defines "d \<equiv> aesd_device m" and "h \<equiv> kheap m"
  assumes inv: "drv_inv m" and a: "h a = Some buf" "NUL \<in> set buf" "unat count \<le> length buf"
    and new: "a \<notin> set (owned m)"
    and add: "aesd_circular_buffer_add_entry (ring d) \<lparr>buffptr = Some a, ent_size = count\<rparr>
      = Inr (b, out)"
  shows "drv_inv (m\<lparr>kheap := (case buffptr out of None \<Rightarrow> h | Some p \<Rightarrow> h(p := None)),
      aesd_device := d\<lparr>ring := b\<rparr>\<rparr>)"
    and "buffptr out = Some p \<Longrightarrow> \<exists>bs. h p = Some bs \<and> NUL \<in> set bs"
proof -
  let ?e = "\<lparr>buffptr = Some a, ent_size = count\<rparr>" and ?i = "unat (in_offs (ring d))"
  have wf: "ring_wf (ring d)" using inv by (simp add: drv_inv_def d_def)
  note slots = add_entry_slots [OF wf add]
  obtain xs ys where xs: "entry (ring d) = xs @ entry (ring d) ! ?i # ys" "entry b = xs @ ?e # ys"
    using entry_split [OF slots(3)] slots(1) by metis
  have out: "out = entry (ring d) ! ?i \<or> out = zero_entry" using slots(2) by simp
  have ok: "\<forall>x \<in> set (xs @ entry (ring d) ! ?i # ys). slot_ok h x"
    using inv xs(1) unfolding drv_inv_def h_def d_def by simp
  have dist: "distinct (entry_ptrs (xs @ entry (ring d) ! ?i # ys) @ ptr_list (temp_char_buffer d))"
    using inv xs(1) unfolding drv_inv_def owned_def d_def by simp
  have anew: "a \<notin> set (entry_ptrs (xs @ entry (ring d) ! ?i # ys) @ ptr_list (temp_char_buffer d))"
    using new xs(1) unfolding owned_def d_def by simp
  have oute: "ptr_list (buffptr out) = [] \<or> out = entry (ring d) ! ?i"
    using out by (auto simp: zero_entry_def)
  show "\<exists>bs. h p = Some bs \<and> NUL \<in> set bs" if "buffptr out = Some p"
    using that out ok slot_ok_Some [of h out p] by (auto simp: zero_entry_def)
  let ?h' = "case buffptr out of None \<Rightarrow> h | Some p \<Rightarrow> h(p := None)"
  have keep: "slot_ok ?h' x" if "x \<in> set xs \<union> set ys" for x
  proof -
    have "slot_ok h x" using ok that by auto
    moreover have "buffptr x \<noteq> Some p" if "buffptr out = Some p" for p
      using that \<open>x \<in> set xs \<union> set ys\<close> oute dist in_entry_ptrs [of p xs] in_entry_ptrs [of p ys]
      by (auto dest: bspec)
    ultimately show ?thesis by (auto split: option.split)
  qed
  have new_ok: "slot_ok ?h' ?e"
  proof -
    have "slot_ok h ?e" using a by (simp add: slot_ok_def entry_bytes_def)
    moreover have "p \<noteq> a" if "buffptr out = Some p" for p
      using that oute anew by auto
    ultimately show ?thesis by (auto split: option.split)
  qed
  have temp: "temp_ok ?h' (temp_char_buffer d)"
  proof -
    have "temp_ok h (temp_char_buffer d)" using inv by (simp add: drv_inv_def d_def h_def)
    moreover have "temp_char_buffer d \<noteq> Some p" if "buffptr out = Some p" for p
      using that oute dist by auto
    ultimately show ?thesis by (auto split: option.split)
  qed
  have "distinct (entry_ptrs (xs @ ?e # ys) @ ptr_list (temp_char_buffer d))"
    using dist anew by auto
  then show "drv_inv (m\<lparr>kheap := ?h', aesd_device := d\<lparr>ring := b\<rparr>\<rparr>)"
    using add_entry_wf [OF wf add] keep new_ok temp xs(2)
    by (auto simp: drv_inv_def owned_def)
qed

abbreviation cstring :: "byte list \<Rightarrow> byte list" where
  "cstring bs \<equiv> takeWhile (\<lambda>b. b \<noteq> NUL) bs"

lemma write_locked_line:
  assumes inv: "drv_inv m" and a: "kheap m a = Some buf" "NUL \<in> set buf"
    and nl: "newline \<in> set (cstring buf)"
    and add: "aesd_circular_buffer_add_entry (ring (aesd_device m))
      \<lparr>buffptr = Some a, ent_size = count\<rparr> = Inr (b, out)"
    and out: "\<And>p. buffptr out = Some p \<Longrightarrow> \<exists>bs. kheap m p = Some bs \<and> NUL \<in> set bs"
  shows "aesd_write_locked K m a count =
    Inr (m\<lparr>kheap := (case buffptr out of None \<Rightarrow> kheap m | Some p \<Rightarrow> (kheap m)(p := None)),
      aesd_device := (aesd_device m)\<lparr>ring := b\<rparr>\<rparr>)"
proof -
  have "strpos [newline] (cstring buf) \<noteq> None" using nl by (simp add: strpos_single)
  then obtain n where "strpos [newline] (cstring buf) = Some n" by auto
  with a have "c_strstr buf [newline] = Inr (Some n)" by (simp add: c_strstr_def)
  with a add show ?thesis
    by (cases "buffptr out") (auto simp: aesd_write_locked_def Let_def pdebug_str_def dest!: out)
qed

lemma c_strstr_partial:
  "NUL \<in> set buf \<Longrightarrow> newline \<notin> set (cstring buf) \<Longrightarrow> c_strstr buf [newline] = Inr None"
  by (simp add: c_strstr_def strpos_single)

lemma write_locked_partial_first:
  assumes "kheap m a = Some buf" "NUL \<in> set buf" "newline \<notin> set (cstring buf)"
    "temp_char_buffer (aesd_device m) = None"
  shows "aesd_write_locked K m a count =
    Inr (m\<lparr>aesd_device := (aesd_device m)\<lparr>temp_char_buffer := Some a\<rparr>\<rparr>)"
  using assms by (simp add: aesd_write_locked_def c_strstr_partial)

text \<open>
  Both strings fit into the block requested for them, provided the size computation does not
  wrap and the new data is terminated no later than right behind its last byte.
\<close>

lemma concat_fits:
  assumes "NUL \<in> set temp" "NUL \<in> set buf"
    and "length (cstring temp) + length (cstring buf) < length junk"
  obtains concat1 concat2 where "c_strcpy junk temp = Inr concat1"
    "c_strcat concat1 buf = Inr concat2" "cstring concat2 = cstring temp @ cstring buf"
    "NUL \<in> set concat2"
proof -
  let ?t = "cstring temp" and ?b = "cstring buf"
  let ?c1 = "?t @ NUL # drop (Suc (length ?t)) junk"
  let ?c2 = "?t @ ?b @ NUL # drop (Suc (length ?t + length ?b)) ?c1"
  have len: "length ?c1 = length junk" using assms(3) by simp
  have "c_strcpy junk temp = Inr ?c1" using assms by (simp add: c_strcpy_def)
  moreover have "cstring ?c1 = ?t" by (rule takeWhile_NUL_append) simp
  then have "c_strcat ?c1 buf = Inr ?c2" using assms len by (simp add: c_strcat_def)
  moreover have "cstring ?c2 = ?t @ ?b"
    using takeWhile_NUL_append [of "?t @ ?b" "drop (Suc (length ?t + length ?b)) ?c1"] by simp
  ultimately show ?thesis using that [of ?c1 ?c2] by simp
qed

lemma write_locked_partial_more:
  assumes buf: "kheap m a = Some buf" "NUL \<in> set buf" "newline \<notin> set (cstring buf)"
    and t: "temp_char_buffer (aesd_device m) = Some t" "kheap m t = Some temp" "NUL \<in> set temp"
    and dist: "a \<noteq> t"
    and alloc: "kmalloc K (kheap m) (count + word_of_nat (length (cstring temp)) + 1) = Some (c, junk)"
    and fresh: "kheap m c = None"
    and fits: "length (cstring temp) + length (cstring buf) < length junk"
  obtains joined where "aesd_write_locked K m a count =
      Inr (m\<lparr>kheap := (kheap m)(c \<mapsto> joined, a := None, t := None),
             aesd_device := (aesd_device m)\<lparr>temp_char_buffer := Some c\<rparr>\<rparr>)"
    "cstring joined = cstring temp @ cstring buf" "NUL \<in> set joined"
proof -
  obtain c1 c2 where c: "c_strcpy junk temp = Inr c1" "c_strcat c1 buf = Inr c2"
    "cstring c2 = cstring temp @ cstring buf" "NUL \<in> set c2"
    using concat_fits [OF t(3) buf(2) fits] by metis
  have "c \<noteq> a" "c \<noteq> t" using buf t fresh by auto
  then have "kfree ((kheap m)(c \<mapsto> c2)) (Some a) = Inr ((kheap m)(c \<mapsto> c2, a := None))"
    and "kfree ((kheap m)(c \<mapsto> c2, a := None)) (Some t) = Inr ((kheap m)(c \<mapsto> c2, a := None, t := None))"
    using buf t dist by simp_all
  then show ?thesis
    using that [of c2] buf t alloc c by (simp add: aesd_write_locked_def c_strstr_partial c_strlen_def)
qed

lemma drv_inv_temp:
  assumes "drv_inv m" "temp_char_buffer (aesd_device m) = Some t"
  obtains temp where "kheap m t = Some temp" "NUL \<in> set temp"
proof -
  have "temp_ok (kheap m) (Some t)" using assms by (simp add: drv_inv_def)
  then show ?thesis using that temp_ok_Some by blast
qed

lemma owned_allocated:
  assumes "drv_inv m" "p \<in> set (owned m)"
  shows "kheap m p \<noteq> None"
proof -
  consider (slot) e where "e \<in> set (entry (ring (aesd_device m)))" "buffptr e = Some p"
    | (temp) "temp_char_buffer (aesd_device m) = Some p"
    using assms(2) by (auto simp: owned_def in_entry_ptrs ptr_list_def split: option.splits)
  then show ?thesis
  proof cases
    case slot
    from slot_ok_Some [OF drv_inv_slot [OF assms(1) slot(1)] slot(2)] show ?thesis by auto
  next
    case temp
    obtain bs where "kheap m p = Some bs" by (rule drv_inv_temp [OF assms(1) temp])
    then show ?thesis by simp
  qed
qed

lemma drv_inv_sem [simp]:
  "drv_inv (m\<lparr>aesd_device := (aesd_device m)\<lparr>sem := s\<rparr>\<rparr>) = drv_inv m"
  "drv_inv (m\<lparr>kheap := h, aesd_device := (aesd_device m)\<lparr>sem := s\<rparr>\<rparr>) = drv_inv (m\<lparr>kheap := h\<rparr>)"
  "drv_inv (m\<lparr>aesd_device := (aesd_device m)\<lparr>sem := s\<rparr>, kheap := h\<rparr>) = drv_inv (m\<lparr>kheap := h\<rparr>)"
  by (simp_all add: drv_inv_def owned_def)

lemma drv_inv_alloc:
  assumes "drv_inv m" "kheap m a = None"
  shows "a \<notin> set (owned m)" "drv_inv (m\<lparr>kheap := (kheap m)(a := v)\<rparr>)"
proof -
  show new: "a \<notin> set (owned m)" using owned_allocated [OF assms(1), of a] assms(2) by blast
  have "\<forall>e \<in> set (entry (ring (aesd_device m))). buffptr e \<noteq> Some a"
    and "temp_char_buffer (aesd_device m) \<noteq> Some a"
    using new by (auto simp: owned_def in_entry_ptrs)
  then show "drv_inv (m\<lparr>kheap := (kheap m)(a := v)\<rparr>)"
    using assms(1) by (simp add: drv_inv_def owned_def)
qed

lemma drv_inv_join:
  assumes inv: "drv_inv m" and t: "temp_char_buffer (aesd_device m) = Some t"
    and new: "a \<notin> set (owned m)" "kheap m c = None" "c \<noteq> a" and ok: "NUL \<in> set joined"
  shows "drv_inv (m\<lparr>kheap := (kheap m)(c \<mapsto> joined, a := None, t := None),
    aesd_device := (aesd_device m)\<lparr>temp_char_buffer := Some c\<rparr>\<rparr>)"
proof -
  let ?es = "entry (ring (aesd_device m))"
  have c: "c \<notin> set (owned m)" using owned_allocated [OF inv, of c] new by blast
  have "t \<notin> set (entry_ptrs ?es)" using inv t by (auto simp: drv_inv_def owned_def)
  then have "\<forall>e \<in> set ?es. buffptr e \<notin> {Some a, Some c, Some t}"
    using new c by (auto simp: owned_def in_entry_ptrs)
  moreover have "c \<noteq> t" using c t by (auto simp: owned_def)
  ultimately show ?thesis
    using inv c new ok by (auto simp: drv_inv_def owned_def temp_ok_def)
qed

lemma c_strcat_terminated: "c_strcat dst src = Inr r \<Longrightarrow> NUL \<in> set r"
  by (auto simp: c_strcat_def bindE_eq_Inr split: if_splits)

lemma write_locked_inv:
  assumes inv: "drv_inv m" and K: "kmalloc_ok K"
    and a: "kheap m a = Some buf" "NUL \<in> set buf" "unat count \<le> length buf" "a \<notin> set (owned m)"
    and res: "aesd_write_locked K m a count = Inr m'"
  shows "drv_inv m'"
proof (cases "newline \<in> set (cstring buf)")
  case True
  have wf: "ring_wf (ring (aesd_device m))" using inv by (simp add: drv_inv_def)
  obtain b out where add: "aesd_circular_buffer_add_entry (ring (aesd_device m))
      \<lparr>buffptr = Some a, ent_size = count\<rparr> = Inr (b, out)"
    using add_entry_total [OF wf] by blast
  note line = add_line_inv [OF inv a(1-4) add]
  show ?thesis
    using res line(1) write_locked_line [OF inv a(1,2) True add line(2)] by simp
next
  case False
  show ?thesis
  proof (cases "temp_char_buffer (aesd_device m)")
    case None
    then show ?thesis
      using res inv a write_locked_partial_first [OF a(1,2) False None, of K count]
      by (auto simp: drv_inv_def owned_def temp_ok_def)
  next
    case (Some t)
    obtain temp where temp: "kheap m t = Some temp" "NUL \<in> set temp"
      using drv_inv_temp [OF inv Some] .
    have at: "a \<noteq> t" using a(4) Some by (auto simp: owned_def)
    obtain c junk c1 c2 where
      c: "kmalloc K (kheap m) (count + word_of_nat (length (cstring temp)) + 1) = Some (c, junk)"
        "c_strcat c1 buf = Inr c2"
      and m': "bindE (kfree ((kheap m)(c \<mapsto> c2)) (Some a)) (\<lambda>h1. bindE (kfree h1 (Some t)) (\<lambda>h2.
        Inr (m\<lparr>kheap := h2, aesd_device := (aesd_device m)\<lparr>temp_char_buffer := Some c\<rparr>\<rparr>))) = Inr m'"
      using res a temp Some False
      by (auto simp: aesd_write_locked_def c_strstr_partial c_strlen_def bindE_eq_Inr Let_def
          split: option.splits)
    have fresh: "kheap m c = None" using K c(1) by (simp add: kmalloc_ok_def)
    then have "c \<noteq> a" "c \<noteq> t" using a temp by auto
    then have "m' = m\<lparr>kheap := (kheap m)(c \<mapsto> c2, a := None, t := None),
        aesd_device := (aesd_device m)\<lparr>temp_char_buffer := Some c\<rparr>\<rparr>"
      using m' a temp at by simp
    then show ?thesis
      using drv_inv_join [OF inv Some a(4) fresh \<open>c \<noteq> a\<close> c_strcat_terminated [OF c(2)]] by simp
  qed
qed

text \<open>What a write does up to the point where it holds the semaphore.\<close>

lemma write_unfold:
  assumes "private_data filp = Some Aesd_device"
    and alloc: "kmalloc K (kheap m) count = Some (a, junk)" and len: "unat count \<le> length junk"
    and copied: "copy_from_user K buf count = 0" and count: "length buf = unat count"
    and nul: "NUL \<in> set (buf @ drop (length buf) junk)"
  shows "aesd_write K m filp buf count =
    (let (got, s1) = down_write_trylock K (sem (aesd_device m));
         m1 = m\<lparr>kheap := (kheap m)(a \<mapsto> buf @ drop (length buf) junk),
               aesd_device := (aesd_device m)\<lparr>sem := s1\<rparr>\<rparr> in
     if got \<noteq> 1 then Inr (m1\<lparr>kheap := (kheap m)(a := None)\<rparr>, count)
     else bindE (aesd_write_locked K m1 a count) (\<lambda>m2.
       Inr (m2\<lparr>aesd_device := (aesd_device m2)\<lparr>sem := up_write K (sem (aesd_device m2))\<rparr>\<rparr>, count)))"
proof -
  have "block_write ((kheap m)(a \<mapsto> junk)) (Some a) buf =
      Inr ((kheap m)(a \<mapsto> buf @ drop (length buf) junk))"
    using len count by (simp add: block_write_def)
  with assms show ?thesis
    by (simp add: aesd_write_def pdebug_str_def Let_def split: prod.split)
qed

lemma write_inv:
  assumes inv: "drv_inv m" and K: "kmalloc_ok K"
    and res: "aesd_write K m filp buf count = Inr (m', ret)"
    and count: "length buf = unat count"
  shows "drv_inv m'"
proof (cases "kmalloc K (kheap m) count")
  case None
  then show ?thesis
    using res inv by (auto simp: aesd_write_def split: option.splits dev_ref.splits)
next
  case (Some aj)
  then obtain a junk where alloc: "kmalloc K (kheap m) count = Some (a, junk)" by (cases aj) auto
  have fresh: "kheap m a = None" and len: "unat count \<le> length junk"
    using K alloc by (simp_all add: kmalloc_ok_def)
  have pd: "private_data filp = Some Aesd_device"
    using res by (auto simp: aesd_write_def split: option.splits dev_ref.splits)
  show ?thesis
  proof (cases "copy_from_user K buf count = 0")
    case False
    then show ?thesis
      using res pd alloc inv len drv_inv_alloc(2) [OF inv fresh, of None]
      by (auto simp: aesd_write_def block_write_def bindE_eq_Inr Let_def split: if_splits)
  next
    case True
    let ?blk = "buf @ drop (length buf) junk"
    have nul: "NUL \<in> set ?blk"
      using res pd alloc True count len
      by (auto simp: aesd_write_def block_write_def pdebug_str_def bindE_eq_Inr c_str_eq_Inr)
    obtain got s1 where lock: "down_write_trylock K (sem (aesd_device m)) = (got, s1)"
      by (cases "down_write_trylock K (sem (aesd_device m))")
    let ?m1 = "m\<lparr>kheap := (kheap m)(a \<mapsto> ?blk), aesd_device := (aesd_device m)\<lparr>sem := s1\<rparr>\<rparr>"
    have inv1: "drv_inv ?m1" using drv_inv_alloc(2) [OF inv fresh] by simp
    have new: "a \<notin> set (owned ?m1)"
      using drv_inv_alloc(1) [OF inv fresh] by (simp add: owned_def)
    note unfold = write_unfold [OF pd alloc len True count nul]
    show ?thesis
    proof (cases "got = 1")
      case False
      then show ?thesis
        using res unfold lock drv_inv_alloc(2) [OF inv fresh, of None] by (auto simp: Let_def)
    next
      case got: True
      then obtain m2 where m2: "aesd_write_locked K ?m1 a count = Inr m2"
        and m': "m' = m2\<lparr>aesd_device := (aesd_device m2)\<lparr>sem := up_write K (sem (aesd_device m2))\<rparr>\<rparr>"
        using res unfold lock by (auto simp: bindE_eq_Inr)
      have "drv_inv m2"
        using write_locked_inv [OF inv1 K _ nul _ new m2] count by simp
      then show ?thesis using m' by simp
    qed
  qed
qed

lemma read_inv:
  assumes inv: "drv_inv m" and res: "aesd_read K m filp count f_pos = Inr (m', pos, bs, ret)"
  shows "drv_inv m'"
proof -
  have pd: "private_data filp = Some Aesd_device"
    using res by (auto simp: aesd_read_def split: option.splits dev_ref.splits)
  have wf: "ring_wf (ring (aesd_device m))" using inv by (simp add: drv_inv_def)
  obtain got s1 where lock: "down_read_trylock K (sem (aesd_device m)) = (got, s1)"
    by (cases "down_read_trylock K (sem (aesd_device m))")
  obtain b r where find: "aesd_circular_buffer_find_entry_offset_for_fpos (ring (aesd_device m)) f_pos
      = Inr (b, r)"
    using find_entry_wf [OF wf, of f_pos] by (metis prod.exhaust)
  have same: "entry b = entry (ring (aesd_device m))"
    using find find_entry_wf [OF wf, of f_pos] by (auto split: option.splits)
  have "m' = m\<lparr>aesd_device := (aesd_device m)\<lparr>sem := s1\<rparr>\<rparr> \<or>
    m' = m\<lparr>aesd_device := (aesd_device m)\<lparr>ring := b, sem := up_read K s1\<rparr>\<rparr>"
    using res pd lock find
    by (auto simp: aesd_read_def Let_def bindE_eq_Inr split: if_splits option.splits)
  moreover have "drv_inv (m\<lparr>aesd_device := (aesd_device m)\<lparr>ring := b, sem := s\<rparr>\<rparr>)" for s
    using inv same find_entry_preserves_wf [OF wf find] by (simp add: drv_inv_def owned_def)
  ultimately show ?thesis using inv by auto
qed

lemma init_inv: "aesd_init_module K m0 = (m, 0) \<Longrightarrow> drv_inv m"
  using drv_inv_fresh [of K m0]
  by (auto simp: aesd_init_module_def aesd_setup_cdev_def drv_inv_def owned_def Let_def
      split: prod.splits if_splits)

lemma reachable_inv: "reachable m \<Longrightarrow> drv_inv m"
  by (induction rule: reachable.induct) (blast intro: init_inv write_inv read_inv)+

section \<open>Reads do not fault\<close>

lemma slot_ok_nonempty:
  assumes "slot_ok h e" "0 < entry_bytes e"
  obtains a bs where "buffptr e = Some a" "h a = Some bs" "entry_bytes e \<le> length bs" "NUL \<in> set bs"
  using assms by (auto simp: slot_ok_def entry_bytes_def split: option.splits)

text \<open>The bytes of an entry, as the heap holds them.\<close>

definition entry_data :: "heap \<Rightarrow> aesd_buffer_entry \<Rightarrow> byte list" where
  "entry_data h e = (case buffptr e of None \<Rightarrow> []
     | Some a \<Rightarrow> (case h a of None \<Rightarrow> [] | Some bs \<Rightarrow> take (entry_bytes e) bs))"

lemma length_entry_data: "slot_ok h e \<Longrightarrow> length (entry_data h e) = entry_bytes e"
  by (auto simp: slot_ok_def entry_data_def entry_bytes_def split: option.splits)

lemma read_found:
  assumes inv: "drv_inv m" and pd: "private_data filp = Some Aesd_device"
    and lock: "down_read_trylock K (sem (aesd_device m)) = (1, s1)"
    and find: "aesd_circular_buffer_find_entry_offset_for_fpos (ring (aesd_device m)) f_pos
      = Inr (b, Some (i, off))"
    and i: "i < 10" "off < ent_size (entry b ! i)"
    and same: "entry b = entry (ring (aesd_device m))"
  shows "aesd_read K m filp count f_pos =
    (let e = entry b ! i; retval = min count (ent_size e); data = entry_data (kheap m) e;
         left = copy_to_user K data (ent_size e) in
     Inr (m\<lparr>aesd_device := (aesd_device m)\<lparr>ring := b, sem := up_read K s1\<rparr>\<rparr>, f_pos + retval,
          take (entry_bytes e - unat left) data, if left \<noteq> 0 then - EFAULT else retval))"
proof -
  let ?e = "entry b ! i"
  have len: "length (entry b) = 10" using inv same by (simp add: drv_inv_def ring_wf_def)
  then have ok: "slot_ok (kheap m) ?e"
    using drv_inv_slot [OF inv, of ?e] i same by (metis nth_mem)
  have "0 < entry_bytes ?e" using i(2) by (simp add: entry_bytes_def word_less_nat_alt)
  then obtain a bs where a: "buffptr ?e = Some a" "kheap m a = Some bs"
    "entry_bytes ?e \<le> length bs" "NUL \<in> set bs"
    using slot_ok_nonempty [OF ok] by blast
  then have "pdebug_str (kheap m) (buffptr ?e) = Inr (cstring bs)"
    and "block_read (kheap m) (buffptr ?e) (entry_bytes ?e) = Inr (entry_data (kheap m) ?e)"
    by (simp_all add: pdebug_str_def block_read_def entry_data_def)
  with pd lock find len i show ?thesis
    by (simp add: aesd_read_def Let_def min_def)
qed

lemma find_in_range:
  assumes "ring_wf b0" "aesd_circular_buffer_find_entry_offset_for_fpos b0 c = Inr (b, Some (i, off))"
  shows "b = b0" "i < 10" "off < ent_size (entry b ! i)"
proof -
  obtain k r where l: "locate entry_bytes (scan b0) (unat c) = Some (k, r)"
    and b: "b = b0" "i = (unat (out_offs b0) + k) mod 10" "off = word_of_nat r"
    using assms by (auto simp: find_entry_wf split: option.splits)
  have k: "k < 10" "r < entry_bytes (scan b0 ! k)" and r: "r \<le> unat c"
    using l assms(1) by (simp_all add: locate_Some_iff)
  show "b = b0" "i < 10" using b by simp_all
  show "off < ent_size (entry b ! i)"
    using k b unat_word_of_nat_le [OF r] scan_nth [OF assms(1) k(1)]
    by (simp add: word_less_nat_alt entry_bytes_def)
qed

lemma read_no_fault:
  assumes inv: "drv_inv m" and pd: "private_data filp = Some Aesd_device"
  shows "\<exists>r. aesd_read K m filp count f_pos = Inr r"
proof -
  have wf: "ring_wf (ring (aesd_device m))" using inv by (simp add: drv_inv_def)
  obtain got s1 where lock: "down_read_trylock K (sem (aesd_device m)) = (got, s1)"
    by (cases "down_read_trylock K (sem (aesd_device m))")
  obtain b r where find: "aesd_circular_buffer_find_entry_offset_for_fpos (ring (aesd_device m)) f_pos
      = Inr (b, r)"
    using find_entry_wf [OF wf, of f_pos] by (metis prod.exhaust)
  show ?thesis
  proof (cases "got = 1 \<and> r \<noteq> None")
    case False
    then show ?thesis using pd lock find by (cases r) (auto simp: aesd_read_def Let_def)
  next
    case True
    then obtain i off where r: "r = Some (i, off)" by auto
    note range = find_in_range [OF wf find [unfolded r]]
    show ?thesis
      using read_found [OF inv pd _ find [unfolded r] range(2,3)] lock True range(1)
      by (auto simp: Let_def)
  qed
qed

end
