(* ===== verification/Driver_History.thy ===== *)
theory Driver_History
  imports Char_Driver
begin

text \<open>
  What the device promises its users: it holds the last ten complete lines written to it, and a
  client that reads from position zero until end of file gets their concatenation. The theory
  abstracts the driver's ring and heap to the list of lines, shows that the handlers implement
  the abstract operations, and states the behaviour of the branches on which they do not.
\<close>

section \<open>Abstraction\<close>

text \<open>
  The lines between \<open>out_offs\<close> and \<open>in_offs\<close>, oldest first. In a clean ring these are what reads deliver.
  The lookup scans all ten slots, though, so after the reset at end of file reads deliver the lines
  of the slots instead, which \<open>slot_lines\<close> lists.
\<close>

definition history :: "'sem module \<Rightarrow> byte list list" where
  "history m = map (entry_data (kheap m)) (live (ring (aesd_device m)))"

definition slot_lines :: "'sem module \<Rightarrow> byte list list" where
  "slot_lines m = map (entry_data (kheap m)) (entry (ring (aesd_device m)))"

text \<open>The partial line, empty when there is none.\<close>

definition partial_line :: "'sem module \<Rightarrow> byte list" where
  "partial_line m = (case temp_char_buffer (aesd_device m) of None \<Rightarrow> []
     | Some t \<Rightarrow> (case kheap m t of None \<Rightarrow> [] | Some bs \<Rightarrow> cstring bs))"

text \<open>Every allocated block is one the device still refers to.\<close>

definition no_leak :: "'sem module \<Rightarrow> bool" where
  "no_leak m \<longleftrightarrow> (\<forall>a. kheap m a \<noteq> None \<longrightarrow> a \<in> set (owned m))"

text \<open>
  The answers of the kernel under which a write goes through: the allocation succeeds, the copy
  is complete, the semaphore is free, and the block that receives the data holds a NUL (in the
  data or behind it), which the debug output and \<open>strstr\<close> rely on.
\<close>

definition write_granted ::
  "'sem kernel_api \<Rightarrow> 'sem module \<Rightarrow> kfile \<Rightarrow> byte list \<Rightarrow> u64 \<Rightarrow> addr \<Rightarrow> byte list \<Rightarrow> 'sem \<Rightarrow> bool"
where
  "write_granted K m filp buf count a junk s1 \<longleftrightarrow>
     kmalloc_ok K \<and> private_data filp = Some Aesd_device \<and>
     kmalloc K (kheap m) count = Some (a, junk) \<and> copy_from_user K buf count = 0 \<and>
     length buf = unat count \<and> NUL \<in> set (buf @ drop (length buf) junk) \<and>
     down_write_trylock K (sem (aesd_device m)) = (1, s1)"

text \<open>The block after the copy holds a newline before its NUL.\<close>

definition is_line :: "byte list \<Rightarrow> byte list \<Rightarrow> bool" where
  "is_line buf junk \<longleftrightarrow> newline \<in> set (cstring (buf @ drop (length buf) junk))"

section \<open>Runs of a client\<close>

text \<open>
  A client that reads with a buffer of \<open>count\<close> bytes until the device answers zero or an error,
  collecting the first \<open>ret\<close> bytes of its buffer after each call; \<open>None\<close> when the fuel is spent.
\<close>

fun read_all ::
  "nat \<Rightarrow> 'sem kernel_api \<Rightarrow> 'sem module \<Rightarrow> kfile \<Rightarrow> u64 \<Rightarrow> u64 \<Rightarrow> byte list \<Rightarrow>
     ('sem module \<times> byte list) option res" where
  "read_all 0 K m filp count pos out = Inr None"
| "read_all (Suc n) K m filp count pos out =
     bindE (aesd_read K m filp count pos) (\<lambda>(m', pos', bs, ret).
       if sint ret \<le> 0 then Inr (Some (m', out))
       else read_all n K m' filp count pos' (out @ take (unat ret) bs))"

text \<open>A sequence of granted writes of complete lines.\<close>

inductive writes_lines :: "'sem module \<Rightarrow> byte list list \<Rightarrow> 'sem module \<Rightarrow> bool" where
  no_line: "writes_lines m [] m"
| one_more: "writes_lines m ls m1 \<Longrightarrow> write_granted K m1 filp buf count a junk s1 \<Longrightarrow>
    is_line buf junk \<Longrightarrow> aesd_write K m1 filp buf count = Inr (m2, ret) \<Longrightarrow>
    writes_lines m (ls @ [buf]) m2"

text \<open>The answers of the kernel under which reads go through.\<close>

definition reads_granted :: "'sem kernel_api \<Rightarrow> bool" where
  "reads_granted K \<longleftrightarrow> (\<forall>s. fst (down_read_trylock K s) = 1) \<and> (\<forall>bs n. copy_to_user K bs n = 0)"

section \<open>A concrete kernel\<close>

text \<open>
  An allocator over twenty addresses that zeroes its blocks and gives one byte more than asked
  for, complete copies, and a semaphore without contention.
\<close>

definition sample_kernel :: "unit kernel_api" where
  "sample_kernel = \<lparr>
     kmalloc = (\<lambda>h n. map_option (\<lambda>a. (a, replicate (Suc (unat n)) NUL))
       (List.find (\<lambda>a. h a = None) [0..<20])),
     copy_from_user = (\<lambda>_ _. 0), copy_to_user = (\<lambda>_ _. 0),
     down_read_trylock = (\<lambda>s. (1, s)), up_read = (\<lambda>s. s),
     down_write_trylock = (\<lambda>s. (1, s)), up_write = (\<lambda>s. s), init_rwsem = (),
     alloc_chrdev_region = (\<lambda>mi. (0, or (push_bit 20 250) mi)), cdev_add = (\<lambda>_. 0)\<rparr>"

definition sample_module :: "unit module" where
  "sample_module = \<lparr>aesd_major = 0, aesd_minor = 0, aesd_device = fresh_device sample_kernel,
     kheap = (\<lambda>_. None), regions = [], cdevs = []\<rparr>"

definition sample_loaded :: "unit module" where
  "sample_loaded = fst (aesd_init_module sample_kernel sample_module)"

definition sample_file :: kfile where
  "sample_file = \<lparr>private_data = Some Aesd_device\<rparr>"

text \<open>The bytes of the text \<open>hi\<close> and a newline.\<close>

definition sample_line :: "byte list" where
  "sample_line = [104, 105, 10]"

text \<open>The loaded device after a partial write of \<open>hi\<close>.\<close>

definition sample_partial :: "unit module" where
  "sample_partial = (case aesd_write sample_kernel sample_loaded sample_file [104, 105] 2 of
     Inr (m, _) \<Rightarrow> m | Inl _ \<Rightarrow> sample_loaded)"

text \<open>The loaded device with one line.\<close>

definition sample_one :: "unit module" where
  "sample_one = (case aesd_write sample_kernel sample_loaded sample_file sample_line 3 of
     Inr (m, _) \<Rightarrow> m | Inl _ \<Rightarrow> sample_loaded)"

text \<open>The loaded device with two lines, and the same after a read at the end of file.\<close>

definition sample_line2 :: "byte list" where
  "sample_line2 = [111, 107, 10]"

definition sample_two :: "unit module" where
  "sample_two = (case bindE (aesd_write sample_kernel sample_loaded sample_file sample_line 3)
       (\<lambda>(m, _). aesd_write sample_kernel m sample_file sample_line2 3) of
     Inr (m, _) \<Rightarrow> m | Inl _ \<Rightarrow> sample_loaded)"

definition sample_eof :: "unit module" where
  "sample_eof = (case aesd_read sample_kernel sample_two sample_file 10 6 of
     Inr (m, _) \<Rightarrow> m | Inl _ \<Rightarrow> sample_two)"

section \<open>A write of a complete line\<close>

lemma entry_data_upd:
  "buffptr e \<noteq> Some a \<Longrightarrow> entry_data (h(a := v)) e = entry_data h e"
  by (auto simp: entry_data_def split: option.splits)

lemma live_subset: "ring_wf b \<Longrightarrow> set (live b) \<subseteq> set (entry b)"
  by (auto simp: live_def scan_def dest: in_set_takeD)

lemma map_lastn: "map f (lastn n xs) = lastn n (map f xs)"
  by (simp add: lastn_def drop_map)

text \<open>A complete line, whatever the state of the ring: the exact state after the write.\<close>

lemma write_line_exact:
  assumes inv: "drv_inv m"
    and g: "write_granted K m filp buf count a junk s1" and line: "is_line buf junk"
    and add: "aesd_circular_buffer_add_entry (ring (aesd_device m))
      \<lparr>buffptr = Some a, ent_size = count\<rparr> = Inr (b, out)"
  defines "h \<equiv> (kheap m)(a \<mapsto> buf @ drop (length buf) junk)"
  defines "m' \<equiv> m\<lparr>kheap := (case buffptr out of None \<Rightarrow> h | Some p \<Rightarrow> h(p := None)),
      aesd_device := (aesd_device m)\<lparr>ring := b, sem := up_write K s1\<rparr>\<rparr>"
  shows "aesd_write K m filp buf count = Inr (m', count)" "drv_inv m'"
    "kheap m a = None" "a \<notin> set (owned m)"
proof -
  let ?blk = "buf @ drop (length buf) junk" and ?d = "aesd_device m"
  let ?m1 = "m\<lparr>kheap := h, aesd_device := ?d\<lparr>sem := s1\<rparr>\<rparr>"
  have pd: "private_data filp = Some Aesd_device" and ok: "kmalloc_ok K"
    and alloc: "kmalloc K (kheap m) count = Some (a, junk)" and cp: "copy_from_user K buf count = 0"
    and cnt: "length buf = unat count" and nul: "NUL \<in> set ?blk"
    and lock: "down_write_trylock K (sem ?d) = (1, s1)"
    using g unfolding write_granted_def by blast+
  have fresh: "kheap m a = None" and len: "unat count \<le> length junk"
    using ok alloc by (simp_all add: kmalloc_ok_def)
  have inv1: "drv_inv ?m1" and new: "a \<notin> set (owned m)"
    using drv_inv_alloc [OF inv fresh] by (simp_all add: h_def)
  then show "kheap m a = None" "a \<notin> set (owned m)" using fresh by simp_all
  have blk: "kheap ?m1 a = Some ?blk" by (simp add: h_def)
  have new1: "a \<notin> set (owned ?m1)" using new by (simp add: owned_def)
  have cntb: "unat count \<le> length ?blk" using cnt by simp
  have add1: "aesd_circular_buffer_add_entry (ring (aesd_device ?m1))
      \<lparr>buffptr = Some a, ent_size = count\<rparr> = Inr (b, out)" using add by simp
  note li = add_line_inv [OF inv1 blk nul cntb new1 add1]
  have "aesd_write_locked K ?m1 a count =
      Inr (m\<lparr>kheap := (case buffptr out of None \<Rightarrow> h | Some p \<Rightarrow> h(p := None)),
             aesd_device := ?d\<lparr>ring := b, sem := s1\<rparr>\<rparr>)"
    using write_locked_line [OF inv1 blk nul _ add1 li(2), of K] line
    by (cases "buffptr out") (simp_all add: is_line_def)
  then show "aesd_write K m filp buf count = Inr (m', count)"
    using write_unfold [OF pd alloc len cp cnt nul] lock by (simp add: h_def m'_def)
  show "drv_inv m'"
    using li(1) by (cases "buffptr out") (simp_all add: m'_def drv_inv_def owned_def)
qed

lemma clean_next_slot:
  assumes "ring_clean b" "\<not> full b"
  shows "entry b ! unat (in_offs b) = zero_entry"
proof -
  have wf: "ring_wf b" using assms(1) by (rule ring_clean_wf)
  have n: "live_count b < 10" by (rule live_count_less [OF assms(2)])
  have "entry b ! unat (in_offs b) = scan b ! live_count b"
    using scan_nth [OF wf n] in_offs_pos [OF wf assms(2)] by simp
  also have "\<dots> = zero_entry"
    using n wf by (subst scan_clean [OF assms(1)]) (simp add: nth_append)
  finally show ?thesis .
qed

lemma write_line_history:
  assumes inv: "drv_inv m" and clean: "ring_clean (ring (aesd_device m))"
    and g: "write_granted K m filp buf count a junk s1" and line: "is_line buf junk"
    and res: "aesd_write K m filp buf count = Inr (m', ret)"
  shows "ret = count" "drv_inv m'" "ring_clean (ring (aesd_device m'))"
    "history m' = lastn 10 (history m @ [buf])" "sem (aesd_device m') = up_write K s1"
proof -
  let ?e = "\<lparr>buffptr = Some a, ent_size = count\<rparr>" and ?blk = "buf @ drop (length buf) junk"
  have wf: "ring_wf (ring (aesd_device m))" using clean by (rule ring_clean_wf)
  obtain b where add: "aesd_circular_buffer_add_entry (ring (aesd_device m)) ?e = Inr (b,
      if length (live (ring (aesd_device m))) < ENTRY_SIZE then zero_entry
      else hd (live (ring (aesd_device m))))" (is "_ = Inr (b, ?out)")
    and b: "ring_clean b" "live b = lastn ENTRY_SIZE (live (ring (aesd_device m)) @ [?e])"
    using ring.add_cases [OF clean] by metis
  note exact = write_line_exact [OF inv g line add]
  let ?h = "(kheap m)(a \<mapsto> ?blk)"
  let ?h2 = "case buffptr ?out of None \<Rightarrow> ?h | Some p \<Rightarrow> ?h(p := None)"
  have m': "m' = m\<lparr>kheap := ?h2, aesd_device := (aesd_device m)\<lparr>ring := b, sem := up_write K s1\<rparr>\<rparr>"
    and "ret = count"
    using res exact(1) by auto
  show "ret = count" by fact
  show inv': "drv_inv m'" using exact(2) m' by simp
  show "ring_clean (ring (aesd_device m'))" "sem (aesd_device m') = up_write K s1"
    using b m' by simp_all
  define g where "g x = (if buffptr x = Some a then buf else entry_data (kheap m) x)" for x
  have data: "entry_data ?h2 x = g x" if "x \<in> set (live b)" for x
  proof -
    have ok: "slot_ok ?h2 x"
      using that live_subset [OF ring_clean_wf [OF b(1)]] drv_inv_slot [OF inv', of x] m' by auto
    then have "entry_data ?h2 x = entry_data ?h x"
      by (auto simp: slot_ok_def entry_data_def split: option.splits if_splits)
    moreover have "entry_data ?h x = g x"
    proof (cases "buffptr x = Some a")
      case True
      have "x \<notin> set (live (ring (aesd_device m)))"
        using True exact(4) live_subset [OF wf] by (auto simp: owned_def in_entry_ptrs)
      then have "x = ?e" using that b(2) by (auto simp: lastn_def dest: in_set_dropD)
      moreover have "length buf = unat count" using g by (simp add: write_granted_def)
      ultimately show ?thesis by (simp add: entry_data_def g_def entry_bytes_def)
    next
      case False
      then show ?thesis by (simp add: entry_data_upd g_def)
    qed
    ultimately show ?thesis by simp
  qed
  have old: "map g (live (ring (aesd_device m))) = history m"
    using exact(4) live_subset [OF wf] by (auto simp: history_def g_def owned_def in_entry_ptrs)
  have "history m' = map g (live b)" using data m' by (simp add: history_def)
  also have "\<dots> = lastn 10 (history m @ [buf])"
    using b(2) old by (simp add: map_lastn) (simp add: g_def)
  finally show "history m' = lastn 10 (history m @ [buf])" .
qed

section \<open>Memory of a line write\<close>

lemma set_entry_ptrs_update:
  assumes "i < length es" "distinct (entry_ptrs es)"
  shows "set (entry_ptrs (es[i := e])) =
    (set (entry_ptrs es) - set (ptr_list (buffptr (es ! i)))) \<union> set (ptr_list (buffptr e))"
proof -
  obtain xs x ys where es: "es = xs @ x # ys" "es ! i = x" "es[i := e] = xs @ e # ys"
    using entry_split [OF assms(1)] by metis
  show ?thesis using assms(2) unfolding es(3) es(2) unfolding es(1) by auto
qed

text \<open>A line write hands over or frees every block: in a clean ring nothing is leaked.\<close>

lemma write_line_no_leak:
  assumes inv: "drv_inv m" and clean: "ring_clean (ring (aesd_device m))"
    and g: "write_granted K m filp buf count a junk s1" and line: "is_line buf junk"
    and res: "aesd_write K m filp buf count = Inr (m', ret)" and "no_leak m"
  shows "no_leak m'"
proof -
  let ?r = "ring (aesd_device m)" and ?e = "\<lparr>buffptr = Some a, ent_size = count\<rparr>"
  have wf: "ring_wf ?r" using clean by (rule ring_clean_wf)
  obtain b out where add: "aesd_circular_buffer_add_entry ?r ?e = Inr (b, out)"
    using add_entry_total [OF wf] by blast
  note slots = add_entry_slots [OF wf add]
  have out: "out = entry ?r ! unat (in_offs ?r)"
    using slots(2) clean_next_slot [OF clean] by simp
  have dist: "distinct (entry_ptrs (entry ?r))" using inv by (simp add: drv_inv_def owned_def)
  note exact = write_line_exact [OF inv g line add]
  have m': "m' = m\<lparr>kheap := (case buffptr out of None \<Rightarrow> (kheap m)(a \<mapsto> buf @ drop (length buf) junk)
        | Some p \<Rightarrow> (kheap m)(a \<mapsto> buf @ drop (length buf) junk, p := None)),
      aesd_device := (aesd_device m)\<lparr>ring := b, sem := up_write K s1\<rparr>\<rparr>"
    using res exact(1) by simp
  have ptrs: "set (entry_ptrs (entry b)) = (set (entry_ptrs (entry ?r)) - set (ptr_list (buffptr out))) \<union> {a}"
    using set_entry_ptrs_update [OF slots(3) dist, of ?e] slots(1) out by simp
  show ?thesis
    using \<open>no_leak m\<close> m' ptrs
    by (cases "buffptr out") (auto simp: no_leak_def owned_def)
qed

section \<open>Reading\<close>

lemma read_at_entry:
  assumes inv: "drv_inv m" and clean: "ring_clean (ring (aesd_device m))"
    and pd: "private_data filp = Some Aesd_device"
    and lock: "down_read_trylock K (sem (aesd_device m)) = (1, s1)"
    and loc: "locate entry_bytes (live (ring (aesd_device m))) (unat f_pos) = Some (k, r)"
    and copy: "copy_to_user K (history m ! k) (ent_size (live (ring (aesd_device m)) ! k)) = 0"
  shows "aesd_read K m filp count f_pos =
    (let retval = min count (ent_size (live (ring (aesd_device m)) ! k)) in
     Inr (m\<lparr>aesd_device := (aesd_device m)\<lparr>sem := up_read K s1\<rparr>\<rparr>, f_pos + retval, history m ! k, retval))"
proof -
  let ?b = "ring (aesd_device m)"
  have wf: "ring_wf ?b" using clean by (rule ring_clean_wf)
  have k: "k < length (live ?b)" using loc by (simp add: locate_Some_iff)
  obtain i off where find: "aesd_circular_buffer_find_entry_offset_for_fpos ?b f_pos
      = Inr (?b, Some (i, off))" and e: "entry ?b ! i = live ?b ! k"
    using lookup_entry_clean(1) [OF clean loc] by (auto simp: lookup_entry_def bindE_eq_Inr)
  note range = find_in_range [OF wf find]
  have "slot_ok (kheap m) (live ?b ! k)"
    using drv_inv_slot [OF inv] live_subset [OF wf] k by (meson nth_mem subsetD)
  then have "length (entry_data (kheap m) (live ?b ! k)) = entry_bytes (live ?b ! k)"
    by (rule length_entry_data)
  with read_found [OF inv pd lock find range(2,3) refl, of count] e copy k show ?thesis
    by (simp add: history_def Let_def)
qed

text \<open>Slot zero is the first the lookup visits when \<open>out_offs\<close> is zero: reads go through the slots in order.\<close>

lemma read_at_slot:
  assumes inv: "drv_inv m" and pd: "private_data filp = Some Aesd_device" and K: "reads_granted K"
    and out: "out_offs (ring (aesd_device m)) = 0"
    and k: "k < 10" "r < length (slot_lines m ! k)"
    and pos: "unat f_pos = length (concat (take k (slot_lines m))) + r"
  shows "\<exists>m' ret. aesd_read K m filp count f_pos = Inr (m', f_pos + ret, slot_lines m ! k, ret) \<and>
     unat ret = min (unat count) (length (slot_lines m ! k))"
proof -
  let ?b = "ring (aesd_device m)" and ?e = "entry (ring (aesd_device m)) ! k"
  have wf: "ring_wf ?b" using inv by (simp add: drv_inv_def)
  then have len: "length (entry ?b) = 10" by (simp add: ring_wf_def)
  obtain s1 where lock: "down_read_trylock K (sem (aesd_device m)) = (1, s1)"
    using K unfolding reads_granted_def by (metis prod.collapse)
  have size: "length (entry_data (kheap m) e) = entry_bytes e" if "e \<in> set (entry ?b)" for e
    using that drv_inv_slot [OF inv] length_entry_data by blast
  then have sizes: "map (length \<circ> entry_data (kheap m)) (take k (entry ?b)) = map entry_bytes (take k (entry ?b))"
    by (auto dest: in_set_takeD)
  have line: "slot_lines m ! k = entry_data (kheap m) ?e" "length (entry_data (kheap m) ?e) = entry_bytes ?e"
    using k(1) len size by (simp_all add: slot_lines_def)
  have "length (concat (take k (slot_lines m))) = span entry_bytes (take k (entry ?b))"
    unfolding span_def sizes [symmetric] by (simp add: slot_lines_def length_concat take_map)
  then have "locate entry_bytes (scan ?b) (unat f_pos) = Some (k, r)"
    using k pos line len out by (simp add: locate_Some_iff scan_def)
  then have find: "aesd_circular_buffer_find_entry_offset_for_fpos ?b f_pos = Inr (?b, Some (k, word_of_nat r))"
    using find_entry_wf [OF wf, of f_pos] out k(1) by simp
  note range = find_in_range [OF wf find]
  have "unat (min count (ent_size ?e)) = min (unat count) (entry_bytes ?e)"
    by (simp add: min_def word_le_nat_alt entry_bytes_def)
  then show ?thesis using read_found [OF inv pd lock find range(2,3) refl, of count] K line
    by (simp add: reads_granted_def Let_def)
qed

lemma read_at_end:
  assumes clean: "ring_clean (ring (aesd_device m))"
    and pd: "private_data filp = Some Aesd_device"
    and lock: "down_read_trylock K (sem (aesd_device m)) = (1, s1)"
    and loc: "locate entry_bytes (live (ring (aesd_device m))) (unat f_pos) = None"
  shows "\<exists>m'. aesd_read K m filp count f_pos = Inr (m', f_pos, [], 0)"
proof -
  obtain b where "aesd_circular_buffer_find_entry_offset_for_fpos (ring (aesd_device m)) f_pos
      = Inr (b, None)"
    using lookup_entry_clean(2) [OF clean loc] by (auto simp: lookup_entry_def bindE_eq_Inr)
  then show ?thesis using pd lock by (simp add: aesd_read_def)
qed

lemma history_sem [simp]:
  "history (m\<lparr>aesd_device := (aesd_device m)\<lparr>sem := s\<rparr>\<rparr>) = history m"
  by (simp add: history_def)

lemma partial_line_sem [simp]:
  "partial_line (m\<lparr>aesd_device := (aesd_device m)\<lparr>sem := s\<rparr>\<rparr>) = partial_line m"
  by (simp add: partial_line_def split: option.split)

lemma length_history [simp]: "length (history m) = length (live (ring (aesd_device m)))"
  by (simp add: history_def)

lemma history_sizes:
  assumes "drv_inv m"
  shows "j < length (history m) \<Longrightarrow>
      length (history m ! j) = entry_bytes (live (ring (aesd_device m)) ! j)"
    and "length (concat (take j (history m))) = span entry_bytes (take j (live (ring (aesd_device m))))"
proof -
  let ?es = "live (ring (aesd_device m))"
  have "ring_wf (ring (aesd_device m))" using assms by (simp add: drv_inv_def)
  then have ok: "length (entry_data (kheap m) e) = entry_bytes e" if "e \<in> set ?es" for e
    using that drv_inv_slot [OF assms] live_subset length_entry_data by blast
  then show "length (history m ! j) = entry_bytes (?es ! j)" if "j < length (history m)"
    using that by (simp add: history_def)
  have "map (length \<circ> entry_data (kheap m)) (take j ?es) = map entry_bytes (take j ?es)"
    using ok by (auto dest: in_set_takeD)
  then show "length (concat (take j (history m))) = span entry_bytes (take j ?es)"
    by (simp only: history_def length_concat span_def take_map map_map)
qed

text \<open>A reader that stands at the start of the \<open>k\<close>-th line gets the remaining lines.\<close>

lemma read_all_from:
  assumes "drv_inv m" "ring_clean (ring (aesd_device m))"
    and pd: "private_data filp = Some Aesd_device" and K: "reads_granted K"
    and small: "\<forall>l \<in> set (history m). l \<noteq> [] \<and> length l \<le> unat count" "unat count < 2 ^ 63"
    and total: "length (concat (history m)) < 2 ^ 64"
    and pos: "k \<le> length (history m)" "unat pos = length (concat (take k (history m)))"
    and fuel: "length (history m) - k < fuel"
  shows "\<exists>m'. read_all fuel K m filp count pos out = Inr (Some (m', out @ concat (drop k (history m))))"
  using assms
proof (induction fuel arbitrary: m k pos out)
  case 0
  then show ?case by simp
next
  case (Suc fuel)
  let ?b = "ring (aesd_device m)" and ?es = "live (ring (aesd_device m))"
  note sizes = history_sizes(1) [OF Suc.prems(1)] and span = history_sizes(2) [OF Suc.prems(1)]
  obtain s1 where lock: "down_read_trylock K (sem (aesd_device m)) = (1, s1)"
    using K unfolding reads_granted_def by (metis prod.collapse)
  show ?case
  proof (cases "k < length ?es")
    case False
    then have k: "k = length ?es" using Suc.prems(8) by simp
    then have "locate entry_bytes ?es (unat pos) = None"
      using span [of k] Suc.prems(9) by (simp add: locate_None_iff)
    then obtain m' where "aesd_read K m filp count pos = Inr (m', pos, [], 0)"
      using read_at_end [OF Suc.prems(2) pd lock] by blast
    then show ?thesis using k by simp
  next
    case True
    let ?l = "history m ! k" and ?sz = "ent_size (?es ! k)"
    have l: "?l \<noteq> []" "length ?l \<le> unat count" using Suc.prems(5) True by simp_all
    have sz: "unat ?sz = length ?l" using sizes [of k] True by (simp add: entry_bytes_def)
    then have ret: "min count ?sz = ?sz" using l(2) by (simp add: min_absorb2 word_le_nat_alt)
    have "locate entry_bytes ?es (unat pos) = Some (k, 0)"
      using True span [of k] Suc.prems(9) sizes [of k] l(1)
      by (simp add: locate_Some_iff length_greater_0_conv [symmetric] del: length_greater_0_conv)
    then have read: "aesd_read K m filp count pos =
        Inr (m\<lparr>aesd_device := (aesd_device m)\<lparr>sem := up_read K s1\<rparr>\<rparr>, pos + ?sz, ?l, ?sz)"
      using read_at_entry [OF Suc.prems(1,2) pd lock] K ret by (simp add: reads_granted_def Let_def)
    have "0 < sint ?sz" using sz l Suc.prems(6) by (simp add: sint_small)
    then have step: "read_all (Suc fuel) K m filp count pos out =
        read_all fuel K (m\<lparr>aesd_device := (aesd_device m)\<lparr>sem := up_read K s1\<rparr>\<rparr>) filp count
          (pos + ?sz) (out @ ?l)"
      using read sz by simp
    have next_pos: "length (concat (take (Suc k) (history m))) = unat pos + unat ?sz"
      using True Suc.prems(9) sz by (simp add: take_Suc_conv_app_nth)
    have "length (concat (take (Suc k) (history m))) \<le> length (concat (history m))"
      by (metis append_take_drop_id concat_append length_append le_add1)
    then have "unat (pos + ?sz) = length (concat (take (Suc k) (history m)))"
      using Suc.prems(7) next_pos by (simp add: unat_word_ariths)
    then have "\<exists>m'. read_all fuel K (m\<lparr>aesd_device := (aesd_device m)\<lparr>sem := up_read K s1\<rparr>\<rparr>) filp
        count (pos + ?sz) (out @ ?l) = Inr (Some (m', (out @ ?l) @ concat (drop (Suc k) (history m))))"
      using Suc.IH [of "m\<lparr>aesd_device := (aesd_device m)\<lparr>sem := up_read K s1\<rparr>\<rparr>" "Suc k" "pos + ?sz"
          "out @ ?l"]
        Suc.prems True by simp
    then show ?thesis
      using step True by (simp add: Cons_nth_drop_Suc [symmetric, of k "history m"])
  qed
qed

section \<open>The concrete kernel meets the hypotheses\<close>

lemma sample_kmalloc_ok: "kmalloc_ok sample_kernel"
  by (auto simp: kmalloc_ok_def sample_kernel_def find_Some_iff)

lemma sample_load: "aesd_init_module sample_kernel sample_module = (sample_loaded, 0)"
proof -
  have "snd (aesd_init_module sample_kernel sample_module) = 0" by code_simp
  then show ?thesis by (simp add: sample_loaded_def prod_eq_iff)
qed

lemma sample_inv: "drv_inv sample_loaded"
  by (rule init_inv [OF sample_load])

lemma sample_clean: "ring_clean (ring (aesd_device sample_loaded))"
  by code_simp

lemma sample_reads_granted: "reads_granted sample_kernel"
  by (simp add: reads_granted_def sample_kernel_def)

lemma sample_write_granted:
  "write_granted sample_kernel sample_loaded sample_file sample_line 3 0 (replicate 4 NUL) ()"
proof -
  have "kmalloc sample_kernel (kheap sample_loaded) 3 = Some (0, replicate 4 NUL)" by code_simp
  then show ?thesis
    by (simp add: write_granted_def sample_kmalloc_ok sample_file_def sample_line_def)
      (simp add: sample_kernel_def)
qed

lemma sample_is_line: "is_line sample_line (replicate 4 NUL)"
  by code_simp

lemma sample_history: "history sample_loaded = []"
  by code_simp

lemma sample_no_leak: "no_leak sample_loaded"
  by (simp add: no_leak_def sample_loaded_def aesd_init_module_def aesd_setup_cdev_def
      sample_kernel_def sample_module_def Let_def)

section \<open>Properties\<close>

lemma write_line_ex:
  assumes "drv_inv m" "ring_clean (ring (aesd_device m))"
    and "write_granted K m filp buf count a junk s1" "is_line buf junk"
  shows "\<exists>m'. aesd_write K m filp buf count = Inr (m', count)"
proof -
  obtain b out where "aesd_circular_buffer_add_entry (ring (aesd_device m))
      \<lparr>buffptr = Some a, ent_size = count\<rparr> = Inr (b, out)"
    using add_entry_total [OF ring_clean_wf [OF assms(2)]] by blast
  from write_line_exact(1) [OF assms(1,3,4) this] show ?thesis by blast
qed

text \<open>
  (C12) Writing a complete line: from a sound state with a clean ring, a granted write whose block
  holds a newline succeeds and returns the byte count; the device then holds the last ten of its
  former lines and the new one, the state is sound and clean again, the semaphore has been
  released, and no block is leaked.
\<close>

theorem write_line_appends:
  assumes "drv_inv m" "ring_clean (ring (aesd_device m))" "no_leak m"
    and "write_granted K m filp buf count a junk s1" "is_line buf junk"
  shows "\<exists>m'. aesd_write K m filp buf count = Inr (m', count) \<and> drv_inv m' \<and>
     ring_clean (ring (aesd_device m')) \<and> no_leak m' \<and>
     history m' = lastn 10 (history m @ [buf]) \<and> sem (aesd_device m') = up_write K s1"
proof -
  obtain m' where w: "aesd_write K m filp buf count = Inr (m', count)"
    using write_line_ex [OF assms(1,2,4,5)] by blast
  from write_line_history [OF assms(1,2,4,5) w] write_line_no_leak [OF assms(1,2,4,5) w assms(3)] w
  show ?thesis by blast
qed

theorem write_line_appends_witness:
  "\<exists>m'. aesd_write sample_kernel sample_loaded sample_file sample_line 3 = Inr (m', 3) \<and> drv_inv m' \<and>
     ring_clean (ring (aesd_device m')) \<and> no_leak m' \<and>
     history m' = lastn 10 (history sample_loaded @ [sample_line]) \<and>
     sem (aesd_device m') = up_write sample_kernel ()"
  by (rule write_line_appends [OF sample_inv sample_clean sample_no_leak sample_write_granted sample_is_line])

lemma writes_lines_history:
  assumes "writes_lines m ls m'" "drv_inv m" "ring_clean (ring (aesd_device m))" "history m = []"
  shows "drv_inv m' \<and> ring_clean (ring (aesd_device m')) \<and> history m' = lastn 10 ls"
  using assms
proof (induction rule: writes_lines.induct)
  case (no_line m)
  then show ?case by simp
next
  case (one_more m ls m1 K filp buf count a junk s1 m2 ret)
  then have IH: "drv_inv m1" "ring_clean (ring (aesd_device m1))" "history m1 = lastn 10 ls"
    by simp_all
  from write_line_history [OF IH(1,2) one_more.hyps(2-4)] IH(3) show ?case
    by (simp add: lastn_lastn_append)
qed

lemma load_fresh:
  assumes "aesd_init_module K m0 = (m, 0)"
  shows "drv_inv m" "ring_clean (ring (aesd_device m))" "history m = []"
proof -
  show "drv_inv m" using assms by (rule init_inv)
  have "ring (aesd_device m) = aesd_circular_buffer_init"
    using assms
    by (auto simp: aesd_init_module_def aesd_setup_cdev_def fresh_device_def Let_def
        split: prod.splits if_splits)
  then show "ring_clean (ring (aesd_device m))" "history m = []"
    by (simp_all add: ring_clean_init history_def)
qed

text \<open>
  (C1) Round trip through the device: after a load and any sequence of writes of complete lines,
  a client that reads from position zero with a buffer no smaller than the lines, until the
  device answers zero, collects exactly the concatenation of the last ten lines. Eleven reads
  are enough.
\<close>

theorem reader_gets_last_ten_lines:
  assumes "aesd_init_module K0 m0 = (m, 0)" and "writes_lines m ls m'"
    and "reads_granted K" and "private_data filp = Some Aesd_device"
    and "\<forall>l \<in> set ls. l \<noteq> [] \<and> length l \<le> unat count" and "unat count < 2 ^ 63"
    and "length (concat (lastn 10 ls)) < 2 ^ 64"
  shows "\<exists>m''. read_all 11 K m' filp count 0 [] = Inr (Some (m'', concat (lastn 10 ls)))"
proof -
  have m': "drv_inv m'" "ring_clean (ring (aesd_device m'))" "history m' = lastn 10 ls"
    using writes_lines_history [OF assms(2) load_fresh [OF assms(1)]] by simp_all
  have "\<forall>l \<in> set (history m'). l \<noteq> [] \<and> length l \<le> unat count"
    using assms(5) m'(3) by (auto simp: lastn_def dest: in_set_dropD)
  moreover have "length (history m') - 0 < 11" by (simp only: m'(3) length_lastn)
  ultimately show ?thesis
    using read_all_from [OF m'(1,2) assms(4,3) _ assms(6), of 0 0 11 "[]"] m'(3) assms(7) by simp
qed

theorem reader_gets_last_ten_lines_witness:
  "\<exists>m' m''. writes_lines sample_loaded [sample_line] m' \<and>
     read_all 11 sample_kernel m' sample_file 4096 0 [] = Inr (Some (m'', sample_line))"
proof -
  obtain m' where w: "aesd_write sample_kernel sample_loaded sample_file sample_line 3 = Inr (m', 3)"
    using write_line_ex [OF sample_inv sample_clean sample_write_granted sample_is_line] by blast
  have run: "writes_lines sample_loaded [sample_line] m'"
    using writes_lines.one_more [OF writes_lines.no_line sample_write_granted sample_is_line w] by simp
  have "\<exists>m''. read_all 11 sample_kernel m' sample_file 4096 0 [] =
      Inr (Some (m'', concat (lastn 10 [sample_line])))"
    by (rule reader_gets_last_ten_lines [OF sample_load run sample_reads_granted])
      (simp_all add: sample_file_def sample_line_def)
  then show ?thesis using run by auto
qed

text \<open>
  (C15) No dangling pointers: in every state the module can reach, the pointers held by the ten
  slots and by the partial line are pairwise different and all refer to allocated blocks, and a
  read of any size at any position runs without undefined behaviour.
\<close>

theorem reachable_reads_are_safe:
  assumes "reachable m" "private_data filp = Some Aesd_device"
  shows "distinct (owned m) \<and> (\<forall>a \<in> set (owned m). kheap m a \<noteq> None) \<and>
     (\<exists>r. aesd_read K m filp count f_pos = Inr r)"
proof -
  have inv: "drv_inv m" using assms(1) by (rule reachable_inv)
  show ?thesis
    using inv owned_allocated [OF inv] read_no_fault [OF inv assms(2)] by (auto simp: drv_inv_def)
qed

theorem reachable_reads_are_safe_witness:
  "\<exists>m'. aesd_write sample_kernel sample_loaded sample_file sample_line 3 = Inr (m', 3) \<and>
     distinct (owned m') \<and> (\<forall>a \<in> set (owned m'). kheap m' a \<noteq> None) \<and>
     (\<exists>r. aesd_read sample_kernel m' sample_file 2 1 = Inr r)"
proof -
  obtain m' where w: "aesd_write sample_kernel sample_loaded sample_file sample_line 3 = Inr (m', 3)"
    using write_line_ex [OF sample_inv sample_clean sample_write_granted sample_is_line] by blast
  have "reachable m'"
    using reachable.dev_write [OF reachable.dev_load [OF sample_load] sample_kmalloc_ok _ w]
    by (simp add: sample_line_def)
  then show ?thesis
    using w reachable_reads_are_safe [of m' sample_file sample_kernel 2 1] by (simp add: sample_file_def)
qed

text \<open>
  (C29) What a read delivers: at byte \<open>r\<close> of the \<open>k\<close>-th line, a granted read stores the whole line
  from its first byte into the user's buffer, whatever \<open>r\<close> and whatever the size of the buffer,
  returns the smaller of the buffer size and the line length, and advances the position by the
  returned value.
\<close>

theorem read_delivers_whole_line:
  assumes inv: "drv_inv m" "ring_clean (ring (aesd_device m))"
    and pd: "private_data filp = Some Aesd_device" and K: "reads_granted K"
    and k: "k < length (history m)" "r < length (history m ! k)"
    and pos: "unat f_pos = length (concat (take k (history m))) + r"
  shows "\<exists>m' ret. aesd_read K m filp count f_pos = Inr (m', f_pos + ret, history m ! k, ret) \<and>
     unat ret = min (unat count) (length (history m ! k)) \<and> history m' = history m"
proof -
  let ?es = "live (ring (aesd_device m))"
  note sizes = history_sizes [OF inv(1)]
  obtain s1 where lock: "down_read_trylock K (sem (aesd_device m)) = (1, s1)"
    using K unfolding reads_granted_def by (metis prod.collapse)
  have loc: "locate entry_bytes ?es (unat f_pos) = Some (k, r)"
    using k pos sizes(1) [of k] sizes(2) [of k] by (simp add: locate_Some_iff)
  have sz: "unat (ent_size (?es ! k)) = length (history m ! k)"
    using sizes(1) [of k] k by (simp add: entry_bytes_def)
  have "unat (min count (ent_size (?es ! k))) = min (unat count) (length (history m ! k))"
    using sz by (simp add: min_def word_le_nat_alt)
  then show ?thesis
    using read_at_entry [OF inv pd lock loc, of count] K by (simp add: reads_granted_def Let_def)
qed

text \<open>A loaded device that holds one line.\<close>

lemma sample_one_line:
  obtains m' where "aesd_write sample_kernel sample_loaded sample_file sample_line 3 = Inr (m', 3)"
    "drv_inv m'" "ring_clean (ring (aesd_device m'))" "history m' = [sample_line]"
proof -
  obtain m' where w: "aesd_write sample_kernel sample_loaded sample_file sample_line 3 = Inr (m', 3)"
    using write_line_ex [OF sample_inv sample_clean sample_write_granted sample_is_line] by blast
  from write_line_history [OF sample_inv sample_clean sample_write_granted sample_is_line w] w that
  show ?thesis by (simp add: sample_history)
qed

theorem read_delivers_whole_line_witness:
  "\<exists>m m' ret. history m = [sample_line] \<and>
     aesd_read sample_kernel m sample_file 1 2 = Inr (m', 2 + ret, sample_line, ret) \<and>
     unat ret = 1 \<and> length sample_line = 3"
proof -
  obtain m where "aesd_write sample_kernel sample_loaded sample_file sample_line 3 = Inr (m, 3)"
    and m: "drv_inv m" "ring_clean (ring (aesd_device m))" "history m = [sample_line]"
    by (rule sample_one_line)
  have len: "length sample_line = 3" by (simp add: sample_line_def)
  have "\<exists>m' ret. aesd_read sample_kernel m sample_file 1 2 = Inr (m', 2 + ret, history m ! 0, ret) \<and>
      unat ret = min (unat (1 :: u64)) (length (history m ! 0)) \<and> history m' = history m"
    by (rule read_delivers_whole_line [OF m(1,2) _ sample_reads_granted, where r = 2])
      (simp_all add: m(3) len sample_file_def del: length_history)
  then obtain m' ret where "aesd_read sample_kernel m sample_file 1 2 = Inr (m', 2 + ret, sample_line, ret)"
    "unat ret = 1"
    by (auto simp: m(3) len)
  then show ?thesis using m(3) len by blast
qed

text \<open>
  (C30) The error returns of a write: without memory it returns \<open>-ENOMEM\<close>, with a failed copy
  \<open>-EFAULT\<close>; neither changes the device or the heap.
\<close>

theorem write_errors_leave_state:
  assumes "kmalloc_ok K" "private_data filp = Some Aesd_device"
    and "kmalloc K (kheap m) count = None \<or> copy_from_user K buf count \<noteq> 0"
  shows "aesd_write K m filp buf count =
     Inr (m, if kmalloc K (kheap m) count = None then - ENOMEM else - EFAULT)"
proof (cases "kmalloc K (kheap m) count")
  case None
  then show ?thesis using assms(2) by (simp add: aesd_write_def)
next
  case (Some aj)
  then obtain a junk where alloc: "kmalloc K (kheap m) count = Some (a, junk)" by (cases aj) auto
  let ?data = "take (unat count - unat (copy_from_user K buf count)) buf"
  have fresh: "kheap m a = None" and "unat count \<le> length junk"
    using assms(1) alloc by (simp_all add: kmalloc_ok_def)
  then have "length ?data \<le> length junk" by simp
  then have "block_write ((kheap m)(a \<mapsto> junk)) (Some a) ?data =
      Inr ((kheap m)(a \<mapsto> ?data @ drop (length ?data) junk))"
    by (simp add: block_write_def)
  moreover have "(kheap m)(a := None) = kheap m" using fresh by (simp add: fun_upd_idem)
  ultimately show ?thesis using assms(2,3) alloc by (simp add: aesd_write_def Let_def)
qed

theorem write_errors_leave_state_witness:
  "aesd_write (sample_kernel\<lparr>copy_from_user := \<lambda>_ _. 1\<rparr>) sample_loaded sample_file sample_line 3 =
     Inr (sample_loaded, - EFAULT)"
proof -
  let ?K = "sample_kernel\<lparr>copy_from_user := \<lambda>_ _. 1\<rparr>"
  have "kmalloc_ok ?K" using sample_kmalloc_ok by (simp add: kmalloc_ok_def)
  moreover have "kmalloc ?K (kheap sample_loaded) 3 = Some (0, replicate 4 NUL)" by code_simp
  ultimately show ?thesis
    using write_errors_leave_state [of ?K sample_file sample_loaded 3 sample_line]
    by (simp add: sample_file_def)
qed

text \<open>
  A write that does not get the semaphore returns the full byte count as if it had
  succeeded, and stores nothing: the heap, the lines and the partial line are unchanged.
\<close>

theorem contended_write_claims_success:
  assumes K: "kmalloc_ok K" and pd: "private_data filp = Some Aesd_device"
    and alloc: "kmalloc K (kheap m) count = Some (a, junk)"
    and copy: "copy_from_user K buf count = 0" "length buf = unat count"
    and nul: "NUL \<in> set (buf @ drop (length buf) junk)"
    and busy: "fst (down_write_trylock K (sem (aesd_device m))) \<noteq> 1"
  shows "\<exists>m'. aesd_write K m filp buf count = Inr (m', count) \<and> kheap m' = kheap m \<and>
     history m' = history m \<and> partial_line m' = partial_line m"
proof -
  have fresh: "kheap m a = None" and len: "unat count \<le> length junk"
    using K alloc by (simp_all add: kmalloc_ok_def)
  obtain got s1 where lock: "down_write_trylock K (sem (aesd_device m)) = (got, s1)" "got \<noteq> 1"
    using busy by (metis fst_conv surj_pair)
  have "(kheap m)(a := None) = kheap m" using fresh by (simp add: fun_upd_idem)
  then show ?thesis
    using write_unfold [OF pd alloc len copy nul] lock by (simp add: Let_def)
qed

theorem contended_write_claims_success_witness:
  "\<exists>m'. aesd_write (sample_kernel\<lparr>down_write_trylock := \<lambda>s. (0, s)\<rparr>) sample_loaded sample_file
       sample_line 3 = Inr (m', 3) \<and> kheap m' = kheap sample_loaded \<and>
     history m' = history sample_loaded \<and> partial_line m' = partial_line sample_loaded"
proof -
  let ?K = "sample_kernel\<lparr>down_write_trylock := \<lambda>s. (0, s)\<rparr>"
  have alloc: "kmalloc ?K (kheap sample_loaded) 3 = Some (0, replicate 4 NUL)" by code_simp
  have ok: "kmalloc_ok ?K" using sample_kmalloc_ok by (simp add: kmalloc_ok_def)
  show ?thesis
    by (rule contended_write_claims_success [OF ok _ alloc])
      (simp_all add: sample_file_def sample_line_def sample_kernel_def)
qed

text \<open>
  A write whose block has no NUL, neither in the user's data nor behind it, reads past the
  end of the allocation: the data is handed to \<open>%s\<close> and \<open>strstr\<close> without a terminator.
\<close>

theorem unterminated_write_overreads:
  assumes "private_data filp = Some Aesd_device"
    and "kmalloc K (kheap m) count = Some (a, junk)" "unat count \<le> length junk"
    and "copy_from_user K buf count = 0" "length buf = unat count"
    and "NUL \<notin> set (buf @ drop (length buf) junk)"
  shows "aesd_write K m filp buf count = Inl Out_of_bounds"
  using assms by (simp add: aesd_write_def block_write_def pdebug_str_def c_str_def)

theorem unterminated_write_overreads_witness:
  "aesd_write (sample_kernel\<lparr>kmalloc := \<lambda>h n. Some (0, replicate (unat n) 255)\<rparr>) sample_loaded
     sample_file sample_line 3 = Inl Out_of_bounds"
  by (rule unterminated_write_overreads [where a = 0 and junk = "replicate 3 255"])
    (simp_all add: sample_file_def sample_line_def sample_kernel_def)

text \<open>Blocks the slots do not refer to can change without changing the lines.\<close>

lemma history_cong:
  assumes "drv_inv m" "ring (aesd_device m') = ring (aesd_device m)"
    and "\<And>p. p \<in> set (entry_ptrs (entry (ring (aesd_device m)))) \<Longrightarrow> kheap m' p = kheap m p"
  shows "history m' = history m"
proof -
  have wf: "ring_wf (ring (aesd_device m))" using assms(1) by (simp add: drv_inv_def)
  have "entry_data (kheap m') e = entry_data (kheap m) e" if "e \<in> set (live (ring (aesd_device m)))" for e
  proof (cases "buffptr e")
    case None
    then show ?thesis by (simp add: entry_data_def)
  next
    case (Some p)
    then have "p \<in> set (entry_ptrs (entry (ring (aesd_device m))))"
      using that live_subset [OF wf] by (auto simp: in_entry_ptrs)
    then show ?thesis using Some assms(3) by (simp add: entry_data_def)
  qed
  then show ?thesis using assms(2) by (simp add: history_def)
qed

lemma write_partial:
  assumes inv: "drv_inv m" and g: "write_granted K m filp buf count a junk s1"
    and partial: "\<not> is_line buf junk"
  defines "blk \<equiv> buf @ drop (length buf) junk"
  assumes fits: "length (cstring blk) \<le> unat count" "unat count + length (partial_line m) + 1 < 2 ^ 64"
    and alloc2: "temp_char_buffer (aesd_device m) \<noteq> None \<Longrightarrow>
      kmalloc K ((kheap m)(a \<mapsto> blk)) (count + word_of_nat (length (partial_line m)) + 1) = Some (c, junk2)"
  obtains m' where "aesd_write K m filp buf count = Inr (m', count)"
    "partial_line m' = partial_line m @ cstring blk" "history m' = history m"
proof -
  let ?d = "aesd_device m" and ?h = "(kheap m)(a \<mapsto> blk)"
  let ?m1 = "m\<lparr>kheap := ?h, aesd_device := ?d\<lparr>sem := s1\<rparr>\<rparr>"
  have pd: "private_data filp = Some Aesd_device" and ok: "kmalloc_ok K"
    and alloc: "kmalloc K (kheap m) count = Some (a, junk)" and cp: "copy_from_user K buf count = 0"
    and cnt: "length buf = unat count" and nul: "NUL \<in> set blk"
    and lock: "down_write_trylock K (sem ?d) = (1, s1)"
    using g unfolding write_granted_def blk_def by blast+
  have fresh: "kheap m a = None" and len: "unat count \<le> length junk"
    using ok alloc by (simp_all add: kmalloc_ok_def)
  have new: "a \<notin> set (owned m)" by (rule drv_inv_alloc(1) [OF inv fresh])
  have nonl: "newline \<notin> set (cstring blk)" using partial by (simp add: is_line_def blk_def)
  note unfold = write_unfold [OF pd alloc len cp cnt nul [unfolded blk_def], folded blk_def]
  show ?thesis
  proof (cases "temp_char_buffer ?d")
    case None
    have "aesd_write_locked K ?m1 a count =
        Inr (?m1\<lparr>aesd_device := (aesd_device ?m1)\<lparr>temp_char_buffer := Some a\<rparr>\<rparr>)"
      by (rule write_locked_partial_first) (use None nul nonl in simp_all)
    then have "aesd_write K m filp buf count =
        Inr (m\<lparr>kheap := ?h, aesd_device := ?d\<lparr>sem := up_write K s1, temp_char_buffer := Some a\<rparr>\<rparr>, count)"
      (is "_ = Inr (?m', _)")
      using unfold lock by simp
    moreover have "history ?m' = history m"
      by (rule history_cong [OF inv]) (use new in \<open>auto simp: owned_def\<close>)
    ultimately show ?thesis using that None by (simp add: partial_line_def)
  next
    case (Some t)
    obtain temp where temp: "kheap m t = Some temp" "NUL \<in> set temp" by (rule drv_inv_temp [OF inv Some])
    have at: "a \<noteq> t" using new Some by (auto simp: owned_def)
    have pl: "partial_line m = cstring temp" using Some temp by (simp add: partial_line_def)
    note kc = alloc2 [unfolded pl]
    have c: "?h c = None" and "unat (count + word_of_nat (length (cstring temp)) + 1) \<le> length junk2"
      using ok kc Some by (simp_all add: kmalloc_ok_def del: fun_upd_apply)
    moreover have "unat (count + word_of_nat (length (cstring temp)) + 1) =
        unat count + length (cstring temp) + 1"
      using fits(2) pl by (simp add: unat_word_ariths unat_of_nat)
    ultimately have room: "length (cstring temp) + length (cstring blk) < length junk2"
      using fits(1) by simp
    obtain joined where lk: "aesd_write_locked K ?m1 a count =
        Inr (?m1\<lparr>kheap := (kheap ?m1)(c \<mapsto> joined, a := None, t := None),
               aesd_device := (aesd_device ?m1)\<lparr>temp_char_buffer := Some c\<rparr>\<rparr>)"
      and joined: "cstring joined = cstring temp @ cstring blk"
    proof (rule write_locked_partial_more [of ?m1 a blk t temp K count c junk2])
    qed (use nul nonl Some temp at kc c room in \<open>simp_all\<close>)
    let ?m' = "m\<lparr>kheap := ?h(c \<mapsto> joined, a := None, t := None),
        aesd_device := ?d\<lparr>sem := up_write K s1, temp_char_buffer := Some c\<rparr>\<rparr>"
    have "aesd_write K m filp buf count = Inr (?m', count)" using unfold lock lk by simp
    moreover have "c \<noteq> a" "c \<noteq> t" "kheap m c = None" using c temp by (auto split: if_splits)
    moreover have "history ?m' = history m"
    proof (rule history_cong [OF inv])
      fix p assume p: "p \<in> set (entry_ptrs (entry (ring ?d)))"
      have "p \<noteq> a" "p \<noteq> t" using p new inv Some by (auto simp: owned_def drv_inv_def)
      moreover have "p \<noteq> c"
        using p owned_allocated [OF inv, of p] \<open>kheap m c = None\<close> by (auto simp: owned_def)
      ultimately show "kheap ?m' p = kheap m p" by simp
    qed simp
    ultimately show ?thesis using that joined pl by (simp add: partial_line_def)
  qed
qed

text \<open>
  Writes without a newline accumulate: a granted write whose block holds no newline before
  its NUL returns the byte count, appends its string to the partial line and leaves the lines
  alone. The hypotheses say that the string ends no later than right behind the data, that the
  size of the joined buffer does not wrap, and that the second allocation, needed when there is
  a partial line already, succeeds.
\<close>

theorem partial_writes_accumulate:
  assumes "drv_inv m" "write_granted K m filp buf count a junk s1" "\<not> is_line buf junk"
    and "length (cstring (buf @ drop (length buf) junk)) \<le> unat count"
    and "unat count + length (partial_line m) + 1 < 2 ^ 64"
    and "temp_char_buffer (aesd_device m) \<noteq> None \<Longrightarrow>
      kmalloc K ((kheap m)(a \<mapsto> buf @ drop (length buf) junk))
        (count + word_of_nat (length (partial_line m)) + 1) = Some (c, junk2)"
  shows "\<exists>m'. aesd_write K m filp buf count = Inr (m', count) \<and>
     partial_line m' = partial_line m @ cstring (buf @ drop (length buf) junk) \<and>
     history m' = history m \<and> drv_inv m'"
proof -
  obtain m' where m': "aesd_write K m filp buf count = Inr (m', count)"
    "partial_line m' = partial_line m @ cstring (buf @ drop (length buf) junk)" "history m' = history m"
    using write_partial [OF assms(1-5) assms(6)] by metis
  moreover have "drv_inv m'"
    using write_inv [OF assms(1) _ m'(1)] assms(2) by (simp add: write_granted_def)
  ultimately show ?thesis by blast
qed

theorem partial_writes_accumulate_witness:
  "\<exists>m'. aesd_write sample_kernel sample_loaded sample_file [104, 105] 2 = Inr (m', 2) \<and>
     partial_line m' = partial_line sample_loaded @ [104, 105] \<and>
     history m' = history sample_loaded \<and> drv_inv m'"
proof -
  have alloc: "kmalloc sample_kernel (kheap sample_loaded) 2 = Some (0, replicate 3 NUL)" by code_simp
  have g: "write_granted sample_kernel sample_loaded sample_file [104, 105] 2 0 (replicate 3 NUL) ()"
    using alloc
    by (simp add: write_granted_def sample_kmalloc_ok sample_file_def) (simp add: sample_kernel_def)
  have partial: "\<not> is_line [104, 105] (replicate 3 NUL)" by code_simp
  have none: "temp_char_buffer (aesd_device sample_loaded) = None" by code_simp
  have str: "cstring ([104, 105] @ drop (length [104 :: byte, 105]) (replicate 3 NUL)) = [104, 105]"
    by code_simp
  have "partial_line sample_loaded = []" by (simp add: partial_line_def none)
  then show ?thesis
    using partial_writes_accumulate [OF sample_inv g partial] none str by simp
qed

text \<open>
  The partial line is never completed: a write of a complete line adds its own bytes only,
  and the earlier partial data stays where it is.
\<close>

theorem line_write_leaves_partial:
  assumes inv: "drv_inv m" and clean: "ring_clean (ring (aesd_device m))"
    and g: "write_granted K m filp buf count a junk s1" and line: "is_line buf junk"
  shows "\<exists>m'. aesd_write K m filp buf count = Inr (m', count) \<and>
     partial_line m' = partial_line m \<and> history m' = lastn 10 (history m @ [buf])"
proof -
  let ?d = "aesd_device m" and ?e = "\<lparr>buffptr = Some a, ent_size = count\<rparr>"
  have wf: "ring_wf (ring ?d)" using clean by (rule ring_clean_wf)
  obtain b out where add: "aesd_circular_buffer_add_entry (ring ?d) ?e = Inr (b, out)"
    using add_entry_total [OF wf] by blast
  note exact = write_line_exact [OF inv g line add]
  have "a \<noteq> t" "buffptr out \<noteq> Some t" if t: "temp_char_buffer ?d = Some t" for t
  proof -
    show "a \<noteq> t" using exact(4) t by (auto simp: owned_def)
    have "t \<notin> set (entry_ptrs (entry (ring ?d)))" using inv t by (auto simp: drv_inv_def owned_def)
    then show "buffptr out \<noteq> Some t"
      using add_entry_slots(2,3) [OF wf add] by (auto simp: in_entry_ptrs zero_entry_def split: if_splits)
  qed
  then have "partial_line (m\<lparr>kheap := (case buffptr out of
        None \<Rightarrow> (kheap m)(a \<mapsto> buf @ drop (length buf) junk)
      | Some p \<Rightarrow> (kheap m)(a \<mapsto> buf @ drop (length buf) junk, p := None)),
      aesd_device := ?d\<lparr>ring := b, sem := up_write K s1\<rparr>\<rparr>) = partial_line m"
    by (auto simp: partial_line_def split: option.split)
  then show ?thesis using exact(1) write_line_history(4) [OF inv clean g line exact(1)] by blast
qed

theorem line_write_leaves_partial_witness:
  "\<exists>m'. aesd_write sample_kernel sample_partial sample_file sample_line 3 = Inr (m', 3) \<and>
     partial_line m' = partial_line sample_partial \<and> partial_line sample_partial = [104, 105] \<and>
     history m' = lastn 10 (history sample_partial @ [sample_line])"
proof -
  have line: "partial_line sample_partial = [104, 105]" by code_simp
  have "\<exists>m ret. aesd_write sample_kernel sample_loaded sample_file [104, 105] 2 = Inr (m, ret)"
  proof (cases "aesd_write sample_kernel sample_loaded sample_file [104, 105] 2")
    case (Inl e)
    then have "partial_line sample_partial = partial_line sample_loaded" by (simp add: sample_partial_def)
    moreover have "partial_line sample_loaded = []" by code_simp
    ultimately show ?thesis using line by simp
  qed auto
  then obtain ret where
    "aesd_write sample_kernel sample_loaded sample_file [104, 105] 2 = Inr (sample_partial, ret)"
    by (auto simp: sample_partial_def)
  then have inv: "drv_inv sample_partial"
    by (rule write_inv [OF sample_inv sample_kmalloc_ok]) simp
  have clean: "ring_clean (ring (aesd_device sample_partial))" by code_simp
  have "kmalloc sample_kernel (kheap sample_partial) 3 = Some (1, replicate 4 NUL)" by code_simp
  then have g: "write_granted sample_kernel sample_partial sample_file sample_line 3 1 (replicate 4 NUL) ()"
    by (simp add: write_granted_def sample_kmalloc_ok sample_file_def sample_line_def)
      (simp add: sample_kernel_def)
  from line_write_leaves_partial [OF inv clean g sample_is_line] line show ?thesis by blast
qed

text \<open>Overwriting the first slot: its block is lost, and the lines of the other slots stay.\<close>

lemma overwritten_slot_leaks:
  assumes inv: "drv_inv m" and slot: "buffptr (entry (ring (aesd_device m)) ! 0) = Some p" and new: "a \<notin> set (owned m)"
    and m2: "entry (ring (aesd_device m2)) = (entry (ring (aesd_device m)))[0 := \<lparr>buffptr = Some a, ent_size = count\<rparr>]"
      "temp_char_buffer (aesd_device m2) = temp_char_buffer (aesd_device m)" "kheap m2 = (kheap m)(a \<mapsto> blk)"
  shows "p \<in> set (owned m) \<and> kheap m2 p \<noteq> None \<and> p \<notin> set (owned m2)"
proof -
  let ?es = "entry (ring (aesd_device m))"
  have len: "0 < length ?es" using inv by (simp add: drv_inv_def ring_wf_def)
  have p_old: "p \<in> set (owned m)" using slot nth_mem [OF len] by (auto simp: owned_def in_entry_ptrs)
  have dist: "distinct (owned m)" using inv by (simp add: drv_inv_def)
  have "p \<noteq> a" using new p_old by auto
  then have "p \<notin> set (owned m2)"
    using set_entry_ptrs_update [OF len, of "\<lparr>buffptr = Some a, ent_size = count\<rparr>"] dist slot m2(1,2) p_old
    by (auto simp: owned_def) (metis disjoint_iff in_entry_ptrs len nth_mem)
  then show ?thesis using owned_allocated [OF inv p_old] p_old m2(3) by simp
qed

lemma replaced_first_slot:
  assumes inv: "drv_inv m" and new: "a \<notin> set (entry_ptrs (entry (ring (aesd_device m))))" "unat count = length buf"
  shows "map (entry_data ((kheap m)(a \<mapsto> buf @ rest))) ((entry (ring (aesd_device m)))[0 := \<lparr>buffptr = Some a, ent_size = count\<rparr>]) =
    buf # tl (slot_lines m)"
proof -
  obtain e es where es: "entry (ring (aesd_device m)) = e # es"
    using inv by (cases "entry (ring (aesd_device m))") (simp_all add: drv_inv_def ring_wf_def)
  have "buffptr x \<noteq> Some a" if "x \<in> set es" for x using new(1) that es by (auto simp: in_entry_ptrs)
  then have "map (entry_data ((kheap m)(a \<mapsto> buf @ rest))) es = map (entry_data (kheap m)) es"
    by (auto intro: entry_data_upd)
  moreover have "entry_data ((kheap m)(a \<mapsto> buf @ rest)) \<lparr>buffptr = Some a, ent_size = count\<rparr> = buf"
    using new(2) by (simp add: entry_data_def entry_bytes_def)
  ultimately show ?thesis using es by (simp add: slot_lines_def)
qed

lemma sample_two_inv: "drv_inv sample_two"
proof (cases "bindE (aesd_write sample_kernel sample_loaded sample_file sample_line 3)
    (\<lambda>(m, _). aesd_write sample_kernel m sample_file sample_line2 3)")
  case (Inl e)
  then show ?thesis using sample_inv by (simp add: sample_two_def)
next
  case (Inr x)
  then obtain m1 r1 m2 r2 where w: "aesd_write sample_kernel sample_loaded sample_file sample_line 3 = Inr (m1, r1)"
    "aesd_write sample_kernel m1 sample_file sample_line2 3 = Inr (m2, r2)" "x = (m2, r2)"
    by (auto simp: bindE_eq_Inr) (metis surj_pair)
  have "drv_inv m1" by (rule write_inv [OF sample_inv sample_kmalloc_ok w(1)]) (simp add: sample_line_def)
  then have "drv_inv m2" by (rule write_inv [OF _ sample_kmalloc_ok w(2)]) (simp add: sample_line2_def)
  then show ?thesis using Inr w(3) by (simp add: sample_two_def)
qed

text \<open>
  (C31) Reading to the end of file resets the ring to its first slot without emptying the slots or freeing
  their blocks, and the next line overwrites slot zero: the block the slot referred to stays
  allocated although nothing refers to it any more, and the lines of the other slots are not
  removed. From then on reads deliver the slots in their order, the new line first and the older
  lines after it: at every byte of the line of slot \<open>k\<close> a granted read stores that line.
\<close>

theorem eof_then_line_leaks:
  assumes inv: "drv_inv m" and clean: "ring_clean (ring (aesd_device m))"
    and slot: "buffptr (entry (ring (aesd_device m)) ! 0) = Some p"
    and pd: "private_data rfilp = Some Aesd_device" and R: "reads_granted R"
    and eof: "length (concat (history m)) \<le> unat f_pos"
    and res: "aesd_read R m rfilp rcount f_pos = Inr (m1, pos1, bs, ret)"
    and g: "write_granted K m1 filp buf count a junk s1" and line: "is_line buf junk"
  shows "ret = 0 \<and> bs = [] \<and> (\<exists>m2. aesd_write K m1 filp buf count = Inr (m2, count) \<and>
     kheap m2 p \<noteq> None \<and> p \<notin> set (owned m2) \<and> slot_lines m2 = buf # tl (slot_lines m) \<and>
     (\<forall>k r n pos. k < 10 \<and> r < length (slot_lines m2 ! k) \<and> unat pos = length (concat (take k (slot_lines m2))) + r \<longrightarrow>
       (\<exists>m3 ret3. aesd_read R m2 rfilp n pos = Inr (m3, pos + ret3, slot_lines m2 ! k, ret3) \<and>
         unat ret3 = min (unat n) (length (slot_lines m2 ! k)))))"
proof -
  let ?r = "ring (aesd_device m)" and ?e = "\<lparr>buffptr = Some a, ent_size = count\<rparr>"
  let ?r1 = "?r\<lparr>full := False, in_offs := 0, out_offs := 0\<rparr>"
  have wf: "ring_wf ?r" using clean by (rule ring_clean_wf)
  obtain rs where lock: "down_read_trylock R (sem (aesd_device m)) = (1, rs)"
    using R unfolding reads_granted_def by (metis prod.collapse)
  have "span entry_bytes (live ?r) \<le> unat f_pos"
    using eof history_sizes(2) [OF inv, of "length (history m)"] by simp
  then have "locate entry_bytes (scan ?r) (unat f_pos) = None"
    by (simp add: locate_None_iff scan_clean [OF clean] entry_bytes_def zero_entry_def)
  then have "aesd_circular_buffer_find_entry_offset_for_fpos ?r f_pos = Inr (?r1, None)"
    using find_entry_wf [OF wf, of f_pos] by simp
  then have read: "aesd_read R m rfilp rcount f_pos =
      Inr (m\<lparr>aesd_device := (aesd_device m)\<lparr>ring := ?r1, sem := up_read R rs\<rparr>\<rparr>, f_pos, [], 0)"
    (is "_ = Inr (?m1, _)")
    using pd lock by (simp add: aesd_read_def Let_def)
  have m1: "m1 = ?m1" and ret: "ret = 0" "bs = []" using read res by simp_all
  have inv1: "drv_inv ?m1" using read_inv [OF inv read] .
  have wf1: "ring_wf (ring (aesd_device ?m1))" using inv1 by (simp add: drv_inv_def)
  define b where "b = ?r\<lparr>entry := (entry ?r)[0 := ?e], full := False, in_offs := 1, out_offs := 0\<rparr>"
  have add: "aesd_circular_buffer_add_entry (ring (aesd_device ?m1)) ?e = Inr (b, zero_entry)"
    using add_entry_room [OF wf1, of ?e] by (simp add: b_def next_offs_def)
  note exact = write_line_exact [OF inv1 g [unfolded m1] line add]
  let ?m2 = "?m1\<lparr>kheap := (kheap m)(a \<mapsto> buf @ drop (length buf) junk),
      aesd_device := (aesd_device m)\<lparr>ring := b, sem := up_write K s1\<rparr>\<rparr>"
  have w: "aesd_write K ?m1 filp buf count = Inr (?m2, count)" and inv2: "drv_inv ?m2"
    using exact(1,2) by (simp_all add: zero_entry_def)
  have new: "a \<notin> set (entry_ptrs (entry ?r))" "unat count = length buf"
    using exact(4) g by (simp_all add: owned_def write_granted_def)
  have "p \<in> set (owned m) \<and> kheap ?m2 p \<noteq> None \<and> p \<notin> set (owned ?m2)"
    by (rule overwritten_slot_leaks [OF inv slot]) (use exact(4) in \<open>simp_all add: b_def owned_def\<close>)
  moreover have "slot_lines ?m2 = buf # tl (slot_lines m)"
    using replaced_first_slot [OF inv new] by (simp add: slot_lines_def b_def)
  moreover have "\<exists>m3 ret3. aesd_read R ?m2 rfilp n pos = Inr (m3, pos + ret3, slot_lines ?m2 ! k, ret3) \<and>
       unat ret3 = min (unat n) (length (slot_lines ?m2 ! k))"
    if "k < 10" "r < length (slot_lines ?m2 ! k)" "unat pos = length (concat (take k (slot_lines ?m2))) + r" for k r n pos
    by (rule read_at_slot [OF inv2 pd R _ that]) (simp add: b_def)
  ultimately show ?thesis using w m1 ret by blast
qed

theorem eof_then_line_leaks_witness:
  "\<exists>m2 m3 m4. aesd_write sample_kernel sample_eof sample_file [33, 10] 2 = Inr (m2, 2) \<and>
     kheap m2 0 \<noteq> None \<and> 0 \<notin> set (owned m2) \<and>
     aesd_read sample_kernel m2 sample_file 10 0 = Inr (m3, 2, [33, 10], 2) \<and>
     aesd_read sample_kernel m2 sample_file 10 2 = Inr (m4, 5, sample_line2, 3)"
proof -
  have two: "drv_inv sample_two" "ring_clean (ring (aesd_device sample_two))"
    "slot_lines sample_two = [sample_line, sample_line2] @ replicate 8 []" "concat (history sample_two) = sample_line @ sample_line2"
    using sample_two_inv by simp_all code_simp+
  have pd: "private_data sample_file = Some Aesd_device" by (simp add: sample_file_def)
  have slot: "buffptr (entry (ring (aesd_device sample_two)) ! 0) = Some 0" by code_simp
  obtain pos bs ret where read: "aesd_read sample_kernel sample_two sample_file 10 6 = Inr (sample_eof, pos, bs, ret)"
    using read_no_fault [OF two(1) pd, of sample_kernel 10 6] by (auto simp: sample_eof_def)
  have "kmalloc sample_kernel (kheap sample_eof) 2 = Some (2, replicate 3 NUL)" by code_simp
  then have g: "write_granted sample_kernel sample_eof sample_file [33, 10] 2 2 (replicate 3 NUL) ()"
    by (simp add: write_granted_def sample_kmalloc_ok sample_file_def) (simp add: sample_kernel_def)
  have line: "is_line [33, 10] (replicate 3 NUL)" by code_simp
  have eof: "length (concat (history sample_two)) \<le> unat (6 :: u64)"
    by (simp add: two(4) sample_line_def sample_line2_def del: length_history)
  obtain m2 where m2: "aesd_write sample_kernel sample_eof sample_file [33, 10] 2 = Inr (m2, 2)"
    "kheap m2 0 \<noteq> None" "0 \<notin> set (owned m2)" "slot_lines m2 = [[33, 10], sample_line2] @ replicate 8 []"
    and reads: "\<And>k r n pos. k < 10 \<Longrightarrow> r < length (slot_lines m2 ! k) \<Longrightarrow> unat pos = length (concat (take k (slot_lines m2))) + r \<Longrightarrow>
       \<exists>m3 ret3. aesd_read sample_kernel m2 sample_file n pos = Inr (m3, pos + ret3, slot_lines m2 ! k, ret3) \<and>
         unat ret3 = min (unat n) (length (slot_lines m2 ! k))"
    using eof_then_line_leaks [OF two(1,2) slot pd sample_reads_granted eof read g line] two(3) by auto
  obtain m3 r3 where r3: "aesd_read sample_kernel m2 sample_file 10 0 = Inr (m3, 0 + r3, [33, 10], r3)" "unat r3 = 2"
    using reads [of 0 0 0 10] m2(4) by auto
  obtain m4 r4 where r4: "aesd_read sample_kernel m2 sample_file 10 2 = Inr (m4, 2 + r4, sample_line2, r4)" "unat r4 = 3"
    using reads [of 1 0 2 10] m2(4) by (auto simp: sample_line2_def)
  have "r3 = 2" "r4 = 3" using r3(2) r4(2) by (simp_all add: word_unat_eq_iff)
  then show ?thesis using m2(1-3) r3(1) r4(1) by auto
qed

text \<open>
  A load that fails, at the device number or at the character device, leaves no
  registration behind and reports the error of the call that failed.
\<close>

theorem failed_load_registers_nothing:
  assumes "aesd_init_module K m0 = (m, result)" "result \<noteq> 0"
  shows "regions m = regions m0 \<and> cdevs m = cdevs m0 \<and> kheap m = kheap m0 \<and>
     result = (if fst (alloc_chrdev_region K (aesd_minor m0)) < 0
       then fst (alloc_chrdev_region K (aesd_minor m0))
       else cdev_add K (MKDEV (MAJOR (snd (alloc_chrdev_region K (aesd_minor m0)))) (aesd_minor m0)))"
  using assms
  by (auto simp: aesd_init_module_def aesd_setup_cdev_def Let_def split: prod.splits if_splits)

theorem failed_load_registers_nothing_witness:
  "\<exists>m. aesd_init_module (sample_kernel\<lparr>cdev_add := \<lambda>_. -16\<rparr>) sample_module = (m, -16) \<and>
     regions m = regions sample_module \<and> cdevs m = cdevs sample_module"
proof -
  let ?K = "sample_kernel\<lparr>cdev_add := \<lambda>_. -16\<rparr>"
  obtain m r where m: "aesd_init_module ?K sample_module = (m, r)"
    by (cases "aesd_init_module ?K sample_module")
  moreover have "snd (aesd_init_module ?K sample_module) = -16" by code_simp
  ultimately show ?thesis using failed_load_registers_nothing [OF m] by auto
qed

text \<open>
  Unloading after a successful load removes exactly the registrations the load made,
  provided the device number the kernel chose has the requested minor number; it frees none of
  the blocks the ring and the partial line still refer to.
\<close>

theorem unload_reverts_load:
  assumes "aesd_init_module K m0 = (m, 0)"
    and "0 \<le> fst (alloc_chrdev_region K (aesd_minor m0))"
    and "snd (alloc_chrdev_region K (aesd_minor m0)) =
      MKDEV (MAJOR (snd (alloc_chrdev_region K (aesd_minor m0)))) (aesd_minor m0)"
  shows "regions (aesd_cleanup_module m) = regions m0 \<and> cdevs (aesd_cleanup_module m) = cdevs m0 \<and>
     kheap (aesd_cleanup_module m) = kheap m"
  using assms
  by (auto simp: aesd_init_module_def aesd_setup_cdev_def aesd_cleanup_module_def Let_def
      split: prod.splits if_splits)

theorem unload_reverts_load_witness:
  "regions (aesd_cleanup_module sample_loaded) = [] \<and> cdevs (aesd_cleanup_module sample_loaded) = [] \<and>
   regions sample_loaded \<noteq> []"
proof -
  have dev: "0 \<le> fst (alloc_chrdev_region sample_kernel (aesd_minor sample_module))"
    "snd (alloc_chrdev_region sample_kernel (aesd_minor sample_module)) =
      MKDEV (MAJOR (snd (alloc_chrdev_region sample_kernel (aesd_minor sample_module))))
        (aesd_minor sample_module)"
    by code_simp+
  have "regions sample_loaded \<noteq> []" by code_simp
  then show ?thesis using unload_reverts_load [OF sample_load dev] by (simp add: sample_module_def)
qed

end
