(* ===== verification/Driver_Readers.thy ===== *)
theory Driver_Readers
  imports Driver_History
begin

text \<open>
  Concurrent calls of the device. \<open>aesd_read\<close> holds the semaphore only while it looks up the entry;
  what follows in the function reads the slot the returned pointer refers to, and the block the
  slot refers to, without it. A read is therefore a sequence of accesses between which calls on
  other processors can run: the lookup under the semaphore, the size of the slot (the comparison and
  the assignment that use it are one access), its pointer for the debug output, the string, its
  pointer and size for the copy, and the copy. Writes change the
  ring under the semaphore and run as a whole between two accesses of a reader. The fields
  \<open>ring_stores\<close> and \<open>ring_resets\<close> count what happened and do not influence a run.
\<close>

section \<open>Accesses of a read\<close>

datatype reader_pc =
    Read_call
  | Read_sizing nat
  | Read_printing nat
  | Read_string nat ptr
  | Read_passing nat
  | Read_copying ptr u64
  | Read_returned
  | Read_faulted c_error

record reader =
  rfile :: kfile
  rcount :: u64
  rpos :: u64
  rret :: u64
  rbytes :: "byte list"
  rpc :: reader_pc

text \<open>The lookup: the semaphore is taken without waiting and released right after it.\<close>

definition read_lookup :: "'sem kernel_api \<Rightarrow> 'sem module \<Rightarrow> reader \<Rightarrow> ('sem module \<times> reader) res" where
  "read_lookup K m k =
     (case private_data (rfile k) of None \<Rightarrow> Inl Null_deref
      | Some Aesd_device \<Rightarrow>
        let dev = aesd_device m; (got, s1) = down_read_trylock K (sem dev) in
        if got \<noteq> 1 then Inr (m\<lparr>aesd_device := dev\<lparr>sem := s1\<rparr>\<rparr>, k\<lparr>rret := - ERESTARTSYS, rpc := Read_returned\<rparr>)
        else
          bindE (aesd_circular_buffer_find_entry_offset_for_fpos (ring dev) (rpos k)) (\<lambda>(b, r).
            Inr (m\<lparr>aesd_device := dev\<lparr>ring := b, sem := up_read K s1\<rparr>\<rparr>,
              case r of None \<Rightarrow> k\<lparr>rret := 0, rpc := Read_returned\<rparr>
              | Some (i, entry_offset_byte_rtn) \<Rightarrow> k\<lparr>rpc := Read_sizing i\<rparr>)))"

definition read_slot :: "'sem module \<Rightarrow> nat \<Rightarrow> aesd_buffer_entry res" where
  "read_slot m i = arr_get (entry (ring (aesd_device m))) i"

definition read_size :: "'sem module \<Rightarrow> nat \<Rightarrow> reader \<Rightarrow> reader res" where
  "read_size m i k = bindE (read_slot m i) (\<lambda>e.
     let retval = (if rcount k \<le> ent_size e then rcount k else ent_size e) in
     Inr (k\<lparr>rret := retval, rpos := rpos k + retval, rpc := Read_printing i\<rparr>))"

definition read_print :: "'sem module \<Rightarrow> nat \<Rightarrow> ptr \<Rightarrow> reader \<Rightarrow> reader res" where
  "read_print m i p k = bindE (pdebug_str (kheap m) p) (\<lambda>_. Inr (k\<lparr>rpc := Read_passing i\<rparr>))"

definition read_copy :: "'sem kernel_api \<Rightarrow> 'sem module \<Rightarrow> ptr \<Rightarrow> u64 \<Rightarrow> reader \<Rightarrow> reader res" where
  "read_copy K m p n k = bindE (block_read (kheap m) p (unat n)) (\<lambda>src.
     let left = copy_to_user K src n in
     Inr (k\<lparr>rbytes := take (unat n - unat left) src,
       rret := (if left \<noteq> 0 then - EFAULT else rret k), rpc := Read_returned\<rparr>))"

text \<open>The next access of a read; a call that returned or faulted makes none.\<close>

fun read_next :: "'sem kernel_api \<Rightarrow> 'sem module \<Rightarrow> reader \<Rightarrow> reader_pc \<Rightarrow> ('sem module \<times> reader) res option" where
  "read_next K m k Read_call = Some (read_lookup K m k)"
| "read_next K m k (Read_sizing i) = Some (bindE (read_size m i k) (\<lambda>k. Inr (m, k)))"
| "read_next K m k (Read_printing i) =
     Some (bindE (read_slot m i) (\<lambda>e. Inr (m, k\<lparr>rpc := Read_string i (buffptr e)\<rparr>)))"
| "read_next K m k (Read_string i p) = Some (bindE (read_print m i p k) (\<lambda>k. Inr (m, k)))"
| "read_next K m k (Read_passing i) =
     Some (bindE (read_slot m i) (\<lambda>e. Inr (m, k\<lparr>rpc := Read_copying (buffptr e) (ent_size e)\<rparr>)))"
| "read_next K m k (Read_copying p n) = Some (bindE (read_copy K m p n k) (\<lambda>k. Inr (m, k)))"
| "read_next K m k Read_returned = None"
| "read_next K m k (Read_faulted e) = None"

section \<open>Interleaved calls\<close>

record 'sem device_run =
  module_of :: "'sem module"
  readers :: "nat \<Rightarrow> reader"
  ring_stores :: nat
  ring_resets :: nat

definition reset_count :: "reader \<Rightarrow> reader \<Rightarrow> nat" where
  "reset_count k k' = (if rpc k = Read_call \<and> rpc k' = Read_returned \<and> rret k' = 0 then 1 else 0)"

definition store_count :: "'sem module \<Rightarrow> 'sem module \<Rightarrow> nat" where
  "store_count m m' = (if ring (aesd_device m') = ring (aesd_device m) then 0 else 1)"

inductive device_step :: "'sem device_run \<Rightarrow> 'sem device_run \<Rightarrow> bool" where
  reader_step:
    "k = readers d r \<Longrightarrow> read_next K (module_of d) k (rpc k) = Some (Inr (m, k')) \<Longrightarrow>
     device_step d (d\<lparr>module_of := m, readers := (readers d)(r := k'), ring_resets := ring_resets d + reset_count k k'\<rparr>)"
| reader_faults:
    "k = readers d r \<Longrightarrow> read_next K (module_of d) k (rpc k) = Some (Inl e) \<Longrightarrow>
     device_step d (d\<lparr>readers := (readers d)(r := k\<lparr>rpc := Read_faulted e\<rparr>)\<rparr>)"
| write_call:
    "kmalloc_ok K \<Longrightarrow> length buf = unat count \<Longrightarrow> aesd_write K (module_of d) filp buf count = Inr (m, ret) \<Longrightarrow>
     device_step d (d\<lparr>module_of := m, ring_stores := ring_stores d + store_count (module_of d) m\<rparr>)"

section \<open>A read that is not interrupted\<close>

text \<open>The accesses of a read one after the other, from the point where it stands.\<close>

fun read_rest :: "nat \<Rightarrow> 'sem kernel_api \<Rightarrow> 'sem module \<Rightarrow> reader \<Rightarrow> ('sem module \<times> reader) res" where
  "read_rest 0 K m k = Inr (m, k)"
| "read_rest (Suc n) K m k = (case read_next K m k (rpc k) of None \<Rightarrow> Inr (m, k)
     | Some step \<Rightarrow> bindE step (\<lambda>(m', k'). read_rest n K m' k'))"

definition outcome :: "('sem module \<times> reader) res \<Rightarrow> ('sem module \<times> u64 \<times> byte list \<times> u64) res" where
  "outcome r = bindE r (\<lambda>(m, k). Inr (m, rpos k, rbytes k, rret k))"

lemma read_rest_returned [simp]: "rpc k = Read_returned \<Longrightarrow> read_rest n K m k = Inr (m, k)"
  by (cases n) simp_all

lemma outcome_simps [simp]:
  "outcome (Inl e) = Inl e" "outcome (Inr (m, k)) = Inr (m, rpos k, rbytes k, rret k)"
  by (simp_all add: outcome_def)

text \<open>Everything after the lookup, as the rest of \<open>aesd_read\<close> computes it.\<close>

definition read_found_rest :: "'sem kernel_api \<Rightarrow> 'sem module \<Rightarrow> nat \<Rightarrow> u64 \<Rightarrow> u64 \<Rightarrow> ('sem module \<times> u64 \<times> byte list \<times> u64) res" where
  "read_found_rest K m i count f_pos =
     bindE (arr_get (entry (ring (aesd_device m))) i) (\<lambda>e.
       let retval = (if count \<le> ent_size e then count else ent_size e) in
       bindE (pdebug_str (kheap m) (buffptr e)) (\<lambda>_.
       bindE (block_read (kheap m) (buffptr e) (entry_bytes e)) (\<lambda>src.
         let left = copy_to_user K src (ent_size e) in
         Inr (m, f_pos + retval, take (entry_bytes e - unat left) src, if left \<noteq> 0 then - EFAULT else retval))))"

lemma read_rest_sizing:
  assumes "rpc k = Read_sizing i"
  shows "outcome (read_rest (Suc (Suc (Suc (Suc (Suc n))))) K m k) = read_found_rest K m i (rcount k) (rpos k)"
proof (cases "arr_get (entry (ring (aesd_device m))) i")
  case (Inr e)
  show ?thesis
  proof (cases "pdebug_str (kheap m) (buffptr e)")
    case Inr': (Inr s)
    then show ?thesis using assms Inr
      by (cases "block_read (kheap m) (buffptr e) (entry_bytes e)")
        (simp_all add: read_found_rest_def read_size_def read_print_def read_copy_def read_slot_def entry_bytes_def Let_def)
  qed (use assms Inr in \<open>simp add: read_found_rest_def read_size_def read_print_def read_slot_def Let_def\<close>)
qed (use assms in \<open>simp add: read_found_rest_def read_size_def read_slot_def\<close>)

lemma read_rest_outcome:
  assumes "rpc k = Read_call" "rbytes k = []"
  shows "outcome (read_rest (Suc (Suc (Suc (Suc (Suc (Suc n)))))) K m k) = aesd_read K m (rfile k) (rcount k) (rpos k)"
proof (cases "private_data (rfile k)")
  case None
  then show ?thesis using assms by (simp add: read_lookup_def aesd_read_def)
next
  case (Some d)
  then have pd: "private_data (rfile k) = Some Aesd_device" by (cases d) simp
  obtain got s1 where lock: "down_read_trylock K (sem (aesd_device m)) = (got, s1)" by fastforce
  let ?find = "aesd_circular_buffer_find_entry_offset_for_fpos (ring (aesd_device m)) (rpos k)"
  consider "got \<noteq> 1" | e where "got = 1" "?find = Inl e" | b where "got = 1" "?find = Inr (b, None)"
    | b i off where "got = 1" "?find = Inr (b, Some (i, off))"
    by (cases ?find) (auto, metis option.exhaust surj_pair)
  then show ?thesis
  proof cases
    case 4
    let ?m1 = "m\<lparr>aesd_device := (aesd_device m)\<lparr>ring := b, sem := up_read K s1\<rparr>\<rparr>" and ?k1 = "k\<lparr>rpc := Read_sizing i\<rparr>"
    have "read_rest (Suc (Suc (Suc (Suc (Suc (Suc n)))))) K m k = read_rest (Suc (Suc (Suc (Suc (Suc n))))) K ?m1 ?k1"
      by (subst read_rest.simps(2)) (simp add: assms pd lock 4 read_lookup_def del: read_rest.simps)
    then show ?thesis using 4 pd lock read_rest_sizing[of ?k1 i n K ?m1]
      by (simp add: aesd_read_def read_found_rest_def Let_def del: read_rest.simps)
  qed (use assms pd lock in \<open>simp_all add: read_lookup_def aesd_read_def Let_def\<close>)
qed

section \<open>What calls leave alone\<close>

lemma distinct_slots:
  assumes "distinct (entry_ptrs es)" "i < j" "j < length es" "buffptr (es ! i) = Some p"
  shows "buffptr (es ! j) \<noteq> Some p"
  using assms
proof (induction es arbitrary: i j)
  case (Cons e es)
  obtain j' where j: "j = Suc j'" "j' < length es" using Cons.prems(2,3) by (cases j) auto
  show ?case
  proof (cases i)
    case 0
    then have "p \<notin> set (entry_ptrs es)" using Cons.prems(1,4) by simp
    then show ?thesis using j nth_mem[OF j(2)] by (auto simp: in_entry_ptrs)
  next
    case (Suc i')
    then show ?thesis using Cons.IH[of i' j'] Cons.prems j by simp
  qed
qed simp

text \<open>
  A write either leaves the ring alone, or stores a line in it and frees the block of the entry it
  overwrote; the blocks of all other slots keep their contents.
\<close>

definition keeps_slots :: "ptr \<Rightarrow> 'sem module \<Rightarrow> 'sem module \<Rightarrow> bool" where
  "keeps_slots q m m' \<longleftrightarrow>
     (\<forall>p \<in> set (entry_ptrs (entry (ring (aesd_device m)))). q \<noteq> Some p \<longrightarrow> kheap m' p = kheap m p)"

definition write_effect :: "'sem module \<Rightarrow> 'sem module \<Rightarrow> bool" where
  "write_effect m m' \<longleftrightarrow> (ring (aesd_device m') = ring (aesd_device m) \<and> keeps_slots None m m') \<or>
     (\<exists>e out. aesd_circular_buffer_add_entry (ring (aesd_device m)) e = Inr (ring (aesd_device m'), out) \<and>
        keeps_slots (buffptr out) m m')"

lemma write_locked_effect:
  assumes inv: "drv_inv m" and K: "kmalloc_ok K" and new: "a \<notin> set (owned m)"
    and res: "aesd_write_locked K m a count = Inr m'"
  shows "write_effect m m'"
proof -
  obtain buf pos where buf: "block (kheap m) (Some a) = Inr buf" "c_strstr buf [newline] = Inr pos"
    using res by (auto simp: aesd_write_locked_def Let_def bindE_eq_Inr)
  consider (line) x where "pos = Some x" | (first) "pos = None" "temp_char_buffer (aesd_device m) = None"
    | (more) t where "pos = None" "temp_char_buffer (aesd_device m) = Some t" by (cases pos) auto
  then show ?thesis
  proof cases
    case line
    then obtain b out h1 where add: "aesd_circular_buffer_add_entry (ring (aesd_device m)) \<lparr>buffptr = Some a, ent_size = count\<rparr> = Inr (b, out)"
      and h1: "(case buffptr out of None \<Rightarrow> Inr (kheap m)
        | Some _ \<Rightarrow> bindE (pdebug_str (kheap m) (buffptr out)) (\<lambda>_. kfree (kheap m) (buffptr out))) = Inr h1"
      and m': "m' = m\<lparr>kheap := h1, aesd_device := (aesd_device m)\<lparr>ring := b\<rparr>\<rparr>"
      using res buf by (auto simp: aesd_write_locked_def Let_def bindE_eq_Inr)
    have "keeps_slots (buffptr out) m m'"
      using h1 m' by (cases "buffptr out") (auto simp: keeps_slots_def bindE_eq_Inr kfree_def split: if_splits)
    then show ?thesis using add m' by (auto simp: write_effect_def)
  next
    case first
    then show ?thesis using res buf by (auto simp: aesd_write_locked_def write_effect_def keeps_slots_def Let_def)
  next
    case more
    then obtain c h1 h2 n junk x where c: "kmalloc K (kheap m) n = Some (c, junk)"
      and h: "kfree ((kheap m)(c \<mapsto> x)) (Some a) = Inr h1" "kfree h1 (Some t) = Inr h2"
      and m': "m' = m\<lparr>kheap := h2, aesd_device := (aesd_device m)\<lparr>temp_char_buffer := Some c\<rparr>\<rparr>"
      using res buf by (auto simp: aesd_write_locked_def Let_def bindE_eq_Inr split: option.splits)
    have "kheap m c = None" using K c by (simp add: kmalloc_ok_def)
    then have "p \<notin> {a, c, t}" if "p \<in> set (entry_ptrs (entry (ring (aesd_device m))))" for p
      using that new more(2) inv owned_allocated[OF inv, of p] by (auto simp: owned_def drv_inv_def)
    then have "keeps_slots None m m'" using h m' by (auto simp: keeps_slots_def kfree_def split: if_splits)
    then show ?thesis using m' by (simp add: write_effect_def)
  qed
qed

lemma write_effect_call:
  assumes inv: "drv_inv m" and K: "kmalloc_ok K" and cnt: "length buf = unat count"
    and res: "aesd_write K m filp buf count = Inr (m', ret)"
  shows "write_effect m m'"
proof (cases "kmalloc K (kheap m) count")
  case None
  then show ?thesis
    using res by (auto simp: aesd_write_def write_effect_def keeps_slots_def split: option.splits dev_ref.splits)
next
  case (Some aj)
  then obtain a junk where alloc: "kmalloc K (kheap m) count = Some (a, junk)" by (cases aj) auto
  have fresh: "kheap m a = None" using K alloc by (simp add: kmalloc_ok_def)
  note new = drv_inv_alloc[OF inv fresh]
  have keep: "keeps_slots q m (m\<lparr>kheap := (kheap m)(a := v), aesd_device := D\<rparr>)" for q v D
    using new(1) by (auto simp: keeps_slots_def owned_def)
  obtain h1 where h1: "block_write ((kheap m)(a \<mapsto> junk)) (Some a) (take (unat count - unat (copy_from_user K buf count)) buf) = Inr h1"
    using res alloc by (auto simp: aesd_write_def Let_def bindE_eq_Inr split: option.splits dev_ref.splits)
  then obtain v where v: "h1 = (kheap m)(a \<mapsto> v)" by (auto simp: block_write_def split: if_splits)
  obtain got s1 where lock: "down_write_trylock K (sem (aesd_device m)) = (got, s1)" by fastforce
  let ?m1 = "m\<lparr>kheap := h1, aesd_device := (aesd_device m)\<lparr>sem := s1\<rparr>\<rparr>"
  consider (failed) D where "m' = m\<lparr>kheap := (kheap m)(a := None), aesd_device := D\<rparr>" "ring D = ring (aesd_device m)"
    | (locked) m2 where "aesd_write_locked K ?m1 a count = Inr m2"
        "m' = m2\<lparr>aesd_device := (aesd_device m2)\<lparr>sem := up_write K (sem (aesd_device m2))\<rparr>\<rparr>"
  proof -
    consider "copy_from_user K buf count \<noteq> 0" | "copy_from_user K buf count = 0" "got \<noteq> 1"
      | "copy_from_user K buf count = 0" "got = 1" by blast
    then show thesis
    proof cases
      case 1
      then have "m' = m\<lparr>kheap := (kheap m)(a := None), aesd_device := aesd_device m\<rparr>"
        using res alloc h1 v by (auto simp: aesd_write_def Let_def bindE_eq_Inr split: option.splits dev_ref.splits)
      then show thesis using that(1) by blast
    next
      case 2
      then have "m' = m\<lparr>kheap := (kheap m)(a := None), aesd_device := (aesd_device m)\<lparr>sem := s1\<rparr>\<rparr>"
        using res alloc h1 v lock by (auto simp: aesd_write_def Let_def bindE_eq_Inr split: option.splits dev_ref.splits)
      then show thesis using that(1) by fastforce
    next
      case 3
      then show thesis using res alloc h1 lock that(2)
        by (auto simp: aesd_write_def Let_def bindE_eq_Inr split: option.splits dev_ref.splits)
    qed
  qed
  then show ?thesis
  proof cases
    case failed
    then show ?thesis using keep by (simp add: write_effect_def)
  next
    case locked
    have m1: "drv_inv ?m1" "a \<notin> set (owned ?m1)" using new v by (simp_all add: owned_def)
    have "h1 p = kheap m p" if "p \<in> set (entry_ptrs (entry (ring (aesd_device m))))" for p
      using that new(1) v by (auto simp: owned_def)
    then show ?thesis
      using write_locked_effect[OF m1(1) K m1(2) locked(1)] locked(2)
      by (auto simp: write_effect_def keeps_slots_def)
  qed
qed

section \<open>How long a slot keeps its line\<close>

text \<open>The number of lines that can be stored before slot \<open>i\<close> is overwritten.\<close>

definition stores_left :: "aesd_circular_buffer \<Rightarrow> nat \<Rightarrow> nat" where
  "stores_left b i = (i + 10 - unat (in_offs b)) mod 10"

lemma stores_left_live:
  assumes "ring_wf b" "k < live_count b"
  shows "stores_left b ((unat (out_offs b) + k) mod 10) = 10 - live_count b + k"
proof -
  have io: "unat (in_offs b) < 10" "unat (out_offs b) < 10" using assms(1) by (simp_all add: ring_wf_def)
  show ?thesis
  proof (cases "full b")
    case True
    then have "in_offs b = out_offs b" "k < 10" "live_count b = 10" using assms by (auto simp: ring_wf_def live_count_def)
    then show ?thesis using io by (simp add: stores_left_def mod_ten_less_twenty)
  next
    case False
    then have "live_count b = (unat (in_offs b) + 10 - unat (out_offs b)) mod 10" by (simp add: live_count_def)
    then show ?thesis using io assms(2) by (simp add: stores_left_def mod_ten_less_twenty split: if_splits)
  qed
qed

lemma add_entry_in_offs:
  assumes "ring_wf b" "aesd_circular_buffer_add_entry b e = Inr (b', out)"
  shows "unat (in_offs b') = (unat (in_offs b) + 1) mod 10"
  using assms add_entry_full[of b e] add_entry_room[of b e] by (cases "full b") auto

lemma add_entry_keeps_slot:
  assumes "ring_wf b" "aesd_circular_buffer_add_entry b e = Inr (b', out)" "i < 10" "0 < stores_left b i"
  shows "unat (in_offs b) \<noteq> i" "entry b' ! i = entry b ! i" "Suc (stores_left b' i) = stores_left b i"
proof -
  have io: "unat (in_offs b) < 10" using assms(1) by (simp add: ring_wf_def)
  show n: "unat (in_offs b) \<noteq> i" using assms(4) by (auto simp: stores_left_def)
  show "entry b' ! i = entry b ! i" using add_entry_slots(1)[OF assms(1,2)] n by simp
  show "Suc (stores_left b' i) = stores_left b i"
    using n io assms(3) by (auto simp: stores_left_def add_entry_in_offs[OF assms(1,2)] mod_ten_less_twenty)
qed

lemma add_entry_changes:
  assumes "ring_wf b" "aesd_circular_buffer_add_entry b e = Inr (b', out)"
  shows "b' \<noteq> b"
proof
  assume "b' = b"
  then have "unat (in_offs b) = (unat (in_offs b) + 1) mod 10" using add_entry_in_offs[OF assms] by simp
  moreover have "unat (in_offs b) < 10" using assms(1) by (simp add: ring_wf_def)
  ultimately show False by (simp add: mod_ten_less_twenty split: if_splits)
qed

lemma entry_data_cong:
  "(\<And>p. buffptr e = Some p \<Longrightarrow> h p = h' p) \<Longrightarrow> entry_data h e = entry_data h' e"
  by (simp add: entry_data_def split: option.splits)

text \<open>A write that stores no line, or a line elsewhere, leaves the line of a slot alone.\<close>

lemma write_keeps_slot:
  assumes inv: "drv_inv m" and w: "write_effect m m'" and i: "i < 10"
    and room: "store_count m m' \<le> stores_left (ring (aesd_device m)) i"
  shows "entry (ring (aesd_device m')) ! i = entry (ring (aesd_device m)) ! i"
    "entry_data (kheap m') (entry (ring (aesd_device m)) ! i) = entry_data (kheap m) (entry (ring (aesd_device m)) ! i)"
    "store_count m m' + stores_left (ring (aesd_device m')) i = stores_left (ring (aesd_device m)) i"
proof -
  let ?b = "ring (aesd_device m)"
  have wf: "ring_wf ?b" and dist: "distinct (entry_ptrs (entry ?b))" using inv by (simp_all add: drv_inv_def owned_def)
  have len: "length (entry ?b) = 10" using wf by (simp add: ring_wf_def)
  then have in_ptrs: "p \<in> set (entry_ptrs (entry ?b))" if "buffptr (entry ?b ! i) = Some p" for p
    using that i nth_mem[of i "entry ?b"] by (auto simp: in_entry_ptrs)
  consider (same) "ring (aesd_device m') = ?b" "keeps_slots None m m'"
    | (stored) e out where "aesd_circular_buffer_add_entry ?b e = Inr (ring (aesd_device m'), out)" "keeps_slots (buffptr out) m m'"
    using w by (auto simp: write_effect_def)
  note cs = this
  have "entry (ring (aesd_device m')) ! i = entry ?b ! i \<and> entry_data (kheap m') (entry ?b ! i) = entry_data (kheap m) (entry ?b ! i) \<and>
      store_count m m' + stores_left (ring (aesd_device m')) i = stores_left ?b i"
  proof (cases rule: cs)
    case same
    then show ?thesis using in_ptrs by (auto simp: store_count_def keeps_slots_def intro!: entry_data_cong)
  next
    case stored
    then have c: "store_count m m' = 1" using add_entry_changes[OF wf] by (simp add: store_count_def)
    then have k: "unat (in_offs ?b) \<noteq> i" "entry (ring (aesd_device m')) ! i = entry ?b ! i"
      "Suc (stores_left (ring (aesd_device m')) i) = stores_left ?b i"
      using add_entry_keeps_slot[OF wf stored(1) i] room by simp_all
    have "buffptr out \<noteq> Some p" if p: "buffptr (entry ?b ! i) = Some p" for p
    proof -
      have "buffptr (entry ?b ! unat (in_offs ?b)) \<noteq> Some p"
        using distinct_slots[OF dist, of i "unat (in_offs ?b)" p] distinct_slots[OF dist, of "unat (in_offs ?b)" i p]
          k(1) p i len add_entry_slots(3)[OF wf stored(1)] by (metis linorder_neqE_nat)
      then show ?thesis using add_entry_slots(2)[OF wf stored(1)] by (simp add: zero_entry_def)
    qed
    then have "entry_data (kheap m') (entry ?b ! i) = entry_data (kheap m) (entry ?b ! i)"
      using stored(2) in_ptrs by (intro entry_data_cong) (auto simp: keeps_slots_def)
    then show ?thesis using k c by simp
  qed
  then show "entry (ring (aesd_device m')) ! i = entry ?b ! i"
    "entry_data (kheap m') (entry ?b ! i) = entry_data (kheap m) (entry ?b ! i)"
    "store_count m m' + stores_left (ring (aesd_device m')) i = stores_left ?b i" by simp_all
qed

section \<open>A reader within its window\<close>

text \<open>
  Where a read of entry \<open>e\<close> in slot \<open>i\<close>, with a buffer of \<open>n\<close> bytes and from position \<open>pos\<close>, can be when
  the slot still holds that entry.
\<close>

definition sized :: "aesd_buffer_entry \<Rightarrow> u64 \<Rightarrow> u64 \<Rightarrow> reader \<Rightarrow> bool" where
  "sized e n pos k \<longleftrightarrow> rret k = min n (ent_size e) \<and> rpos k = pos + min n (ent_size e)"

definition delivered_line :: "byte list \<Rightarrow> u64 \<Rightarrow> u64 \<Rightarrow> reader \<Rightarrow> bool" where
  "delivered_line line n pos k \<longleftrightarrow>
     (\<exists>left :: u64. rbytes k = take (length line - unat left) line \<and>
        rret k = (if left \<noteq> 0 then - EFAULT else min n (word_of_nat (length line)))) \<and>
     rpos k = pos + min n (word_of_nat (length line))"

fun reading :: "nat \<Rightarrow> aesd_buffer_entry \<Rightarrow> byte list \<Rightarrow> u64 \<Rightarrow> u64 \<Rightarrow> reader \<Rightarrow> reader_pc \<Rightarrow> bool" where
  "reading i e line n pos k (Read_sizing j) \<longleftrightarrow> j = i \<and> rcount k = n \<and> rpos k = pos"
| "reading i e line n pos k (Read_printing j) \<longleftrightarrow> j = i \<and> sized e n pos k"
| "reading i e line n pos k (Read_string j p) \<longleftrightarrow> j = i \<and> p = buffptr e \<and> sized e n pos k"
| "reading i e line n pos k (Read_passing j) \<longleftrightarrow> j = i \<and> sized e n pos k"
| "reading i e line n pos k (Read_copying p sz) \<longleftrightarrow> p = buffptr e \<and> sz = ent_size e \<and> sized e n pos k"
| "reading i e line n pos k Read_returned \<longleftrightarrow> delivered_line line n pos k"
| "reading i e line n pos k _ \<longleftrightarrow> False"

definition slot_holds :: "'sem module \<Rightarrow> nat \<Rightarrow> aesd_buffer_entry \<Rightarrow> byte list \<Rightarrow> bool" where
  "slot_holds m i e line \<longleftrightarrow> drv_inv m \<and> i < 10 \<and> entry (ring (aesd_device m)) ! i = e \<and>
     0 < entry_bytes e \<and> entry_data (kheap m) e = line"

text \<open>The accesses that follow the lookup do not fail and stay on course.\<close>

lemma slot_holds_reads:
  assumes "slot_holds m i e line"
  shows "read_slot m i = Inr e" "\<exists>str. pdebug_str (kheap m) (buffptr e) = Inr str"
    "block_read (kheap m) (buffptr e) (unat (ent_size e)) = Inr line" "length line = unat (ent_size e)"
proof -
  have len: "length (entry (ring (aesd_device m))) = 10" and ok: "slot_ok (kheap m) e"
    using assms drv_inv_slot[of m e] nth_mem[of i "entry (ring (aesd_device m))"]
    by (auto simp: slot_holds_def drv_inv_def ring_wf_def)
  obtain a bs where a: "buffptr e = Some a" "kheap m a = Some bs" "entry_bytes e \<le> length bs" "NUL \<in> set bs"
    using slot_ok_nonempty[OF ok] assms by (auto simp: slot_holds_def)
  then show "read_slot m i = Inr e" "\<exists>str. pdebug_str (kheap m) (buffptr e) = Inr str"
    "block_read (kheap m) (buffptr e) (unat (ent_size e)) = Inr line" "length line = unat (ent_size e)"
    using assms len by (auto simp: read_slot_def pdebug_str_def block_read_def slot_holds_def entry_data_def entry_bytes_def)
qed

lemma reading_next:
  assumes h: "slot_holds m i e line" and r: "reading i e line n pos k (rpc k)"
    and s: "read_next K m k (rpc k) = Some step"
  shows "\<exists>k'. step = Inr (m, k') \<and> reading i e line n pos k' (rpc k') \<and> reset_count k k' = 0"
proof -
  note sl = slot_holds_reads[OF h]
  have w: "word_of_nat (length line) = ent_size e" using sl(4) by simp
  obtain str where str: "pdebug_str (kheap m) (buffptr e) = Inr str" using sl(2) ..
  show ?thesis
  proof (cases "rpc k")
    case (Read_copying p sz)
    then have "step = Inr (m, k\<lparr>rbytes := take (length line - unat (copy_to_user K line sz)) line,
        rret := (if copy_to_user K line sz \<noteq> 0 then - EFAULT else rret k), rpc := Read_returned\<rparr>)"
      using s r sl by (simp add: read_copy_def Let_def)
    then show ?thesis using Read_copying r w by (auto simp: reset_count_def delivered_line_def sized_def)
  qed (use r s sl str in \<open>auto simp: read_size_def read_print_def sized_def min_def reset_count_def Let_def\<close>)
qed

text \<open>A lookup that does not miss changes nothing but the semaphore.\<close>

lemma lookup_keeps:
  assumes inv: "drv_inv m" and l: "read_lookup K m k = Inr (m', k')" and c: "rpc k = Read_call" "reset_count k k' = 0"
  shows "ring (aesd_device m') = ring (aesd_device m)" "kheap m' = kheap m" "drv_inv m'"
proof -
  have wf: "ring_wf (ring (aesd_device m))" using inv by (simp add: drv_inv_def)
  obtain s where "m' = m\<lparr>aesd_device := (aesd_device m)\<lparr>sem := s\<rparr>\<rparr>"
  proof -
    obtain got s1 where lock: "down_read_trylock K (sem (aesd_device m)) = (got, s1)" by fastforce
    have pd: "private_data (rfile k) = Some Aesd_device"
      using l by (auto simp: read_lookup_def split: option.splits dev_ref.splits)
    consider "m' = m\<lparr>aesd_device := (aesd_device m)\<lparr>sem := s1\<rparr>\<rparr>"
      | b r where "aesd_circular_buffer_find_entry_offset_for_fpos (ring (aesd_device m)) (rpos k) = Inr (b, r)"
          "m' = m\<lparr>aesd_device := (aesd_device m)\<lparr>ring := b, sem := up_read K s1\<rparr>\<rparr>"
          "k' = (case r of None \<Rightarrow> k\<lparr>rret := 0, rpc := Read_returned\<rparr> | Some (i, x) \<Rightarrow> k\<lparr>rpc := Read_sizing i\<rparr>)"
      using l lock pd by (auto simp: read_lookup_def Let_def bindE_eq_Inr split: if_splits)
    then show thesis
    proof cases
      case 2
      then obtain i off where "r = Some (i, off)" using c by (cases r) (auto simp: reset_count_def)
      then have "b = ring (aesd_device m)" using find_in_range(1)[OF wf] 2(1) by blast
      then show thesis using that[of "up_read K s1"] 2(2) by simp
    qed (rule that)
  qed
  then show "ring (aesd_device m') = ring (aesd_device m)" "kheap m' = kheap m" "drv_inv m'" using inv by simp_all
qed

lemma read_next_keeps:
  assumes "drv_inv m" "read_next K m k (rpc k) = Some (Inr (m', k'))" "reset_count k k' = 0"
  shows "ring (aesd_device m') = ring (aesd_device m) \<and> kheap m' = kheap m \<and> drv_inv m'"
proof (cases "rpc k = Read_call")
  case True
  then show ?thesis using lookup_keeps[OF assms(1)] assms(2,3) by auto
next
  case False
  then have "m' = m" using assms(2) by (cases "rpc k") (auto simp: bindE_eq_Inr)
  then show ?thesis using assms(1) by simp
qed

definition window :: "nat \<Rightarrow> aesd_buffer_entry \<Rightarrow> byte list \<Rightarrow> u64 \<Rightarrow> u64 \<Rightarrow> nat \<Rightarrow> nat \<Rightarrow> nat \<Rightarrow> 'sem device_run \<Rightarrow> bool" where
  "window i e line n pos r resets limit d \<longleftrightarrow> slot_holds (module_of d) i e line \<and>
     reading i e line n pos (readers d r) (rpc (readers d r)) \<and> ring_resets d = resets \<and>
     ring_stores d + stores_left (ring (aesd_device (module_of d))) i = limit"

lemma counters_mono: "device_step d d' \<Longrightarrow> ring_stores d \<le> ring_stores d' \<and> ring_resets d \<le> ring_resets d'"
  by (cases rule: device_step.cases) auto

lemma window_step:
  assumes "device_step d d'" "window i e line n pos r resets limit d" "ring_resets d' = resets" "ring_stores d' \<le> limit"
  shows "window i e line n pos r resets limit d'"
  using assms
proof (induction rule: device_step.induct)
  case (reader_step k d r' K m k')
  have w: "slot_holds (module_of d) i e line" "drv_inv (module_of d)"
    "reading i e line n pos (readers d r) (rpc (readers d r))" "reset_count k k' = 0"
    using reader_step.prems by (simp_all add: window_def slot_holds_def)
  have keep: "ring (aesd_device m) = ring (aesd_device (module_of d))" "kheap m = kheap (module_of d)" "drv_inv m"
    using read_next_keeps[OF w(2) reader_step.hyps(2) w(4)] by blast+
  have "slot_holds m i e line" using w(1) keep by (simp add: slot_holds_def)
  moreover have "reading i e line n pos k' (rpc k')" if "r' = r"
    using reading_next[OF w(1)] w(3) reader_step.hyps that by blast
  ultimately show ?case using reader_step.prems(1) w(3,4) keep(1) by (simp add: window_def)
next
  case (reader_faults k d r' K x)
  have "r' \<noteq> r"
    using reading_next[of "module_of d" i e line n pos k K] reader_faults by (auto simp: window_def)
  then show ?case using reader_faults.prems by (simp add: window_def)
next
  case (write_call K buf count d filp m ret)
  have inv: "drv_inv (module_of d)" "i < 10" "entry (ring (aesd_device (module_of d))) ! i = e"
    using write_call.prems(1) by (simp_all add: window_def slot_holds_def)
  have eff: "write_effect (module_of d) m" "drv_inv m"
    using write_effect_call[OF inv(1) write_call.hyps] write_inv[OF inv(1) write_call.hyps(1,3,2)] by simp_all
  have room: "store_count (module_of d) m \<le> stores_left (ring (aesd_device (module_of d))) i"
    using write_call.prems by (simp add: window_def)
  note keep = write_keeps_slot[OF inv(1) eff(1) inv(2) room]
  have "slot_holds m i e line"
    using write_call.prems(1) keep(1,2) eff(2) inv(3) by (simp add: window_def slot_holds_def)
  then show ?case using write_call.prems(1) keep(3) by (simp add: window_def)
qed

lemma window_run:
  assumes "device_step\<^sup>*\<^sup>* d d'" "window i e line n pos r resets limit d" "ring_resets d' = resets" "ring_stores d' \<le> limit"
  shows "window i e line n pos r resets limit d'"
  using assms
proof (induction rule: rtranclp_induct)
  case (step y z)
  have "ring_resets d \<le> ring_resets y" using step.hyps(1) by (induction rule: rtranclp_induct) (use counters_mono in fastforce)+
  moreover have "ring_resets y \<le> ring_resets z" "ring_stores y \<le> ring_stores z" using counters_mono[OF step.hyps(2)] by simp_all
  ultimately have "window i e line n pos r resets limit y"
    using step.IH step.prems by (simp add: window_def)
  then show ?case using window_step[OF step.hyps(2)] step.prems by blast
qed simp

text \<open>The slot and the entry that a lookup inside the stored lines finds.\<close>

lemma find_live:
  assumes clean: "ring_clean b" and loc: "locate entry_bytes (live b) (unat c) = Some (k, off)"
  shows "\<exists>x. aesd_circular_buffer_find_entry_offset_for_fpos b c = Inr (b, Some ((unat (out_offs b) + k) mod 10, x))"
    "entry b ! ((unat (out_offs b) + k) mod 10) = live b ! k" "k < live_count b"
proof -
  have wf: "ring_wf b" using clean by (rule ring_clean_wf)
  show k: "k < live_count b" using loc wf by (simp add: locate_Some_iff)
  have "locate entry_bytes (scan b) (unat c) = locate entry_bytes (live b) (unat c)"
    unfolding scan_clean[OF clean] by (rule locate_append_empty) (simp add: entry_bytes_def zero_entry_def)
  then show "\<exists>x. aesd_circular_buffer_find_entry_offset_for_fpos b c = Inr (b, Some ((unat (out_offs b) + k) mod 10, x))"
    using find_entry_wf[OF wf, of c] loc by simp
  have "k < 10" using k live_count_le[of b] by simp
  then show "entry b ! ((unat (out_offs b) + k) mod 10) = live b ! k"
    using scan_nth[OF wf, of k] k by (simp add: live_def)
qed

lemma lookup_opens_window:
  assumes inv: "drv_inv m" and clean: "ring_clean (ring (aesd_device m))"
    and k: "k < length (history m)" "off < length (history m ! k)"
    and pos: "unat (rpos k0) = length (concat (take k (history m))) + off"
    and l: "read_lookup K m k0 = Inr (m1, k1)" "rpc k1 \<noteq> Read_returned"
    and d1: "module_of d1 = m1" "readers d1 r = k1"
  defines "i \<equiv> (unat (out_offs (ring (aesd_device m))) + k) mod 10"
  shows "window i (live (ring (aesd_device m)) ! k) (history m ! k) (rcount k0) (rpos k0) r (ring_resets d1)
    (ring_stores d1 + (10 - length (history m) + k)) d1"
proof -
  let ?b = "ring (aesd_device m)"
  have wf: "ring_wf ?b" using clean by (rule ring_clean_wf)
  note sizes = history_sizes[OF inv]
  have loc: "locate entry_bytes (live ?b) (unat (rpos k0)) = Some (k, off)"
    using k pos sizes(1)[of k] sizes(2)[of k] by (simp add: locate_Some_iff)
  note find = find_live[OF clean loc, folded i_def]
  obtain got s1 where lock: "down_read_trylock K (sem (aesd_device m)) = (got, s1)" by fastforce
  have pd: "private_data (rfile k0) = Some Aesd_device"
    using l by (auto simp: read_lookup_def split: option.splits dev_ref.splits)
  have m1: "m1 = m\<lparr>aesd_device := (aesd_device m)\<lparr>sem := up_read K s1\<rparr>\<rparr>" "k1 = k0\<lparr>rpc := Read_sizing i\<rparr>"
    using l lock pd find(1) by (auto simp: read_lookup_def Let_def split: if_splits)
  have "slot_holds m1 i (live ?b ! k) (history m ! k)"
    using inv find k sizes(1)[of k] unfolding m1(1) slot_holds_def by (auto simp: history_def i_def)
  moreover have "stores_left ?b i = 10 - length (history m) + k"
    using stores_left_live[OF wf find(3)] wf by (simp add: i_def)
  ultimately show ?thesis using m1 d1 by (simp add: window_def)
qed

section \<open>Runs of one reader\<close>

fun accesses_left :: "reader_pc \<Rightarrow> nat" where
  "accesses_left Read_call = 6" | "accesses_left (Read_sizing i) = 5" | "accesses_left (Read_printing i) = 4"
| "accesses_left (Read_string i p) = 3" | "accesses_left (Read_passing i) = 2" | "accesses_left (Read_copying p n) = 1"
| "accesses_left Read_returned = 0" | "accesses_left (Read_faulted e) = 0"

lemma read_next_decreases:
  assumes "read_next K m k (rpc k) = Some (Inr (m', k'))"
  shows "accesses_left (rpc k') < accesses_left (rpc k)" "\<forall>e. rpc k' \<noteq> Read_faulted e"
proof -
  have "accesses_left (rpc k') < accesses_left (rpc k) \<and> (\<forall>e. rpc k' \<noteq> Read_faulted e)"
  proof (cases "rpc k")
    case Read_call
    obtain got s1 where lock: "down_read_trylock K (sem (aesd_device m)) = (got, s1)" by fastforce
    have "rpc k' = Read_returned \<or> (\<exists>i. rpc k' = Read_sizing i)"
      using assms Read_call lock
      by (auto simp: read_lookup_def Let_def bindE_eq_Inr split: option.splits dev_ref.splits if_splits)
    then show ?thesis using Read_call by auto
  qed (use assms in \<open>auto simp: bindE_eq_Inr read_size_def read_print_def read_copy_def Let_def\<close>)
  then show "accesses_left (rpc k') < accesses_left (rpc k)" "\<forall>e. rpc k' \<noteq> Read_faulted e" by blast+
qed

lemma read_rest_run:
  assumes "accesses_left (rpc (readers d r)) \<le> n" "\<forall>e. rpc (readers d r) \<noteq> Read_faulted e"
  shows "\<exists>d'. device_step\<^sup>*\<^sup>* d d' \<and> ring_stores d' = ring_stores d \<and>
    (rpc (readers d r) \<noteq> Read_call \<longrightarrow> ring_resets d' = ring_resets d) \<and>
    (case read_rest n K (module_of d) (readers d r) of
       Inl e \<Rightarrow> rpc (readers d' r) = Read_faulted e
     | Inr (m, k) \<Rightarrow> module_of d' = m \<and> readers d' r = k \<and> rpc k = Read_returned)"
  using assms
proof (induction n arbitrary: d)
  case 0
  then have "rpc (readers d r) = Read_returned" by (cases "rpc (readers d r)") auto
  then show ?case by auto
next
  case (Suc n)
  let ?k = "readers d r"
  show ?case
  proof (cases "read_next K (module_of d) ?k (rpc ?k)")
    case None
    then have "rpc ?k = Read_returned" using Suc.prems(2) by (cases "rpc ?k") auto
    then show ?thesis by auto
  next
    case (Some step)
    show ?thesis
    proof (cases step)
      case (Inl e)
      have "device_step d (d\<lparr>readers := (readers d)(r := ?k\<lparr>rpc := Read_faulted e\<rparr>)\<rparr>)"
        using device_step.reader_faults[OF refl] Some Inl by blast
      then show ?thesis using Some Inl by (auto intro!: exI r_into_rtranclp)
    next
      case (Inr mk)
      then obtain m k' where nx: "read_next K (module_of d) ?k (rpc ?k) = Some (Inr (m, k'))" using Some by (cases mk) auto
      let ?d = "d\<lparr>module_of := m, readers := (readers d)(r := k'), ring_resets := ring_resets d + reset_count ?k k'\<rparr>"
      have step: "device_step d ?d" using device_step.reader_step[OF refl nx] .
      have call: "rpc k' \<noteq> Read_call" using read_next_decreases(1)[OF nx] by (cases "rpc ?k") auto
      obtain d' where d': "device_step\<^sup>*\<^sup>* ?d d'" "ring_stores d' = ring_stores d"
        "ring_resets d' = ring_resets d + reset_count ?k k'"
        "case read_rest n K m k' of Inl e \<Rightarrow> rpc (readers d' r) = Read_faulted e
         | Inr (m, k) \<Rightarrow> module_of d' = m \<and> readers d' r = k \<and> rpc k = Read_returned"
        using Suc.IH[of ?d] read_next_decreases[OF nx] Suc.prems(1) call by auto
      show ?thesis using converse_rtranclp_into_rtranclp[of device_step, OF step d'(1)] d'(2-4) nx by (auto simp: reset_count_def)
    qed
  qed
qed

section \<open>Properties\<close>

text \<open>A device with ten lines, and a reader of the first one.\<close>

definition sample_full :: "unit module" where
  "sample_full = sample_loaded\<lparr>kheap := (\<lambda>a. if a < 10 then Some (sample_line @ [NUL]) else None),
     aesd_device := (aesd_device sample_loaded)\<lparr>ring := \<lparr>entry = map (\<lambda>a. \<lparr>buffptr = Some a, ent_size = 3\<rparr>) [0..<10],
       in_offs = 0, out_offs = 0, full = True\<rparr>\<rparr>\<rparr>"

definition sample_reader :: reader where
  "sample_reader = \<lparr>rfile = sample_file, rcount = 10, rpos = 0, rret = 0, rbytes = [], rpc = Read_call\<rparr>"

definition sample_calls :: "unit module \<Rightarrow> reader \<Rightarrow> unit device_run" where
  "sample_calls m k = \<lparr>module_of = m, readers = (\<lambda>_. k), ring_stores = 0, ring_resets = 0\<rparr>"

lemma sample_full_ring:
  "ring_clean (ring (aesd_device sample_full))" "full (ring (aesd_device sample_full))"
  "in_offs (ring (aesd_device sample_full)) = 0"
  "entry (ring (aesd_device sample_full)) ! 0 = \<lparr>buffptr = Some 0, ent_size = 3\<rparr>"
  "entry_data (kheap sample_full) \<lparr>buffptr = Some 0, ent_size = 3\<rparr> = sample_line"
  "kmalloc sample_kernel (kheap sample_full) 3 = Some (10, replicate 4 NUL)"
  "history sample_full = replicate 10 sample_line"
  by code_simp+

lemma sample_full_inv: "drv_inv sample_full"
proof -
  have "ring_wf (ring (aesd_device sample_full))" using sample_full_ring(1) by (rule ring_clean_wf)
  moreover have "temp_char_buffer (aesd_device sample_full) = None" "distinct (owned sample_full)"
    "list_all (slot_ok (kheap sample_full)) (entry (ring (aesd_device sample_full)))" by code_simp+
  ultimately show ?thesis by (simp add: drv_inv_def temp_ok_def list_all_iff)
qed

lemma sample_full_granted: "write_granted sample_kernel sample_full sample_file sample_line 3 10 (replicate 4 NUL) ()"
  using sample_full_ring(6)
  by (simp add: write_granted_def sample_kmalloc_ok sample_file_def sample_line_def) (simp add: sample_kernel_def)

text \<open>
  (C17) A read that is not interrupted is the function: the accesses of a call that starts at its lookup,
  run one after the other, end with the result of \<open>aesd_read\<close>, or in the undefined behaviour that
  \<open>aesd_read\<close> has, and store no line.
\<close>

theorem read_runs_as_accesses:
  assumes "rpc (readers d r) = Read_call" "rbytes (readers d r) = []"
  shows "\<exists>d'. device_step\<^sup>*\<^sup>* d d' \<and> ring_stores d' = ring_stores d \<and>
    (case aesd_read K (module_of d) (rfile (readers d r)) (rcount (readers d r)) (rpos (readers d r)) of
       Inl e \<Rightarrow> rpc (readers d' r) = Read_faulted e
     | Inr (m, pos, bs, ret) \<Rightarrow> rpc (readers d' r) = Read_returned \<and> module_of d' = m \<and>
         rpos (readers d' r) = pos \<and> rbytes (readers d' r) = bs \<and> rret (readers d' r) = ret)"
proof -
  let ?r = "read_rest (Suc (Suc (Suc (Suc (Suc (Suc 0)))))) K (module_of d) (readers d r)"
  obtain d' where d': "device_step\<^sup>*\<^sup>* d d'" "ring_stores d' = ring_stores d"
    "case ?r of Inl e \<Rightarrow> rpc (readers d' r) = Read_faulted e
     | Inr (m, k) \<Rightarrow> module_of d' = m \<and> readers d' r = k \<and> rpc k = Read_returned"
    using read_rest_run[of d r "Suc (Suc (Suc (Suc (Suc (Suc 0)))))" K] assms(1) by (auto simp del: read_rest.simps)
  have "outcome ?r = aesd_read K (module_of d) (rfile (readers d r)) (rcount (readers d r)) (rpos (readers d r))"
    by (rule read_rest_outcome[OF assms])
  from this[symmetric] d'(3) show ?thesis
    by (intro exI[of _ d'] conjI d'(1,2)) (cases ?r, auto simp del: read_rest.simps)
qed

theorem read_runs_as_accesses_witness:
  "\<exists>d'. device_step\<^sup>*\<^sup>* (sample_calls sample_one sample_reader) d' \<and> rbytes (readers d' 5) = sample_line \<and> rret (readers d' 5) = 3"
proof -
  have "map_sum id snd (aesd_read sample_kernel sample_one sample_file 10 0) = Inr (3, sample_line, 3)" by code_simp
  then obtain m where "aesd_read sample_kernel sample_one sample_file 10 0 = Inr (m, 3, sample_line, 3)"
    by (cases "aesd_read sample_kernel sample_one sample_file 10 0") auto
  then show ?thesis using read_runs_as_accesses[of "sample_calls sample_one sample_reader" 5 sample_kernel]
    by (auto simp: sample_calls_def sample_reader_def)
qed

text \<open>
  (C5) A reader and concurrent calls: once a read has found the \<open>k\<close>-th line of a sound device with \<open>n\<close>
  lines, any number of other reads that do not end at the end of file, and writes that store up
  to \<open>10 - n + k\<close> lines, can run between its accesses. It does not fault, and when it returns it has
  stored the line it found from the first byte, up to where the copy to the user stopped, and
  returns the smaller of the two sizes, or \<open>-EFAULT\<close> after an incomplete copy.
\<close>

theorem reader_keeps_its_line:
  assumes "drv_inv m" "ring_clean (ring (aesd_device m))"
    and "k < length (history m)" "off < length (history m ! k)"
    and "unat (rpos k0) = length (concat (take k (history m))) + off"
    and "read_lookup K m k0 = Inr (m1, k1)" "rpc k1 \<noteq> Read_returned"
    and "module_of d1 = m1" "readers d1 r = k1"
    and "device_step\<^sup>*\<^sup>* d1 d" "ring_resets d = ring_resets d1"
    and "ring_stores d \<le> ring_stores d1 + (10 - length (history m) + k)"
  shows "(\<forall>e. rpc (readers d r) \<noteq> Read_faulted e) \<and>
    (rpc (readers d r) = Read_returned \<longrightarrow> delivered_line (history m ! k) (rcount k0) (rpos k0) (readers d r))"
proof -
  have "window ((unat (out_offs (ring (aesd_device m))) + k) mod 10) (live (ring (aesd_device m)) ! k) (history m ! k)
      (rcount k0) (rpos k0) r (ring_resets d1) (ring_stores d1 + (10 - length (history m) + k)) d"
    by (rule window_run[OF assms(10) lookup_opens_window[OF assms(1-9)] assms(11,12)])
  then show ?thesis by (auto simp: window_def)
qed

lemma sample_full_lookup:
  "read_lookup sample_kernel sample_full (sample_reader\<lparr>rpos := 9\<rparr>) =
     Inr (sample_full, sample_reader\<lparr>rpos := 9, rpc := Read_sizing 3\<rparr>)"
proof -
  have "aesd_circular_buffer_find_entry_offset_for_fpos (ring (aesd_device sample_full)) 9 =
      Inr (ring (aesd_device sample_full), Some (3, 0))" by code_simp
  moreover have "m\<lparr>aesd_device := (aesd_device m)\<lparr>ring := ring (aesd_device m), sem := s\<rparr>\<rparr> = m" for m :: "unit module" and s by simp
  ultimately show ?thesis by (simp add: read_lookup_def sample_reader_def sample_file_def sample_kernel_def)
qed

lemma sample_full_write:
  "\<exists>m. aesd_write sample_kernel sample_full sample_file sample_line 3 = Inr (m, 3) \<and> store_count sample_full m = 1"
proof -
  have wf: "ring_wf (ring (aesd_device sample_full))" using sample_full_ring(1) by (rule ring_clean_wf)
  obtain b out where add: "aesd_circular_buffer_add_entry (ring (aesd_device sample_full)) \<lparr>buffptr = Some 10, ent_size = 3\<rparr> = Inr (b, out)"
    using add_entry_total[OF wf] by blast
  show ?thesis
    using write_line_exact(1)[OF sample_full_inv sample_full_granted sample_is_line add] add_entry_changes[OF wf add]
    by (auto simp: store_count_def)
qed

theorem reader_keeps_its_line_witness:
  "\<exists>d. device_step\<^sup>*\<^sup>* (sample_calls sample_full (sample_reader\<lparr>rpos := 9, rpc := Read_sizing 3\<rparr>)) d \<and> ring_stores d = 1 \<and>
     rpc (readers d 5) = Read_returned \<and> delivered_line sample_line 10 9 (readers d 5)"
proof -
  let ?k1 = "sample_reader\<lparr>rpos := 9, rpc := Read_sizing 3\<rparr>"
  let ?d1 = "sample_calls sample_full ?k1"
  obtain m where w: "aesd_write sample_kernel sample_full sample_file sample_line 3 = Inr (m, 3)" "store_count sample_full m = 1"
    using sample_full_write by blast
  let ?d2 = "?d1\<lparr>module_of := m, ring_stores := 1\<rparr>"
  have s: "device_step ?d1 ?d2"
    using write_call[of sample_kernel sample_line 3 ?d1 sample_file m 3] w sample_kmalloc_ok
    by (simp add: sample_calls_def sample_line_def)
  obtain d where d: "device_step\<^sup>*\<^sup>* ?d2 d" "ring_stores d = 1" "ring_resets d = 0"
    "rpc (readers d 5) = Read_returned \<or> (\<exists>e. rpc (readers d 5) = Read_faulted e)"
    using read_rest_run[of ?d2 5 5 sample_kernel]
    by (cases "read_rest 5 sample_kernel m ?k1") (fastforce simp: sample_calls_def)+
  have run: "device_step\<^sup>*\<^sup>* ?d1 d" using s d(1) by (rule converse_rtranclp_into_rtranclp)
  have "(\<forall>e. rpc (readers d 5) \<noteq> Read_faulted e) \<and>
      (rpc (readers d 5) = Read_returned \<longrightarrow> delivered_line (history sample_full ! 3) 10 9 (readers d 5))"
    using reader_keeps_its_line[OF sample_full_inv sample_full_ring(1) _ _ _ sample_full_lookup _ _ _ run, of 3 0 5] d(2,3)
    by (simp add: sample_full_ring(7) sample_calls_def sample_reader_def sample_line_def length_concat sum_list_replicate)
  then show ?thesis using run d sample_full_ring(7) by (intro exI[of _ d]) auto
qed

text \<open>
  (C18) What the missing lock costs: while a read stands between its accesses to the oldest line of a
  full device, one granted write of a line takes the line away. If the read has already fetched
  the arguments of its copy, it then copies from the freed block; if it has only determined the
  size, it returns the size of the line it found and the bytes of the new one.
\<close>

theorem overwritten_line_is_lost:
  assumes "slot_holds (module_of d) i e line" "full (ring (aesd_device (module_of d)))"
    and "unat (in_offs (ring (aesd_device (module_of d)))) = i"
    and "write_granted K (module_of d) filp buf count a junk s1" "is_line buf junk" "copy_to_user K buf count = 0"
  shows "(rpc (readers d r) = Read_copying (buffptr e) (ent_size e) \<longrightarrow>
      (\<exists>d'. device_step\<^sup>*\<^sup>* d d' \<and> rpc (readers d' r) = Read_faulted Use_of_freed)) \<and>
    (rpc (readers d r) = Read_passing i \<longrightarrow>
      (\<exists>d'. device_step\<^sup>*\<^sup>* d d' \<and> rpc (readers d' r) = Read_returned \<and> rbytes (readers d' r) = buf \<and>
         rret (readers d' r) = rret (readers d r)))"
proof -
  let ?m = "module_of d" and ?b = "ring (aesd_device (module_of d))" and ?blk = "buf @ drop (length buf) junk"
  have h: "drv_inv ?m" "entry ?b ! i = e" "0 < entry_bytes e" "i < 10" using assms(1) by (simp_all add: slot_holds_def)
  have wf: "ring_wf ?b" using h(1) by (simp add: drv_inv_def)
  obtain b out where add: "aesd_circular_buffer_add_entry ?b \<lparr>buffptr = Some a, ent_size = count\<rparr> = Inr (b, out)"
    using add_entry_total[OF wf] by blast
  note slots = add_entry_slots[OF wf add] and exact = write_line_exact[OF h(1) assms(4,5) add]
  have out: "out = e" using slots(2) assms(2,3) h(2) by simp
  have "length (entry ?b) = 10" using wf by (simp add: ring_wf_def)
  then have "slot_ok (kheap ?m) e" using drv_inv_slot[OF h(1), of e] nth_mem[of i "entry ?b"] h(2,4) by simp
  then obtain p bs where p: "buffptr e = Some p" "kheap ?m p = Some bs" by (rule slot_ok_nonempty[OF _ h(3)])
  then have pa: "p \<noteq> a" using exact(3) by auto
  let ?h = "(kheap ?m)(a \<mapsto> ?blk, p := None)"
  let ?m' = "?m\<lparr>kheap := ?h, aesd_device := (aesd_device ?m)\<lparr>ring := b, sem := up_write K s1\<rparr>\<rparr>"
  have w: "aesd_write K ?m filp buf count = Inr (?m', count)" using exact(1) out p(1) by simp
  have cnt: "length buf = unat count" "kmalloc_ok K" using assms(4) by (simp_all add: write_granted_def)
  let ?d = "d\<lparr>module_of := ?m', ring_stores := ring_stores d + store_count ?m ?m'\<rparr>"
  have step: "device_step d ?d" by (rule write_call[OF cnt(2,1) w])
  have slot: "read_slot ?m' i = Inr \<lparr>buffptr = Some a, ent_size = count\<rparr>"
    using slots(1,3) assms(3) by (simp add: read_slot_def)
  have rd: "block_read ?h (Some p) n = Inl Use_of_freed" "block_read ?h (Some a) (unat count) = Inr buf" for n
    using cnt(1) pa by (simp_all add: block_read_def block_def)
  have tk: "take (unat count) buf = buf" using cnt(1) by simp
  show ?thesis
  proof (intro conjI impI)
    assume pc: "rpc (readers d r) = Read_copying (buffptr e) (ent_size e)"
    let ?d1 = "?d\<lparr>readers := (readers ?d)(r := (readers ?d r)\<lparr>rpc := Read_faulted Use_of_freed\<rparr>)\<rparr>"
    have "device_step ?d ?d1"
      by (rule reader_faults[OF refl]) (simp add: pc p(1) read_copy_def rd del: fun_upd_apply)
    then have "device_step\<^sup>*\<^sup>* d ?d1" using step by (meson converse_rtranclp_into_rtranclp r_into_rtranclp)
    then show "\<exists>d'. device_step\<^sup>*\<^sup>* d d' \<and> rpc (readers d' r) = Read_faulted Use_of_freed"
      by (intro exI[of _ ?d1]) simp
  next
    assume pc: "rpc (readers d r) = Read_passing i"
    let ?k1 = "(readers d r)\<lparr>rpc := Read_copying (Some a) count\<rparr>"
    let ?k2 = "?k1\<lparr>rbytes := buf, rpc := Read_returned\<rparr>"
    let ?d1 = "?d\<lparr>module_of := ?m', readers := (readers ?d)(r := ?k1), ring_resets := ring_resets ?d + reset_count (readers ?d r) ?k1\<rparr>"
    let ?d2 = "?d1\<lparr>module_of := ?m', readers := (readers ?d1)(r := ?k2), ring_resets := ring_resets ?d1 + reset_count (readers ?d1 r) ?k2\<rparr>"
    have "device_step ?d ?d1" by (rule reader_step[OF refl, where K = K]) (simp add: pc slot del: fun_upd_apply)
    moreover have "device_step ?d1 ?d2"
      by (rule reader_step[OF refl, where K = K]) (simp add: read_copy_def rd assms(6) Let_def tk fun_upd_same del: fun_upd_apply)
    ultimately have "device_step\<^sup>*\<^sup>* d ?d2" using step by (meson converse_rtranclp_into_rtranclp r_into_rtranclp)
    then show "\<exists>d'. device_step\<^sup>*\<^sup>* d d' \<and> rpc (readers d' r) = Read_returned \<and> rbytes (readers d' r) = buf \<and>
        rret (readers d' r) = rret (readers d r)" by (intro exI[of _ ?d2]) simp
  qed
qed

theorem overwritten_line_is_lost_witness:
  "\<exists>d'. device_step\<^sup>*\<^sup>* (sample_calls sample_full (sample_reader\<lparr>rpc := Read_copying (Some 0) 3\<rparr>)) d' \<and> rpc (readers d' 5) = Read_faulted Use_of_freed"
proof -
  let ?d = "sample_calls sample_full (sample_reader\<lparr>rpc := Read_copying (Some 0) 3\<rparr>)"
  have "slot_holds (module_of ?d) 0 \<lparr>buffptr = Some 0, ent_size = 3\<rparr> sample_line"
    using sample_full_inv sample_full_ring(4,5) by (simp add: slot_holds_def sample_calls_def entry_bytes_def)
  then show ?thesis
    using overwritten_line_is_lost[of ?d 0 "\<lparr>buffptr = Some 0, ent_size = 3\<rparr>" sample_line sample_kernel sample_file
        sample_line 3 10 "replicate 4 NUL" "()" 5] sample_full_ring(2,3) sample_full_granted sample_is_line sample_reads_granted
    by (simp add: sample_calls_def reads_granted_def)
qed

end
