(* ===== verification/Socket_Thread.thy ===== *)
theory Socket_Thread
  imports AESD_Prelude
begin

text \<open>
  The thread that serves one client (\<open>server/src/aesdsocket_thread.c\<close>) and the thread that
  appends timestamps (\<open>server/src/timer_thread.c\<close>). The answers of the calls a thread makes
  are inputs: one element of a list per round of the receive loop, with the value that
  \<open>EXIT_SIGNAL\<close> has when the loop condition is evaluated and the answer of \<open>recv\<close>. When the list
  is used up, the thread is waiting in \<open>recv\<close>. The output file is a stream with bytes already
  on disk and bytes still in the buffer of the C library.
\<close>

section \<open>Data\<close>

definition BUFLEN :: nat where "BUFLEN = 128"

definition INET_ADDRSTRLEN :: nat where "INET_ADDRSTRLEN = 16"

record thread_data =
  thread_exit :: bool
  fd_accept :: int
  client_address :: "byte list"

record stream =
  on_disk :: "byte list"
  pending :: "byte list"

text \<open>Log lines of the threads, from \<open>printf\<close> and \<open>syslog\<close>.\<close>

datatype message =
    Accepted_connection "byte list"
  | Recv_failed_message
  | Sent_back_message
  | Timer_message

text \<open>What the threads share: the mutex, the stream, the connections and the log.\<close>

record server_io =
  locked :: bool
  fp :: stream
  delivered :: "int \<Rightarrow> byte list"
  fd_open :: "int \<Rightarrow> bool"
  messages :: "message list"

text \<open>
  Answers that do not depend on the state: how much of a full buffer the C library writes out
  early, whether the file can be opened for reading, and whether a \<open>send\<close> is accepted.
\<close>

record libc_env =
  spill :: "nat \<Rightarrow> nat"
  reopen_ok :: bool
  send_ok :: "nat \<Rightarrow> bool"

datatype recv_answer = Recv_error | Received "byte list"

datatype thread_end = Waits_for_mutex | Waits_in_recv | Thread_exited

section \<open>The C library\<close>

definition contents :: "stream \<Rightarrow> byte list" where
  "contents st = on_disk st @ pending st"

definition fwrite :: "libc_env \<Rightarrow> byte list \<Rightarrow> server_io \<Rightarrow> server_io" where
  "fwrite env bs io =
     (let p = pending (fp io) @ bs; k = spill env (length p) in
      io\<lparr>fp := \<lparr>on_disk = on_disk (fp io) @ take k p, pending = drop k p\<rparr>\<rparr>)"

definition fflush :: "server_io \<Rightarrow> server_io" where
  "fflush io = io\<lparr>fp := \<lparr>on_disk = contents (fp io), pending = []\<rparr>\<rparr>"

definition log_message :: "message \<Rightarrow> server_io \<Rightarrow> server_io" where
  "log_message m io = io\<lparr>messages := messages io @ [m]\<rparr>"

text \<open>\<open>strchr\<close> on a NUL-terminated string.\<close>

definition c_strchr :: "byte list \<Rightarrow> byte \<Rightarrow> bool res" where
  "c_strchr bs c = bindE (c_str bs) (\<lambda>s. Inr (c \<in> set s))"

text \<open>
  \<open>recv(fd, buf, BUFLEN-1, 0)\<close> stores what it received at the start of the buffer. It never delivers
  more bytes than it was asked for; an answer that breaks this is treated like a store outside
  the buffer.
\<close>

definition recv_into :: "byte list \<Rightarrow> byte list \<Rightarrow> byte list res" where
  "recv_into buf bs =
     (if length bs \<le> BUFLEN - 1 \<and> length bs \<le> length buf then Inr (bs @ drop (length bs) buf) else Inl Out_of_bounds)"

section \<open>Sending the file back\<close>

text \<open>One \<open>send\<close> per byte that \<open>fgetc\<close> delivers; refused bytes are skipped. \<open>SIGPIPE\<close> is not modelled.\<close>

fun send_bytes :: "(nat \<Rightarrow> bool) \<Rightarrow> nat \<Rightarrow> byte list \<Rightarrow> byte list" where
  "send_bytes ok n [] = []"
| "send_bytes ok n (ch # rest) = (if ok n then [ch] else []) @ send_bytes ok (Suc n) rest"

definition send_file_to_client :: "libc_env \<Rightarrow> int \<Rightarrow> server_io \<Rightarrow> server_io res" where
  "send_file_to_client env fd io =
     (if \<not> reopen_ok env then Inl Null_deref
      else Inr (io\<lparr>delivered := (delivered io)
        (fd := delivered io fd @ send_bytes (send_ok env) 0 (on_disk (fp io)))\<rparr>))"

section \<open>Client addresses\<close>

datatype sockaddr = Sockaddr_in "byte list" | Sockaddr_in6 "byte list"

datatype address_family = AF_INET | AF_INET6

definition sa_family :: "sockaddr \<Rightarrow> address_family" where
  "sa_family sa = (case sa of Sockaddr_in _ \<Rightarrow> AF_INET | Sockaddr_in6 _ \<Rightarrow> AF_INET6)"

definition address_bytes :: "sockaddr \<Rightarrow> byte list" where
  "address_bytes sa = (case sa of Sockaddr_in bs \<Rightarrow> bs | Sockaddr_in6 bs \<Rightarrow> bs)"

text \<open>
  \<open>inet_ntop\<close> stores the text form and a NUL when they fit into \<open>sz\<close> bytes and nothing
  otherwise; \<open>ntop\<close> gives the text form of an address.
\<close>

definition inet_ntop ::
  "(address_family \<Rightarrow> byte list \<Rightarrow> byte list) \<Rightarrow> address_family \<Rightarrow> byte list \<Rightarrow> byte list \<Rightarrow> nat \<Rightarrow> byte list res" where
  "inet_ntop ntop af src dst sz =
     (let txt = ntop af src in
      if sz \<le> length txt then Inr dst
      else if length txt < length dst then Inr (txt @ NUL # drop (Suc (length txt)) dst)
      else Inl Out_of_bounds)"

definition get_client_info ::
  "(address_family \<Rightarrow> byte list \<Rightarrow> byte list) \<Rightarrow> sockaddr \<Rightarrow> nat \<Rightarrow> byte list \<Rightarrow> byte list res" where
  "get_client_info ntop p_sockaddr sz address_buf =
     (if sa_family p_sockaddr = AF_INET
      then inet_ntop ntop AF_INET (address_bytes p_sockaddr) address_buf sz
      else inet_ntop ntop AF_INET6 (address_bytes p_sockaddr) address_buf sz)"

section \<open>Serving one client\<close>

datatype loop_end = Loop_waits | Loop_failed | Loop_left

fun recv_loop ::
  "libc_env \<Rightarrow> (bool \<times> recv_answer) list \<Rightarrow> byte list \<Rightarrow> server_io \<Rightarrow> (loop_end \<times> server_io) res" where
  "recv_loop env [] buf io = Inr (Loop_waits, io)"
| "recv_loop env ((EXIT_SIGNAL, answer) # rounds) buf io =
     (if EXIT_SIGNAL then Inr (Loop_left, io)
      else case answer of
        Recv_error \<Rightarrow> Inr (Loop_failed, log_message Recv_failed_message io)
      | Received bs \<Rightarrow>
          bindE (recv_into buf bs) (\<lambda>buf1.
          let io1 = fwrite env (take (length bs) buf1) io in
          bindE (c_strchr buf1 newline) (\<lambda>found.
            if found then Inr (Loop_left, fflush io1)
            else recv_loop env rounds buf1 io1)))"

text \<open>
  \<open>frame\<close> is the stack from the start of \<open>buf\<close> on, with the bytes it happens to hold; the array
  has its first \<open>BUFLEN\<close> bytes.
\<close>

definition thread_socket_receive ::
  "libc_env \<Rightarrow> byte list \<Rightarrow> (bool \<times> recv_answer) list \<Rightarrow> thread_data \<Rightarrow> server_io \<Rightarrow>
   (thread_end \<times> thread_data \<times> server_io) res" where
  "thread_socket_receive env frame rounds td io =
     bindE (c_str (client_address td)) (\<lambda>address.
     let io1 = log_message (Accepted_connection address) io in
      bindE (arr_set frame BUFLEN NUL) (\<lambda>buf.
      if locked io1 then Inr (Waits_for_mutex, td, io1)
      else
        bindE (recv_loop env rounds buf (io1\<lparr>locked := True\<rparr>)) (\<lambda>(e, io2).
        case e of
          Loop_waits \<Rightarrow> Inr (Waits_in_recv, td, io2)
        | Loop_failed \<Rightarrow> Inr (Thread_exited, td\<lparr>thread_exit := True\<rparr>, io2\<lparr>locked := False\<rparr>)
        | Loop_left \<Rightarrow>
            bindE (send_file_to_client env (fd_accept td) io2) (\<lambda>io3.
            let io4 = log_message Sent_back_message io3;
                io5 = io4\<lparr>fd_open := (fd_open io4)(fd_accept td := False)\<rparr>;
                io6 = io5\<lparr>locked := False\<rparr> in
            Inr (Thread_exited, td\<lparr>thread_exit := True\<rparr>, io6)))))"

section \<open>Timestamps\<close>

text \<open>
  \<open>strftime\<close> stores the text and a NUL and returns its length when they fit, and returns zero
  otherwise; \<open>stamp\<close> is the text for the current time.
\<close>

definition strftime :: "byte list \<Rightarrow> nat \<Rightarrow> byte list \<Rightarrow> (nat \<times> byte list) res" where
  "strftime buf sz stamp =
     (if sz \<le> length stamp then Inr (0, buf)
      else if length stamp < length buf then Inr (length stamp, stamp @ NUL # drop (Suc (length stamp)) buf)
      else Inl Out_of_bounds)"

definition timer_thread ::
  "libc_env \<Rightarrow> byte list \<Rightarrow> byte list \<Rightarrow> server_io \<Rightarrow> (thread_end \<times> server_io) res" where
  "timer_thread env frame stamp io =
     (if locked io then Inr (Waits_for_mutex, io)
      else
        let io1 = io\<lparr>locked := True\<rparr> in
        bindE (arr_set frame BUFLEN NUL) (\<lambda>buf.
        bindE (strftime buf BUFLEN stamp) (\<lambda>(timestamp_length, buf1).
        let io2 = fwrite env (take timestamp_length buf1) io1;
            io3 = log_message Timer_message io2 in
        Inr (Thread_exited, io3\<lparr>locked := False\<rparr>))))"

section \<open>Lemmas\<close>

lemma contents_fwrite [simp]: "contents (fp (fwrite env bs io)) = contents (fp io) @ bs"
  by (simp add: fwrite_def contents_def Let_def del: take_append drop_append)

lemma fwrite_frame [simp]:
  "locked (fwrite env bs io) = locked io" "delivered (fwrite env bs io) = delivered io"
  "fd_open (fwrite env bs io) = fd_open io" "messages (fwrite env bs io) = messages io"
  by (simp_all add: fwrite_def Let_def)

lemma fflush_simps [simp]:
  "locked (fflush io) = locked io" "delivered (fflush io) = delivered io"
  "fd_open (fflush io) = fd_open io" "messages (fflush io) = messages io"
  "on_disk (fp (fflush io)) = contents (fp io)" "pending (fp (fflush io)) = []"
  "contents (fp (fflush io)) = contents (fp io)"
  by (simp_all add: fflush_def contents_def)

lemma log_message_simps [simp]:
  "locked (log_message m io) = locked io" "fp (log_message m io) = fp io"
  "delivered (log_message m io) = delivered io" "fd_open (log_message m io) = fd_open io"
  by (simp_all add: log_message_def)

lemma send_bytes_all: "(\<And>i. ok i) \<Longrightarrow> send_bytes ok n bs = bs"
  by (induction bs arbitrary: n) auto

text \<open>A received buffer ends with the NUL the thread stored behind the array.\<close>

definition terminated :: "byte list \<Rightarrow> bool" where
  "terminated buf \<longleftrightarrow> BUFLEN < length buf \<and> buf ! BUFLEN = NUL"

lemma recv_into_fits:
  assumes "terminated buf" "length bs < BUFLEN"
  shows "recv_into buf bs = Inr (bs @ drop (length bs) buf)" "terminated (bs @ drop (length bs) buf)"
  using assms by (auto simp: recv_into_def terminated_def nth_append BUFLEN_def)

lemma terminated_strchr:
  "terminated buf \<Longrightarrow> c_strchr buf c = Inr (c \<in> set (takeWhile (\<lambda>b. b \<noteq> NUL) buf))"
  using nth_mem[of BUFLEN buf] by (auto simp: terminated_def c_strchr_def c_str_def)

lemma strchr_absent: "terminated buf \<Longrightarrow> c \<notin> set buf \<Longrightarrow> c_strchr buf c = Inr False"
  by (auto simp: terminated_strchr dest: set_takeWhileD)

lemma strchr_present:
  assumes "terminated (p @ rest)" "c \<in> set p" "NUL \<notin> set (takeWhile (\<lambda>b. b \<noteq> c) p)" "c \<noteq> NUL"
  shows "c_strchr (p @ rest) c = Inr True"
proof -
  obtain us vs where p: "p = us @ c # vs" "c \<notin> set us" using assms(2) by (metis split_list_first)
  then have "takeWhile (\<lambda>b. b \<noteq> c) p = us" by (auto simp: takeWhile_append)
  then have "NUL \<notin> set us" using assms(3) by simp
  then have "c \<in> set (takeWhile (\<lambda>b. b \<noteq> NUL) (p @ rest))"
    using p(1) assms(4) by (auto simp: takeWhile_append)
  then show ?thesis using terminated_strchr[OF assms(1)] by simp
qed

text \<open>One packet that does not end the loop, and one that does.\<close>

lemma recv_round_continues:
  assumes "terminated buf" "length bs < BUFLEN" "newline \<notin> set bs" "newline \<notin> set buf"
  shows "recv_loop env ((False, Received bs) # rounds) buf io =
    recv_loop env rounds (bs @ drop (length bs) buf) (fwrite env bs io)"
    "terminated (bs @ drop (length bs) buf)" "newline \<notin> set (bs @ drop (length bs) buf)"
proof -
  note r = recv_into_fits[OF assms(1,2)]
  show t: "terminated (bs @ drop (length bs) buf)" by (rule r)
  show n: "newline \<notin> set (bs @ drop (length bs) buf)" using assms(3,4) by (auto dest: in_set_dropD)
  show "recv_loop env ((False, Received bs) # rounds) buf io =
    recv_loop env rounds (bs @ drop (length bs) buf) (fwrite env bs io)"
    using r(1) strchr_absent[OF t n] by simp
qed

lemma recv_loop_skips:
  assumes "terminated buf" "newline \<notin> set buf" "\<forall>p\<in>set ps. length p < BUFLEN \<and> newline \<notin> set p"
  shows "\<exists>buf' io'. recv_loop env (map (\<lambda>p. (False, Received p)) ps @ rounds) buf io = recv_loop env rounds buf' io' \<and>
    terminated buf' \<and> newline \<notin> set buf' \<and> contents (fp io') = contents (fp io) @ concat ps \<and>
    locked io' = locked io \<and> delivered io' = delivered io \<and> fd_open io' = fd_open io \<and> messages io' = messages io"
  using assms
proof (induction ps arbitrary: buf io)
  case Nil
  then show ?case by auto
next
  case (Cons p ps)
  then have p: "length p < BUFLEN" "newline \<notin> set p" by simp_all
  note r = recv_round_continues[OF Cons.prems(1) p Cons.prems(2)]
  obtain buf' io' where "recv_loop env (map (\<lambda>p. (False, Received p)) ps @ rounds)
       (p @ drop (length p) buf) (fwrite env p io) = recv_loop env rounds buf' io'"
    "terminated buf'" "newline \<notin> set buf'" "contents (fp io') = (contents (fp io) @ p) @ concat ps"
    "locked io' = locked io" "delivered io' = delivered io" "fd_open io' = fd_open io" "messages io' = messages io"
    using Cons.IH[OF r(2,3), of "fwrite env p io"] Cons.prems(3) by auto
  then show ?case using r(1) by (intro exI[of _ buf'] exI[of _ io']) simp
qed

lemma recv_round_ends:
  assumes "terminated buf" "length p < BUFLEN" "newline \<in> set p" "NUL \<notin> set (takeWhile (\<lambda>b. b \<noteq> newline) p)"
  shows "recv_loop env ((False, Received p) # rounds) buf io = Inr (Loop_left, fflush (fwrite env p io))"
  using recv_into_fits[OF assms(1,2)] strchr_present[OF _ assms(3,4)] by simp

text \<open>The loop only appends to the stream and keeps the mutex.\<close>

lemma recv_loop_appends:
  "recv_loop env rounds buf io = Inr (e, io') \<Longrightarrow>
   (\<exists>bs. contents (fp io') = contents (fp io) @ bs) \<and> locked io' = locked io \<and>
   delivered io' = delivered io \<and> fd_open io' = fd_open io"
proof (induction env rounds buf io rule: recv_loop.induct)
  case (2 env x ans rounds buf io)
  then show ?case
    by (cases ans) (fastforce simp: bindE_eq_Inr Let_def split: if_splits)+
qed simp

lemma recv_loop_messages:
  "recv_loop env rounds buf io = Inr (e, io') \<Longrightarrow>
   messages io' = messages io @ (if e = Loop_failed then [Recv_failed_message] else [])"
proof (induction env rounds buf io rule: recv_loop.induct)
  case (2 env x ans rounds buf io)
  then show ?case
    by (cases ans) (fastforce simp: bindE_eq_Inr Let_def log_message_def split: if_splits)+
qed simp

lemma frame_terminated:
  assumes "BUFLEN < length frame"
  shows "arr_set frame BUFLEN NUL = Inr (frame[BUFLEN := NUL])" "terminated (frame[BUFLEN := NUL])"
    "newline \<notin> set frame \<Longrightarrow> newline \<notin> set (frame[BUFLEN := NUL])"
  using assms set_update_subset_insert[of frame BUFLEN NUL] by (auto simp: terminated_def)

section \<open>Properties\<close>

definition sample_env :: libc_env where
  "sample_env = \<lparr>spill = (\<lambda>n. if 4096 \<le> n then n else 0), reopen_ok = True, send_ok = (\<lambda>_. True)\<rparr>"

definition sample_io :: server_io where
  "sample_io = \<lparr>locked = False, fp = \<lparr>on_disk = [104, 10], pending = [116, 10]\<rparr>, delivered = (\<lambda>_. []),
     fd_open = (\<lambda>fd. fd = 7), messages = []\<rparr>"

definition sample_td :: thread_data where
  "sample_td = \<lparr>thread_exit = False, fd_accept = 7, client_address = [49, 0]\<rparr>"

text \<open>
  (C13) A client sends packets without a newline and then one with a newline (and no NUL before it),
  all shorter than the buffer, and the loop sees no signal. If the stack frame of the buffer is
  longer than the buffer and holds no newline, the recorded client address is terminated, the
  mutex is free, the file can be reopened and every byte can be sent, then the thread ends,
  whatever follows in the input: the stream has exactly the sent bytes appended and is flushed, the
  client gets the complete file including everything other threads wrote before, the connection
  is closed, the mutex is released and \<open>thread_exit\<close> is set.
\<close>

theorem request_stored_and_echoed:
  assumes "BUFLEN < length frame" "newline \<notin> set frame" "\<not> locked io" "reopen_ok env" "\<forall>i. send_ok env i"
    and adr: "NUL \<in> set (client_address td)"
    and ps: "\<forall>p\<in>set ps. length p < BUFLEN \<and> newline \<notin> set p"
    and p: "length p < BUFLEN" "newline \<in> set p" "NUL \<notin> set (takeWhile (\<lambda>b. b \<noteq> newline) p)"
  shows "\<exists>io'. thread_socket_receive env frame (map (\<lambda>q. (False, Received q)) (ps @ [p]) @ rounds) td io =
      Inr (Thread_exited, td\<lparr>thread_exit := True\<rparr>, io') \<and>
    on_disk (fp io') = contents (fp io) @ concat ps @ p \<and> pending (fp io') = [] \<and>
    delivered io' (fd_accept td) = delivered io (fd_accept td) @ on_disk (fp io') \<and>
    \<not> fd_open io' (fd_accept td) \<and> \<not> locked io'"
proof -
  note f = frame_terminated[OF assms(1)]
  let ?io = "(log_message (Accepted_connection (takeWhile (\<lambda>b. b \<noteq> NUL) (client_address td))) io)\<lparr>locked := True\<rparr>"
  obtain buf' io' where l: "recv_loop env (map (\<lambda>q. (False, Received q)) ps @ (False, Received p) # rounds)
      (frame[BUFLEN := NUL]) ?io = recv_loop env ((False, Received p) # rounds) buf' io'"
    and t: "terminated buf'" and c: "contents (fp io') = contents (fp ?io) @ concat ps"
    and d: "delivered io' = delivered ?io"
    using recv_loop_skips[OF f(2) f(3)[OF assms(2)] ps] by blast
  show ?thesis
    using assms(3-5) adr f(1) l c d recv_round_ends[OF t p, of env rounds io']
    by (simp add: thread_socket_receive_def send_file_to_client_def send_bytes_all Let_def del: recv_loop.simps)
qed

theorem request_stored_and_echoed_witness:
  "\<exists>io'. thread_socket_receive sample_env (replicate 130 1)
      [(False, Received [97, 98]), (False, Received [99, 10, 0])] sample_td sample_io =
      Inr (Thread_exited, sample_td\<lparr>thread_exit := True\<rparr>, io') \<and>
    delivered io' 7 = [104, 10, 116, 10, 97, 98, 99, 10, 0]"
  using request_stored_and_echoed[of "replicate 130 1" sample_io sample_env sample_td "[[97, 98]]" "[99, 10, 0]" "[]"]
  by (auto simp: BUFLEN_def sample_io_def sample_env_def sample_td_def contents_def)

text \<open>
  The loop looks for the newline in the whole buffer and not in what was received: bytes an
  earlier packet or another function left there count as well. If the buffer holds a newline
  behind the received bytes with no NUL in between, a packet without newline already ends the
  request.
\<close>

theorem stale_newline_ends_request:
  assumes "BUFLEN < length frame" "\<not> locked io" "reopen_ok env"
    and "length p \<le> k" "k < BUFLEN" "frame ! k = newline" "\<forall>i<k. frame ! i \<noteq> NUL" "NUL \<notin> set p"
    and adr: "NUL \<in> set (client_address td)"
  shows "\<exists>io'. thread_socket_receive env frame [(False, Received p)] td io =
      Inr (Thread_exited, td\<lparr>thread_exit := True\<rparr>, io') \<and> on_disk (fp io') = contents (fp io) @ p"
proof -
  note f = frame_terminated[OF assms(1)]
  let ?b = "frame[BUFLEN := NUL]"
  have lp: "length p < BUFLEN" using assms(4,5) by simp
  note r = recv_into_fits[OF f(2) lp]
  have kl: "k < length frame" using assms(1,5) by simp
  have k: "drop (length p) ?b = drop (length p) (take k ?b) @ newline # drop (Suc k) ?b"
    using assms(4,5,6) kl id_take_nth_drop[of k ?b]
    by (metis (no_types, lifting) append_take_drop_id drop_append length_list_update length_take
        less_or_eq_imp_le min.absorb4 nat_neq_iff nth_list_update_neq diff_is_0_eq drop0)
  have "NUL \<notin> set (drop (length p) (take k ?b))"
    using assms(5,7) kl by (auto simp: in_set_conv_nth)
  then have "newline \<in> set (takeWhile (\<lambda>b. b \<noteq> NUL) (p @ drop (length p) ?b))"
    unfolding k using assms(8) by (auto simp: takeWhile_append)
  then show ?thesis
    using assms(2,3) adr f(1) r terminated_strchr[OF r(2)]
    by (simp add: thread_socket_receive_def send_file_to_client_def Let_def)
qed

theorem stale_newline_ends_request_witness:
  "\<exists>io'. thread_socket_receive sample_env (1 # 1 # newline # replicate 130 1) [(False, Received [97])] sample_td sample_io =
      Inr (Thread_exited, sample_td\<lparr>thread_exit := True\<rparr>, io') \<and> on_disk (fp io') = [104, 10, 116, 10, 97]"
  using stale_newline_ends_request[of "1 # 1 # newline # replicate 130 1" sample_io sample_env "[97]" 2 sample_td]
  by (auto simp: BUFLEN_def sample_io_def sample_env_def sample_td_def contents_def nth_Cons' less_2_cases_iff)

text \<open>
  (C32) A peer that closes the connection before sending a newline: \<open>recv\<close> returns zero from then on,
  which the loop takes for an empty packet. After any number of rounds the thread is still in
  the loop and holds the mutex, so no other thread can write.
\<close>

theorem closed_peer_holds_mutex:
  assumes "BUFLEN < length frame" "newline \<notin> set frame" "\<not> locked io"
    and "\<forall>p\<in>set ps. length p < BUFLEN \<and> newline \<notin> set p" and adr: "NUL \<in> set (client_address td)"
  shows "\<exists>io'. thread_socket_receive env frame
      (map (\<lambda>q. (False, Received q)) ps @ replicate n (False, Received [])) td io = Inr (Waits_in_recv, td, io') \<and>
    locked io' \<and> delivered io' = delivered io \<and>
    (\<forall>env' frame' rounds' td' stamp'. BUFLEN < length frame' \<and> NUL \<in> set (client_address td') \<longrightarrow>
       (\<exists>io''. thread_socket_receive env' frame' rounds' td' io' = Inr (Waits_for_mutex, td', io'') \<and> fp io'' = fp io') \<and>
       timer_thread env' frame' stamp' io' = Inr (Waits_for_mutex, io'))"
proof -
  note f = frame_terminated[OF assms(1)]
  let ?io = "(log_message (Accepted_connection (takeWhile (\<lambda>b. b \<noteq> NUL) (client_address td))) io)\<lparr>locked := True\<rparr>"
  let ?qs = "ps @ replicate n []"
  have "\<forall>q\<in>set ?qs. length q < BUFLEN \<and> newline \<notin> set q" using assms(4) by (auto simp: BUFLEN_def)
  then obtain buf' io' where l: "recv_loop env (map (\<lambda>q. (False, Received q)) ?qs @ []) (frame[BUFLEN := NUL]) ?io =
      recv_loop env [] buf' io'" and "locked io' = locked ?io" "delivered io' = delivered ?io"
    using recv_loop_skips[OF f(2) f(3)[OF assms(2)]] by blast
  moreover have "map (\<lambda>q. (False, Received q)) ?qs @ [] =
      map (\<lambda>q. (False, Received q)) ps @ replicate n (False, Received [])" by simp
  ultimately show ?thesis
    using assms(3) adr f(1) by (auto simp: thread_socket_receive_def timer_thread_def Let_def)
qed

theorem closed_peer_holds_mutex_witness:
  "\<exists>io'. thread_socket_receive sample_env (replicate 130 1)
      ((False, Received [97]) # replicate 50 (False, Received [])) sample_td sample_io =
      Inr (Waits_in_recv, sample_td, io') \<and> locked io'"
  using closed_peer_holds_mutex[of "replicate 130 1" sample_io "[[97]]" sample_td sample_env 50]
  by (auto simp: BUFLEN_def sample_io_def sample_td_def)

text \<open>
  For every input a thread that ends has released the mutex and set \<open>thread_exit\<close>; the file has
  only grown, and the connections of other clients are as they were. If \<open>recv\<close> reports an error
  the client is sent nothing and its descriptor stays open; otherwise it is closed.
\<close>

theorem ended_thread_released_mutex:
  assumes "thread_socket_receive env frame rounds td io = Inr (Thread_exited, td', io')"
  shows "\<not> locked io' \<and> thread_exit td' \<and> (\<exists>bs. contents (fp io') = contents (fp io) @ bs) \<and>
    (\<forall>fd. fd \<noteq> fd_accept td \<longrightarrow> delivered io' fd = delivered io fd \<and> fd_open io' fd = fd_open io fd) \<and>
    (if Recv_failed_message \<in> set (drop (length (messages io)) (messages io'))
     then delivered io' = delivered io \<and> fd_open io' = fd_open io
     else \<not> fd_open io' (fd_accept td))"
proof -
  obtain buf adr e io2 where a: "arr_set frame BUFLEN NUL = Inr buf"
    and adr: "c_str (client_address td) = Inr adr"
    and l: "recv_loop env rounds buf ((log_message (Accepted_connection adr) io)\<lparr>locked := True\<rparr>) = Inr (e, io2)"
    using assms by (auto simp: thread_socket_receive_def bindE_eq_Inr Let_def split: if_splits)
  note la = recv_loop_appends[OF l] and lm = recv_loop_messages[OF l]
  show ?thesis
    using assms a adr l la lm
    by (cases e) (auto simp: thread_socket_receive_def send_file_to_client_def bindE_eq_Inr Let_def
        log_message_def split: if_splits)
qed

theorem ended_thread_released_mutex_witness:
  "\<exists>td' io'. thread_socket_receive sample_env (replicate 130 1) [(False, Recv_error)] sample_td sample_io =
      Inr (Thread_exited, td', io') \<and> \<not> locked io' \<and> fd_open io' 7"
proof -
  obtain td' io' where r: "thread_socket_receive sample_env (replicate 130 1) [(False, Recv_error)] sample_td sample_io =
      Inr (Thread_exited, td', io')" and m: "messages io' = [Accepted_connection [49], Recv_failed_message]"
    by (auto simp: thread_socket_receive_def BUFLEN_def sample_io_def sample_td_def log_message_def)
  show ?thesis using ended_thread_released_mutex[OF r] r m by (auto simp: sample_io_def)
qed

text \<open>
  Both threads declare \<open>BUFLEN\<close> bytes and store a terminator at index \<open>BUFLEN\<close>, one past the end:
  with no more than the declared array behind the pointer, every run is undefined behaviour
  (for the timer thread every run that gets the mutex).
\<close>

theorem terminator_is_out_of_bounds:
  assumes "length frame = BUFLEN"
  shows "thread_socket_receive env frame rounds td io = Inl Out_of_bounds \<and>
    (\<not> locked io \<longrightarrow> timer_thread env frame stamp io = Inl Out_of_bounds)"
  using assms by (cases "c_str (client_address td)")
    (auto simp: thread_socket_receive_def timer_thread_def arr_set_def c_str_def Let_def split: if_splits)

theorem terminator_is_out_of_bounds_witness:
  "thread_socket_receive sample_env (replicate 128 1) [] sample_td sample_io = Inl Out_of_bounds \<and>
   timer_thread sample_env (replicate 128 1) [116, 10] sample_io = Inl Out_of_bounds"
  using terminator_is_out_of_bounds[of "replicate 128 1" sample_env "[]" sample_td sample_io "[116, 10]"]
  by (simp add: BUFLEN_def sample_io_def)

text \<open>
  A timer thread that gets the mutex appends exactly the timestamp when it has at most 127 bytes
  and nothing when it is longer, releases the mutex and leaves connections alone; a stack frame
  with one byte behind the buffer is enough for it to have defined behaviour.
\<close>

theorem timer_appends_stamp:
  assumes "BUFLEN < length frame" "\<not> locked io"
  shows "\<exists>io'. timer_thread env frame stamp io = Inr (Thread_exited, io') \<and>
    contents (fp io') = contents (fp io) @ (if length stamp < BUFLEN then stamp else []) \<and>
    \<not> locked io' \<and> delivered io' = delivered io \<and> fd_open io' = fd_open io"
  using assms by (auto simp: timer_thread_def strftime_def Let_def)

theorem timer_appends_stamp_witness:
  "\<exists>io'. timer_thread sample_env (replicate 129 1) [116, 10] sample_io = Inr (Thread_exited, io') \<and>
    contents (fp io') = [104, 10, 116, 10, 116, 10]"
  using timer_appends_stamp[of "replicate 129 1" sample_io sample_env "[116, 10]"]
  by (auto simp: BUFLEN_def sample_io_def contents_def)

end
