(* ===== verification/Link_Memory.thy ===== *)
theory Link_Memory
  imports AESD_Prelude
begin

text \<open>
  The memory under the list macros of \<open>server/src/queue.h\<close>. The four families of macros link
  elements that the caller owns. Some of them store addresses of pointers: the address of the
  first pointer of a head or of the next pointer of an element. These addresses are the values
  of type \<open>slot\<close>. A memory has heads and the link fields of allocated elements; what a head and
  an entry consist of differs between the families, so both are type parameters and the access to
  their fields is described by the locales below. The second half states what reads
  see after writes, and what an operation leaves untouched.
\<close>

section \<open>Heads, entries and slots\<close>

type_synonym head_id = nat

datatype slot = First_of head_id | Next_of addr

record ('h, 'e) qmem =
  heads :: "head_id \<Rightarrow> 'h"
  links :: "addr \<Rightarrow> 'e option"

definition link_of :: "('h, 'e) qmem \<Rightarrow> ptr \<Rightarrow> 'e res" where
  "link_of s p = (case p of None \<Rightarrow> Inl Null_deref
     | Some a \<Rightarrow> (case links s a of None \<Rightarrow> Inl Use_of_freed | Some e \<Rightarrow> Inr e))"

definition set_head :: "('h, 'e) qmem \<Rightarrow> head_id \<Rightarrow> 'h \<Rightarrow> ('h, 'e) qmem" where
  "set_head s h v = s\<lparr>heads := (heads s)(h := v)\<rparr>"

definition set_link :: "('h, 'e) qmem \<Rightarrow> addr \<Rightarrow> 'e \<Rightarrow> ('h, 'e) qmem" where
  "set_link s a e = s\<lparr>links := (links s)(a \<mapsto> e)\<rparr>"

text \<open>
  Reading and writing through the address of a pointer, \<open>*sl\<close> and \<open>*sl = p\<close>, for a family whose
  heads and entries have the given fields.
\<close>

fun load_at :: "('h \<Rightarrow> ptr) \<Rightarrow> ('e \<Rightarrow> ptr) \<Rightarrow> ('h, 'e) qmem \<Rightarrow> slot \<Rightarrow> ptr res" where
  "load_at hf en s (First_of h) = Inr (hf (heads s h))"
| "load_at hf en s (Next_of a) = bindE (link_of s (Some a)) (\<lambda>e. Inr (en e))"

fun store_at ::
  "(ptr \<Rightarrow> 'h \<Rightarrow> 'h) \<Rightarrow> (ptr \<Rightarrow> 'e \<Rightarrow> 'e) \<Rightarrow> ('h, 'e) qmem \<Rightarrow> slot \<Rightarrow> ptr \<Rightarrow> ('h, 'e) qmem res" where
  "store_at hf_upd en_upd s (First_of h) p = Inr (set_head s h (hf_upd p (heads s h)))"
| "store_at hf_upd en_upd s (Next_of a) p = bindE (link_of s (Some a)) (\<lambda>e. Inr (set_link s a (en_upd p e)))"

text \<open>Writing the back pointer of the element \<open>p\<close> points to.\<close>

definition store_back :: "(slot \<Rightarrow> 'e \<Rightarrow> 'e) \<Rightarrow> ('h, 'e) qmem \<Rightarrow> ptr \<Rightarrow> slot \<Rightarrow> ('h, 'e) qmem res" where
  "store_back ep_upd s p sl = bindE (link_of s p) (\<lambda>e. Inr (set_link s (the p) (ep_upd sl e)))"

text \<open>Writing the last pointer of a head.\<close>

definition store_last :: "(slot \<Rightarrow> 'h \<Rightarrow> 'h) \<Rightarrow> ('h, 'e) qmem \<Rightarrow> head_id \<Rightarrow> slot \<Rightarrow> ('h, 'e) qmem" where
  "store_last hl_upd s h sl = set_head s h (hl_upd sl (heads s h))"

definition back_at :: "('e \<Rightarrow> slot) \<Rightarrow> ('h, 'e) qmem \<Rightarrow> addr \<Rightarrow> slot option" where
  "back_at ep s a = map_option ep (links s a)"

section \<open>Traversals\<close>

text \<open>
  The loops behind the traversal macros. \<open>step\<close> is the successor of the visited element in the
  current state; the fuel bounds the number of visited elements, \<open>None\<close> when it is spent. In the
  safe variants the successor is read before the body runs, so that the body may unlink and free
  the visited element.
\<close>

fun foreach_loop_from :: "nat \<Rightarrow> ('m \<Rightarrow> ptr \<Rightarrow> ptr res) \<Rightarrow> (addr \<Rightarrow> 'm \<Rightarrow> 'm res) \<Rightarrow> ptr \<Rightarrow> 'm \<Rightarrow> 'm option res" where
  "foreach_loop_from n step body None m = Inr (Some m)"
| "foreach_loop_from 0 step body (Some a) m = Inr None"
| "foreach_loop_from (Suc n) step body (Some a) m =
     bindE (body a m) (\<lambda>m1. bindE (step m1 (Some a)) (\<lambda>nx. foreach_loop_from n step body nx m1))"

fun foreach_safe_from :: "nat \<Rightarrow> ('m \<Rightarrow> ptr \<Rightarrow> ptr res) \<Rightarrow> (addr \<Rightarrow> 'm \<Rightarrow> 'm res) \<Rightarrow> ptr \<Rightarrow> 'm \<Rightarrow> 'm option res" where
  "foreach_safe_from n step body None m = Inr (Some m)"
| "foreach_safe_from 0 step body (Some a) m = Inr None"
| "foreach_safe_from (Suc n) step body (Some a) m =
     bindE (step m (Some a)) (\<lambda>tvar. bindE (body a m) (\<lambda>m1. foreach_safe_from n step body tvar m1))"

text \<open>
  The search loop of the singly linked families,
  \<open>while (NEXT(curelm) != elm) curelm = NEXT(curelm)\<close>: the element before \<open>elm\<close>, or the last element
  when \<open>elm\<close> is null. Past the end of the list it follows a null pointer.
\<close>

fun find_before :: "nat \<Rightarrow> (ptr \<Rightarrow> ptr res) \<Rightarrow> ptr \<Rightarrow> ptr \<Rightarrow> ptr option res" where
  "find_before 0 step elm curelm = bindE (step curelm) (\<lambda>p. Inr (if p = elm then Some curelm else None))"
| "find_before (Suc n) step elm curelm =
     bindE (step curelm) (\<lambda>p. if p = elm then Inr (Some curelm) else find_before n step elm p)"

text \<open>The address of the next pointer of the element \<open>p\<close> points to, as the target of an assignment.\<close>

definition next_slot :: "ptr \<Rightarrow> slot res" where
  "next_slot p = (case p of None \<Rightarrow> Inl Null_deref | Some a \<Rightarrow> Inr (Next_of a))"

text \<open>
  \<open>__containerof(sl, type, field.next)\<close>: the element whose next pointer \<open>sl\<close> is the address of. For
  the address of a pointer in a head the subtraction leaves the object.
\<close>

fun containerof :: "slot \<Rightarrow> ptr res" where
  "containerof (Next_of a) = Inr (Some a)"
| "containerof (First_of h) = Inl Out_of_bounds"

text \<open>The start of the \<open>FROM\<close> variants: \<open>var ? var : first\<close>.\<close>

definition start_from :: "ptr \<Rightarrow> ptr \<Rightarrow> ptr" where
  "start_from var first = (case var of None \<Rightarrow> first | Some _ \<Rightarrow> var)"

text \<open>The links of a freed element are gone.\<close>

definition free_links :: "addr \<Rightarrow> ('h, 'e) qmem \<Rightarrow> ('h, 'e) qmem" where
  "free_links a s = s\<lparr>links := (links s)(a := None)\<rparr>"

section \<open>Views of a memory after an update\<close>

definition alloc :: "('h, 'e) qmem \<Rightarrow> addr \<Rightarrow> bool" where
  "alloc s a \<longleftrightarrow> links s a \<noteq> None"

fun valid :: "('h, 'e) qmem \<Rightarrow> slot \<Rightarrow> bool" where
  "valid s (First_of h) = True"
| "valid s (Next_of a) = alloc s a"

text \<open>The effect of a store that succeeds, as a total function.\<close>

fun stored_at :: "(ptr \<Rightarrow> 'h \<Rightarrow> 'h) \<Rightarrow> (ptr \<Rightarrow> 'e \<Rightarrow> 'e) \<Rightarrow> ('h, 'e) qmem \<Rightarrow> slot \<Rightarrow> ptr \<Rightarrow> ('h, 'e) qmem" where
  "stored_at hf_upd en_upd s (First_of h) p = set_head s h (hf_upd p (heads s h))"
| "stored_at hf_upd en_upd s (Next_of a) p = set_link s a (en_upd p (the (links s a)))"

definition back_stored :: "(slot \<Rightarrow> 'e \<Rightarrow> 'e) \<Rightarrow> ('h, 'e) qmem \<Rightarrow> addr \<Rightarrow> slot \<Rightarrow> ('h, 'e) qmem" where
  "back_stored ep_upd s a sl = set_link s a (ep_upd sl (the (links s a)))"

lemma link_of_alloc [simp]: "alloc s a \<Longrightarrow> link_of s (Some a) = Inr (the (links s a))"
  by (auto simp: link_of_def alloc_def)

lemma mem_updates [simp]:
  "heads (set_head s h v) k = (if k = h then v else heads s k)" "links (set_head s h v) = links s"
  "links (set_link s a e) b = (if b = a then Some e else links s b)" "heads (set_link s a e) = heads s"
  by (simp_all add: set_head_def set_link_def)

lemma next_slot_Some [simp]: "next_slot (Some a) = Inr (Next_of a)"
  by (simp add: next_slot_def)

lemma link_of_None [simp]: "link_of s None = Inl Null_deref"
  by (simp add: link_of_def)

lemma start_from_simps [simp]: "start_from None p = p" "start_from (Some a) p = Some a"
  by (simp_all add: start_from_def)

lemma free_views [simp]:
  "heads (free_links a s) = heads s" "links (free_links a s) b = (if b = a then None else links s b)"
  by (simp_all add: free_links_def)

lemma store_valid [simp]: "valid s sl \<Longrightarrow> store_at hu eu s sl p = Inr (stored_at hu eu s sl p)"
  by (cases sl) auto

lemma store_back_alloc [simp]: "alloc s a \<Longrightarrow> store_back pu s (Some a) sl = Inr (back_stored pu s a sl)"
  by (simp add: store_back_def back_stored_def)

lemma load_valid: "load_at hf en s sl = Inr p \<Longrightarrow> valid s sl"
  by (cases sl) (auto simp: link_of_def alloc_def split: option.splits)

lemma back_alloc: "back_at ep s a = Some sl \<Longrightarrow> alloc s a"
  by (auto simp: back_at_def alloc_def)

lemma alloc_updates [simp]:
  "valid s sl \<Longrightarrow> alloc (stored_at hu eu s sl p) a = alloc s a"
  "alloc s b \<Longrightarrow> alloc (back_stored pu s b sl) a = alloc s a"
  "alloc (set_head s h v) a = alloc s a"
  "alloc (store_last lu s h q) a = alloc s a"
  by (cases sl) (auto simp: alloc_def back_stored_def store_last_def)

lemma valid_updates [simp]:
  "valid s sl \<Longrightarrow> valid (stored_at hu eu s sl p) q = valid s q"
  "alloc s b \<Longrightarrow> valid (back_stored pu s b sl) q = valid s q"
  "valid (set_head s h v) q = valid s q"
  "valid (store_last lu s h sl) q = valid s q"
  by (cases q; simp)+

lemma field_updates [simp]:
  "heads (stored_at hu eu s (Next_of b) p) = heads s"
  "sl \<noteq> First_of h \<Longrightarrow> heads (stored_at hu eu s sl p) h = heads s h"
  "sl \<noteq> Next_of a \<Longrightarrow> links (stored_at hu eu s sl p) a = links s a"
  "links (stored_at hu eu s (Next_of b) p) b = Some (eu p (the (links s b)))"
  "links (back_stored pu s b sl') a = (if a = b then Some (pu sl' (the (links s b))) else links s a)"
  "heads (back_stored pu s b sl') = heads s"
  "links (store_last lu s h sl') = links s"
  "heads (store_last lu s h sl') k = (if k = h then lu sl' (heads s h) else heads s k)"
  by (cases sl; auto simp: back_stored_def store_last_def)+

lemma load_set_head [simp]:
  "load_at hf en (set_head s h v) q = (if q = First_of h then Inr (hf v) else load_at hf en s q)"
  "back_at ep (set_head s h v) a = back_at ep s a" "back_at ep (store_last lu s h sl) a = back_at ep s a"
  by (cases q) (auto simp: link_of_def back_at_def)

lemma entry_views:
  "back_at ep s a = Some sl \<Longrightarrow> ep (the (links s a)) = sl"
  "load_at hf en s (Next_of a) = Inr p \<Longrightarrow> en (the (links s a)) = p"
  by (auto simp: back_at_def link_of_def split: option.splits)

text \<open>
  The field laws of a family, one locale per kind of field: next pointers (every family), back
  pointers, and the last pointer of a head.
\<close>

locale link_fields =
  fixes hf :: "'h \<Rightarrow> ptr" and hf_upd :: "ptr \<Rightarrow> 'h \<Rightarrow> 'h"
    and en :: "'e \<Rightarrow> ptr" and en_upd :: "ptr \<Rightarrow> 'e \<Rightarrow> 'e"
  assumes hf_hf_upd: "hf (hf_upd p v) = p"
    and en_en_upd: "en (en_upd p e) = p"
begin

lemma load_stored [simp]:
  "valid s sl \<Longrightarrow>
   load_at hf en (stored_at hf_upd en_upd s sl p) q = (if q = sl then Inr p else load_at hf en s q)"
  using hf_hf_upd en_en_upd by (cases sl; cases q) (auto simp: link_of_def split: option.splits)

end

locale back_fields = link_fields hf hf_upd en en_upd
  for hf :: "'h \<Rightarrow> ptr" and hf_upd :: "ptr \<Rightarrow> 'h \<Rightarrow> 'h" and en :: "'e \<Rightarrow> ptr" and en_upd :: "ptr \<Rightarrow> 'e \<Rightarrow> 'e" +
  fixes ep :: "'e \<Rightarrow> slot" and ep_upd :: "slot \<Rightarrow> 'e \<Rightarrow> 'e"
  assumes ep_ep_upd: "ep (ep_upd sl e) = sl"
    and en_ep_upd: "en (ep_upd sl e) = en e"
    and ep_en_upd: "ep (en_upd p e) = ep e"
begin

lemma load_back_stored [simp]: "alloc s b \<Longrightarrow> load_at hf en (back_stored ep_upd s b sl) q = load_at hf en s q"
  using en_ep_upd by (cases q) (auto simp: link_of_def alloc_def)

lemma back_stored [simp]: "valid s sl \<Longrightarrow> back_at ep (stored_at hf_upd en_upd s sl p) a = back_at ep s a"
  using ep_en_upd by (cases sl) (auto simp: back_at_def alloc_def)

lemma back_back_stored [simp]:
  "alloc s b \<Longrightarrow> back_at ep (back_stored ep_upd s b sl) a = (if a = b then Some sl else back_at ep s a)"
  using ep_ep_upd by (simp add: back_at_def)

end

locale last_fields =
  fixes hf :: "'h \<Rightarrow> ptr" and hf_upd :: "ptr \<Rightarrow> 'h \<Rightarrow> 'h" and hl :: "'h \<Rightarrow> slot" and hl_upd :: "slot \<Rightarrow> 'h \<Rightarrow> 'h"
  assumes hl_hl_upd: "hl (hl_upd sl v) = sl"
    and hf_hl_upd: "hf (hl_upd sl v) = hf v"
    and hl_hf_upd: "hl (hf_upd p v) = hl v"
begin

lemma last_stored [simp]: "hl (heads (stored_at hf_upd en_upd s sl p) h) = hl (heads s h)"
  using hl_hf_upd by (cases sl) auto

lemma load_store_last [simp]: "load_at hf en (store_last hl_upd s h sl) q = load_at hf en s q"
  using hf_hl_upd by (cases q) (auto simp: link_of_def)

end

declare load_at.simps [simp del] store_at.simps [simp del] stored_at.simps [simp del]

section \<open>What an operation touches\<close>

text \<open>\<open>only_touches s s' H A\<close>: heads outside \<open>H\<close> and elements outside \<open>A\<close> are as before.\<close>

definition only_touches :: "('h, 'e) qmem \<Rightarrow> ('h, 'e) qmem \<Rightarrow> head_id set \<Rightarrow> addr set \<Rightarrow> bool" where
  "only_touches s s' H A \<longleftrightarrow> (\<forall>h. h \<notin> H \<longrightarrow> heads s' h = heads s h) \<and>
     (\<forall>a. a \<notin> A \<longrightarrow> links s' a = links s a) \<and> (\<forall>a. alloc s' a = alloc s a)"

lemma touches_refl [simp]: "only_touches s s H A"
  by (simp add: only_touches_def)

lemma touches_alloc: "only_touches s s' H A \<Longrightarrow> alloc s' a = alloc s a"
  by (simp add: only_touches_def)

lemma touches_stored:
  "only_touches s s' H A \<Longrightarrow> valid s' sl \<Longrightarrow> (case sl of First_of h \<Rightarrow> h \<in> H | Next_of a \<Rightarrow> a \<in> A) \<Longrightarrow>
   only_touches s (stored_at hu eu s' sl p) H A"
  by (cases sl) (auto simp: only_touches_def alloc_def stored_at.simps)

lemma touches_back_stored:
  "only_touches s s' H A \<Longrightarrow> alloc s' b \<Longrightarrow> b \<in> A \<Longrightarrow> only_touches s (back_stored pu s' b sl) H A"
  by (auto simp: only_touches_def alloc_def)

lemma touches_set_head:
  "only_touches s s' H A \<Longrightarrow> h \<in> H \<Longrightarrow> only_touches s (set_head s' h v) H A"
  by (auto simp: only_touches_def alloc_def)

lemma touches_store_last:
  "only_touches s s' H A \<Longrightarrow> h \<in> H \<Longrightarrow> only_touches s (store_last lu s' h sl) H A"
  by (auto simp: only_touches_def alloc_def)

lemmas touches_intros = touches_refl touches_stored touches_back_stored touches_set_head touches_store_last

lemma touches_views:
  assumes "only_touches s s' H A"
  shows "h \<notin> H \<Longrightarrow> heads s' h = heads s h"
    "h \<notin> H \<Longrightarrow> load_at hf en s' (First_of h) = load_at hf en s (First_of h)"
    "a \<notin> A \<Longrightarrow> load_at hf en s' (Next_of a) = load_at hf en s (Next_of a)"
    "a \<notin> A \<Longrightarrow> back_at ep s' a = back_at ep s a"
  using assms by (auto simp: only_touches_def link_of_def back_at_def load_at.simps)

end
