(* ===== verification/Link_Chains.thy ===== *)
theory Link_Chains
  imports Link_Memory Queue_Interfaces
begin

text \<open>
  Lists of elements in a memory of slots, independent of the family of macros: \<open>ld\<close> is what a slot
  holds and \<open>bk\<close> the back pointer of an element. \<open>chain\<close> is a singly linked list, \<open>dlist\<close> a doubly
  linked one; a chain is a doubly linked list for some back pointers, so that both share the
  lemmas on inserting, removing, joining and moving elements. The traversal loops are related
  to folds over the list.
\<close>

section \<open>Segments\<close>

text \<open>
  \<open>dseg ld bk sl xs e\<close>: following the pointers from slot \<open>sl\<close> meets the elements \<open>xs\<close> and arrives at
  slot \<open>e\<close>, and each element points back to the slot it was reached from.
\<close>

primrec dseg :: "(slot \<Rightarrow> ptr res) \<Rightarrow> (addr \<Rightarrow> slot option) \<Rightarrow> slot \<Rightarrow> addr list \<Rightarrow> slot \<Rightarrow> bool" where
  "dseg ld bk sl [] e = (e = sl)"
| "dseg ld bk sl (a # as) e = (ld sl = Inr (Some a) \<and> bk a = Some sl \<and> dseg ld bk (Next_of a) as e)"

primrec chain :: "(slot \<Rightarrow> ptr res) \<Rightarrow> slot \<Rightarrow> addr list \<Rightarrow> bool" where
  "chain ld sl [] = (ld sl = Inr None)"
| "chain ld sl (a # as) = (ld sl = Inr (Some a) \<and> chain ld (Next_of a) as)"

text \<open>The slot behind the elements \<open>ys\<close> of the list at head \<open>h\<close>.\<close>

definition end_slot :: "head_id \<Rightarrow> addr list \<Rightarrow> slot" where
  "end_slot h ys = last (First_of h # map Next_of ys)"

definition dlist :: "(slot \<Rightarrow> ptr res) \<Rightarrow> (addr \<Rightarrow> slot option) \<Rightarrow> head_id \<Rightarrow> addr list \<Rightarrow> bool" where
  "dlist ld bk h xs \<longleftrightarrow> distinct xs \<and> dseg ld bk (First_of h) xs (end_slot h xs) \<and> ld (end_slot h xs) = Inr None"

text \<open>The pointer to the first of some elements.\<close>

definition ptr_to :: "addr list \<Rightarrow> ptr" where
  "ptr_to xs = (case xs of [] \<Rightarrow> None | a # _ \<Rightarrow> Some a)"

lemma ptr_to_simps [simp]: "ptr_to [] = None" "ptr_to (a # as) = Some a" "(ptr_to xs = None) = (xs = [])"
  by (auto simp: ptr_to_def split: list.split)

lemma end_slot_cases: "end_slot h ys = First_of h \<and> ys = [] \<or> (\<exists>b\<in>set ys. end_slot h ys = Next_of b)"
  by (cases ys rule: rev_cases) (auto simp: end_slot_def)

lemma end_slot_simps [simp]:
  "end_slot h [] = First_of h" "end_slot h (ys @ [b]) = Next_of b" "end_slot h (ys @ b # zs) = end_slot h (b # zs)"
  "a \<notin> set ys \<Longrightarrow> end_slot h ys \<noteq> Next_of a" "a \<notin> set ys \<Longrightarrow> Next_of a \<noteq> end_slot h ys"
  "ys \<noteq> [] \<Longrightarrow> end_slot h ys = Next_of (last ys)"
  using end_slot_cases[of h ys] by (auto simp: end_slot_def last_map)

lemma dseg_append: "dseg ld bk sl (xs @ ys) e \<longleftrightarrow> (\<exists>m. dseg ld bk sl xs m \<and> dseg ld bk m ys e)"
  by (induction xs arbitrary: sl) auto

lemma dseg_end: "dseg ld bk sl xs e \<Longrightarrow> e = last (sl # map Next_of xs)"
  by (induction xs arbitrary: sl) (auto split: if_splits)

lemma dseg_back_some: "dseg ld bk sl xs e \<Longrightarrow> a \<in> set xs \<Longrightarrow> \<exists>q. bk a = Some q \<and> ld q = Inr (Some a)"
  by (induction xs arbitrary: sl) auto

text \<open>A segment only depends on the slots before its end and on the back pointers of its elements.\<close>

lemma dseg_cong:
  "(\<And>a. a \<in> set xs \<Longrightarrow> bk' a = bk a) \<Longrightarrow> (\<And>q. q \<in> set (butlast (sl # map Next_of xs)) \<Longrightarrow> ld' q = ld q) \<Longrightarrow>
   dseg ld' bk' sl xs e = dseg ld bk sl xs e"
proof (induction xs arbitrary: sl)
  case (Cons a as)
  have "dseg ld' bk' (Next_of a) as e = dseg ld bk (Next_of a) as e"
    using Cons.prems by (intro Cons.IH) auto
  then show ?case using Cons.prems(1)[of a] Cons.prems(2)[of sl] by simp
qed simp

lemma dseg_frame:
  assumes "dseg ld bk sl xs e" "distinct xs" "sl \<notin> Next_of ` set xs"
    and "\<And>a. a \<in> set xs \<Longrightarrow> bk' a = bk a"
    and "\<And>q. q \<noteq> e \<Longrightarrow> q = sl \<or> q \<in> Next_of ` set xs \<Longrightarrow> ld' q = ld q"
  shows "dseg ld' bk' sl xs e"
proof -
  have d: "distinct (sl # map Next_of xs)" using assms(2,3) by (simp add: distinct_map inj_on_def)
  have e: "sl # map Next_of xs = butlast (sl # map Next_of xs) @ [e]"
    using dseg_end[OF assms(1)] append_butlast_last_id[of "sl # map Next_of xs"] by simp
  have "ld' q = ld q" if "q \<in> set (butlast (sl # map Next_of xs))" for q
  proof (rule assms(5))
    have "distinct (butlast (sl # map Next_of xs) @ [e])" using d e by metis
    then show "q \<noteq> e" using that by auto
    show "q = sl \<or> q \<in> Next_of ` set xs" using in_set_butlastD[OF that] by auto
  qed
  then show ?thesis using assms(1,4) dseg_cong[of xs bk' bk sl ld' ld e] by blast
qed

section \<open>Doubly linked lists\<close>

lemma dlist_empty: "dlist ld bk h [] \<longleftrightarrow> ld (First_of h) = Inr None"
  by (auto simp: dlist_def)

lemma dlist_parts:
  assumes "dlist ld bk h (ys @ zs)"
  shows "distinct (ys @ zs)" "dseg ld bk (First_of h) ys (end_slot h ys)"
    "dseg ld bk (end_slot h ys) zs (end_slot h (ys @ zs))" "ld (end_slot h (ys @ zs)) = Inr None"
  using assms dseg_end unfolding dlist_def dseg_append end_slot_def by blast+

lemma parts_apart:
  assumes "dlist ld bk h (ys @ zs)"
  shows "c \<in> set zs \<Longrightarrow> Next_of c \<noteq> end_slot h ys" "b \<in> set ys \<Longrightarrow> b \<notin> set zs"
  using dlist_parts(1)[OF assms] end_slot_cases[of h ys] by auto

lemma dlist_at:
  assumes "dlist ld bk h (ys @ zs)"
  shows "ld (end_slot h ys) = Inr (ptr_to zs)"
  using dlist_parts(3,4)[OF assms] by (cases zs) auto

lemma dlist_member:
  assumes "dlist ld bk h (ys @ a # zs)"
  shows "ld (Next_of a) = Inr (ptr_to zs)" "bk a = Some (end_slot h ys)"
  using dlist_at[of ld bk h "ys @ [a]" zs] dlist_parts(3)[OF assms] assms by auto

lemma dlist_first: "dlist ld bk h xs \<Longrightarrow> ld (First_of h) = Inr (ptr_to xs)"
  using dlist_at[of ld bk h "[]" xs] by simp

lemma dlist_elsewhere:
  assumes "dlist ld bk h xs" "ld' (First_of h) = ld (First_of h)"
    and "\<And>a. a \<in> set xs \<Longrightarrow> ld' (Next_of a) = ld (Next_of a)" "\<And>a. a \<in> set xs \<Longrightarrow> bk' a = bk a"
  shows "dlist ld' bk' h xs"
proof -
  have q: "ld' q = ld q" if "q = First_of h \<or> q \<in> Next_of ` set xs" for q using that assms(2,3) by auto
  have "dseg ld' bk' (First_of h) xs (end_slot h xs)"
    by (rule dseg_frame[of ld bk]) (use assms(1,4) q in \<open>auto simp: dlist_def\<close>)
  then show ?thesis using assms(1) q end_slot_cases[of h xs] by (auto simp: dlist_def)
qed

text \<open>
  Insertion writes one element between a front part \<open>ys\<close> and a rest \<open>zs\<close>, removal takes one out
  from between them.
\<close>

lemma dlist_insert:
  assumes q: "dlist ld bk h (ys @ zs)" and n: "n \<notin> set (ys @ zs)"
    and l: "\<And>q. ld' q = (if q = end_slot h ys then Inr (Some n)
                else if q = Next_of n then ld (end_slot h ys) else ld q)"
    and p: "\<And>a. bk' a = (if a = n then Some (end_slot h ys)
                else if zs \<noteq> [] \<and> a = hd zs then Some (Next_of n) else bk a)"
  shows "dlist ld' bk' h (ys @ n # zs)"
proof -
  note parts = dlist_parts[OF q] and apart = parts_apart[OF q]
  have ys: "dseg ld' bk' (First_of h) ys (end_slot h ys)"
    by (rule dseg_frame[OF parts(2)]) (use parts(1) n l p apart(2) hd_in_set in auto)
  have "dseg ld' bk' (Next_of n) zs (end_slot h (n # zs)) \<and> ld' (end_slot h (n # zs)) = Inr None"
  proof (cases zs)
    case Nil
    then show ?thesis using parts(3,4) l[of "Next_of n"] n by simp
  next
    case (Cons b bs)
    have lz: "ld' (Next_of c) = ld (Next_of c)" if "c \<in> set zs" for c
      using that l n apart(1) by auto
    have pz: "bk' c = bk c" if "c \<in> set bs" for c
      using that p n parts(1) Cons by auto
    have "dseg ld' bk' (Next_of b) bs (end_slot h (ys @ zs))"
      by (rule dseg_frame[of ld bk]) (use parts(1,3) lz pz Cons in auto)
    moreover have "ld' (end_slot h (ys @ zs)) = Inr None"
      using parts(4) lz[of "last zs"] Cons by simp
    ultimately show ?thesis using parts(3) l p Cons n by auto
  qed
  then show ?thesis using ys parts(1) n l p by (auto simp: dlist_def dseg_append)
qed

lemma dlist_remove:
  assumes q: "dlist ld bk h (ys @ a # zs)"
    and l: "\<And>q. q \<noteq> Next_of a \<Longrightarrow> ld' q = (if q = end_slot h ys then ld (Next_of a) else ld q)"
    and p: "\<And>b. b \<noteq> a \<Longrightarrow> bk' b = (if zs \<noteq> [] \<and> b = hd zs then Some (end_slot h ys) else bk b)"
  shows "dlist ld' bk' h (ys @ zs)"
proof -
  note parts = dlist_parts[OF q] and apart = parts_apart[OF q]
  have ne: "end_slot h ys \<noteq> Next_of a" using parts(1) by simp
  have py: "bk' b = bk b" "Next_of b \<noteq> end_slot h ys \<Longrightarrow> ld' (Next_of b) = ld (Next_of b)"
    if "b \<in> set ys" for b
    using that apart(2)[of b] p[of b] l[of "Next_of b"] hd_in_set[of zs] by auto
  have ys: "dseg ld' bk' (First_of h) ys (end_slot h ys)"
    by (rule dseg_frame[OF parts(2)]) (use parts(1) l[of "First_of h"] py in auto)
  have "dseg ld' bk' (end_slot h ys) zs (end_slot h (ys @ zs)) \<and> ld' (end_slot h (ys @ zs)) = Inr None"
  proof (cases zs)
    case Nil
    then show ?thesis using parts(3,4) l[OF ne] by simp
  next
    case (Cons b bs)
    have lz: "ld' (Next_of c) = ld (Next_of c)" if "c \<in> set zs" for c
      using that l[of "Next_of c"] parts(1) apart(1)[of c] by auto
    have pz: "bk' c = bk c" if "c \<in> set bs" for c
    proof -
      have "c \<noteq> a" "c \<noteq> b" using that parts(1) Cons by auto
      then show ?thesis using p[of c] Cons by simp
    qed
    have "dseg ld' bk' (Next_of b) bs (end_slot h zs)"
      by (rule dseg_frame[of ld bk]) (use parts(1,3) lz pz Cons in auto)
    moreover have "ld' (end_slot h zs) = Inr None"
      using parts(4) lz[of "last zs"] Cons by simp
    ultimately show ?thesis using parts(1,3) l[OF ne] p[of b] Cons by simp
  qed
  then show ?thesis using ys parts(1) by (auto simp: dlist_def dseg_append)
qed

text \<open>Two doubly linked lists at different heads never share an element: each is found by walking back.\<close>

lemma dseg_backwards:
  "dseg ld bk (First_of h) xs e \<Longrightarrow> a \<in> set xs \<Longrightarrow> dseg ld bk (First_of k) ys f \<Longrightarrow> a \<in> set ys \<Longrightarrow> h = k"
proof (induction xs arbitrary: a ys e f rule: rev_induct)
  case (snoc b bs)
  obtain us vs where ys: "ys = us @ a # vs" using snoc.prems(4) by (auto dest: split_list)
  obtain m where m: "dseg ld bk (First_of k) us m" "bk a = Some m"
    using snoc.prems(3) by (auto simp: ys dseg_append)
  then have mk: "m = last (First_of k # map Next_of us)" by (blast dest: dseg_end)
  obtain m' where m': "dseg ld bk (First_of h) bs m'" "bk b = Some m'"
    using snoc.prems(1) by (auto simp: dseg_append)
  show ?case
  proof (cases "a \<in> set bs")
    case True
    then show ?thesis using snoc.IH m'(1) snoc.prems(3,4) by blast
  next
    case False
    then have mm: "m = m'" using snoc.prems(2) m(2) m'(2) by simp
    show ?thesis
    proof (cases us rule: rev_cases)
      case Nil
      then show ?thesis using mm mk dseg_end[OF m'(1)] by (auto simp: last_map split: if_splits)
    next
      case (snoc ws c)
      then have "c \<in> set bs" using mm mk dseg_end[OF m'(1)] by (auto simp: last_map split: if_splits)
      then show ?thesis using snoc snoc.IH m'(1) m(1) by (metis in_set_conv_decomp)
    qed
  qed
qed simp

lemma dlist_disjoint:
  assumes "dlist ld bk h xs" "dlist ld bk k ys" "h \<noteq> k"
  shows "set xs \<inter> set ys = {}"
  using dseg_backwards assms by (fastforce simp: dlist_def)

text \<open>Joining the list at \<open>k\<close> to the end of the list at \<open>h\<close>.\<close>

lemma dlist_join:
  assumes x: "dlist ld bk h xs" and y: "dlist ld bk k ys" and d: "set xs \<inter> set ys = {}" "h \<noteq> k" "ys \<noteq> []"
    and l: "\<And>q. ld' q = (if q = First_of k then Inr None else if q = end_slot h xs then Inr (ptr_to ys) else ld q)"
    and p: "\<And>a. bk' a = (if a = hd ys then Some (end_slot h xs) else bk a)"
  shows "dlist ld' bk' h (xs @ ys) \<and> dlist ld' bk' k []"
proof -
  obtain b bs where ys: "ys = b # bs" using d(3) by (cases ys) auto
  have parts: "distinct xs" "distinct ys" "dseg ld bk (First_of h) xs (end_slot h xs)"
    "dseg ld bk (Next_of b) bs (end_slot k ys)" "ld (end_slot k ys) = Inr None"
    using x y ys by (auto simp: dlist_def)
  have "dseg ld' bk' (First_of h) xs (end_slot h xs)"
    by (rule dseg_frame[OF parts(3)]) (use parts(1) d l p ys in auto)
  moreover have ne: "Next_of c \<noteq> end_slot h xs" if "c \<in> set ys" for c
    using that d(1) end_slot_cases[of h xs] by auto
  have "dseg ld' bk' (Next_of b) bs (end_slot k ys)"
    by (rule dseg_frame[OF parts(4)]) (use parts(2) l p ne ys in auto)
  moreover have "ld' (end_slot k ys) = Inr None" using l ne[of "last ys"] parts(5) ys by auto
  moreover have "end_slot h xs \<noteq> First_of k" using end_slot_cases[of h xs] d(2) by auto
  ultimately show ?thesis
    using l p parts(1,2) d ys by (auto simp: dlist_def dseg_append)
qed

text \<open>Moving the elements of head \<open>h\<close> to head \<open>k\<close>: only the first back pointer changes.\<close>

lemma dlist_rehead:
  assumes "dlist ld bk h xs" "\<And>a. ld' (Next_of a) = ld (Next_of a)" "ld' (First_of k) = ld (First_of h)"
    and "\<And>a. a \<in> set xs \<Longrightarrow> bk' a = (if a = hd xs then Some (First_of k) else bk a)"
  shows "dlist ld' bk' k xs"
proof (cases xs)
  case Nil
  then show ?thesis using assms by (simp add: dlist_def)
next
  case (Cons a as)
  have "dseg ld' bk' (Next_of a) as (end_slot h xs)"
    by (rule dseg_frame[of ld bk]) (use assms Cons in \<open>auto simp: dlist_def\<close>)
  then show ?thesis using assms Cons by (auto simp: dlist_def)
qed

section \<open>Singly linked lists\<close>

lemma chain_unique: "chain ld sl xs \<Longrightarrow> chain ld sl ys \<Longrightarrow> xs = ys"
  by (induction xs arbitrary: sl ys; case_tac ys) auto

lemma chain_append_tail: "chain ld sl (xs @ a # ys) \<Longrightarrow> chain ld (Next_of a) ys"
  by (induction xs arbitrary: sl) auto

lemma chain_distinct: "chain ld sl xs \<Longrightarrow> distinct xs"
proof (induction xs arbitrary: sl)
  case (Cons a as)
  have "a \<notin> set as"
  proof
    assume "a \<in> set as"
    then obtain us vs where as: "as = us @ a # vs" by (auto dest: split_list)
    have t: "chain ld (Next_of a) as" using Cons.prems by simp
    then have "chain ld (Next_of a) vs" using as chain_append_tail by simp
    then have "as = vs" using chain_unique[OF t] by simp
    then show False using as by (metis append_Cons append_Nil2 append_assoc list.distinct(1) self_append_conv2)
  qed
  then show ?case using Cons by auto
qed simp

lemma chain_dseg:
  "chain ld sl xs \<Longrightarrow> sl \<notin> Next_of ` set xs \<Longrightarrow>
   \<exists>bk. dseg ld bk sl xs (last (sl # map Next_of xs)) \<and> ld (last (sl # map Next_of xs)) = Inr None"
proof (induction xs arbitrary: sl)
  case (Cons a as)
  have d: "distinct (a # as)" using chain_distinct[OF Cons.prems(1)] .
  then obtain bk where bk: "dseg ld bk (Next_of a) as (last (Next_of a # map Next_of as))"
    "ld (last (Next_of a # map Next_of as)) = Inr None"
    using Cons.IH[of "Next_of a"] Cons.prems(1) by auto
  have "dseg ld (bk(a := Some sl)) (Next_of a) as (last (Next_of a # map Next_of as))"
    by (rule dseg_frame[OF bk(1)]) (use d in auto)
  then have "dseg ld (bk(a := Some sl)) sl (a # as) (last (Next_of a # map Next_of as))"
    using Cons.prems(1) by (simp del: last.simps)
  moreover have "last (sl # map Next_of (a # as)) = last (Next_of a # map Next_of as)" by simp
  ultimately show ?case using bk(2) by metis
qed simp

lemma dseg_chain: "dseg ld bk sl xs e \<Longrightarrow> ld e = Inr None \<Longrightarrow> chain ld sl xs"
  by (induction xs arbitrary: sl) auto

text \<open>A chain is a doubly linked list whose back pointers are not stored.\<close>

lemma chain_iff_dlist: "chain ld (First_of h) xs \<longleftrightarrow> (\<exists>bk. dlist ld bk h xs)"
proof
  assume c: "chain ld (First_of h) xs"
  have "First_of h \<notin> Next_of ` set xs" by auto
  with chain_dseg[OF c] chain_distinct[OF c] show "\<exists>bk. dlist ld bk h xs"
    unfolding dlist_def end_slot_def by blast
qed (auto simp: dlist_def intro: dseg_chain)

lemma chainE:
  assumes "chain ld (First_of h) xs"
  obtains bk where "dlist ld bk h xs"
  using assms chain_iff_dlist by blast

lemma chain_at: "chain ld (First_of h) (ys @ zs) \<Longrightarrow> ld (end_slot h ys) = Inr (ptr_to zs)"
  using chain_iff_dlist dlist_at by blast

lemma chain_first: "chain ld (First_of h) xs \<Longrightarrow> ld (First_of h) = Inr (ptr_to xs)"
  using chain_at[of ld h "[]" xs] by simp

lemma chain_member: "chain ld (First_of h) (ys @ a # zs) \<Longrightarrow> ld (Next_of a) = Inr (ptr_to zs)"
  using chain_at[of ld h "ys @ [a]" zs] by simp

lemma chain_insert:
  assumes "chain ld (First_of h) (ys @ zs)" "n \<notin> set (ys @ zs)"
    and "\<And>q. ld' q = (if q = end_slot h ys then Inr (Some n)
                else if q = Next_of n then ld (end_slot h ys) else ld q)"
  shows "chain ld' (First_of h) (ys @ n # zs)"
proof -
  obtain bk where bk: "dlist ld bk h (ys @ zs)" using assms(1) by (rule chainE)
  have "dlist ld' (\<lambda>a. if a = n then Some (end_slot h ys) else if zs \<noteq> [] \<and> a = hd zs then Some (Next_of n) else bk a)
      h (ys @ n # zs)" by (rule dlist_insert[OF bk assms(2,3)]) simp
  then show ?thesis using chain_iff_dlist by blast
qed

lemma chain_remove:
  assumes "chain ld (First_of h) (ys @ a # zs)"
    and "\<And>q. q \<noteq> Next_of a \<Longrightarrow> ld' q = (if q = end_slot h ys then ld (Next_of a) else ld q)"
  shows "chain ld' (First_of h) (ys @ zs)"
proof -
  obtain bk where bk: "dlist ld bk h (ys @ a # zs)" using assms(1) by (rule chainE)
  have "dlist ld' (\<lambda>b. if zs \<noteq> [] \<and> b = hd zs then Some (end_slot h ys) else bk b) h (ys @ zs)"
    by (rule dlist_remove[OF bk assms(2)]) simp_all
  then show ?thesis using chain_iff_dlist by blast
qed

lemma chain_elsewhere:
  assumes "chain ld (First_of h) xs" "ld' (First_of h) = ld (First_of h)"
    and "\<And>a. a \<in> set xs \<Longrightarrow> ld' (Next_of a) = ld (Next_of a)"
  shows "chain ld' (First_of h) xs"
  using assms dlist_elsewhere[of ld _ h xs ld'] chain_iff_dlist by blast

lemma chain_rehead:
  assumes "chain ld (First_of h) xs" "\<And>a. ld' (Next_of a) = ld (Next_of a)" "ld' (First_of k) = ld (First_of h)"
  shows "chain ld' (First_of k) xs"
proof -
  obtain bk where bk: "dlist ld bk h xs" using assms(1) by (rule chainE)
  have "dlist ld' (\<lambda>a. if a = hd xs then Some (First_of k) else bk a) k xs"
    by (rule dlist_rehead[OF bk assms(2,3)]) simp
  then show ?thesis using chain_iff_dlist by blast
qed

lemma chain_join:
  assumes "chain ld (First_of h) xs" "chain ld (First_of k) ys" "set xs \<inter> set ys = {}" "h \<noteq> k" "ys \<noteq> []"
    and "\<And>q. ld' q = (if q = First_of k then Inr None else if q = end_slot h xs then Inr (ptr_to ys) else ld q)"
  shows "chain ld' (First_of h) (xs @ ys) \<and> chain ld' (First_of k) []"
proof -
  obtain bx "by" where x: "dlist ld bx h xs" and y: "dlist ld by k ys" using assms(1,2) by (meson chainE)
  let ?bk = "\<lambda>a. if a \<in> set xs then bx a else by a"
  have "dlist ld ?bk h xs" using x by (rule dlist_elsewhere) simp_all
  moreover have "dlist ld ?bk k ys" using y by (rule dlist_elsewhere) (use assms(3) in auto)
  ultimately have "dlist ld' (\<lambda>a. if a = hd ys then Some (end_slot h xs) else ?bk a) h (xs @ ys) \<and>
      dlist ld' (\<lambda>a. if a = hd ys then Some (end_slot h xs) else ?bk a) k []"
    by (rule dlist_join[OF _ _ assms(3-6)]) simp
  then show ?thesis using chain_iff_dlist by blast
qed

text \<open>A list is not disturbed by what an operation touches elsewhere.\<close>

lemma dlist_touches:
  assumes "only_touches s s' H A" "h \<notin> H" "set xs \<inter> A = {}" "dlist (load_at hf en s) (back_at ep s) h xs"
  shows "dlist (load_at hf en s') (back_at ep s') h xs"
proof -
  have "a \<notin> A" if "a \<in> set xs" for a using that assms(3) by auto
  with touches_views[OF assms(1)] assms(2) show ?thesis
    by (intro dlist_elsewhere[OF assms(4)]) blast+
qed

lemma chain_touches:
  assumes "only_touches s s' H A" "h \<notin> H" "set xs \<inter> A = {}" "chain (load_at hf en s) (First_of h) xs"
  shows "chain (load_at hf en s') (First_of h) xs"
proof -
  have "a \<notin> A" if "a \<in> set xs" for a using that assms(3) by auto
  with touches_views[OF assms(1)] assms(2) show ?thesis
    by (intro chain_elsewhere[OF assms(4)]) blast+
qed

section \<open>Traversals\<close>

text \<open>Visiting \<open>xs\<close> in order, for a body that keeps the successors of the elements not yet visited.\<close>

lemma foreach_loop_fold:
  assumes "\<And>ys a zs m. xs = ys @ a # zs \<Longrightarrow> P m \<Longrightarrow> step m (Some a) = Inr (ptr_to zs)"
    and "\<And>a m m'. a \<in> set xs \<Longrightarrow> P m \<Longrightarrow> body a m = Inr m' \<Longrightarrow> P m'" and "P m" "length xs \<le> n"
  shows "foreach_loop_from n step body (ptr_to xs) m = bindE (foldE body xs m) (\<lambda>m'. Inr (Some m'))"
  using assms
proof (induction xs arbitrary: n m)
  case (Cons a as)
  obtain k where k: "n = Suc k" "length as \<le> k" using Cons.prems(4) by (cases n) auto
  show ?case
  proof (cases "body a m")
    case (Inr m1)
    have m1: "P m1" using Cons.prems(2)[OF _ Cons.prems(3) Inr] by simp
    have "step m1 (Some a) = Inr (ptr_to as)" using Cons.prems(1)[of "[]" a as] m1 by simp
    moreover have "foreach_loop_from k step body (ptr_to as) m1 = bindE (foldE body as m1) (\<lambda>m'. Inr (Some m'))"
    proof (rule Cons.IH[OF _ _ m1 k(2)])
      show "step m (Some b) = Inr (ptr_to zs)" if "as = ys @ b # zs" "P m" for ys b zs m
        using Cons.prems(1)[of "a # ys" b zs m] that by simp
      show "P m'" if "b \<in> set as" "P m" "body b m = Inr m'" for b m m'
        using Cons.prems(2)[OF _ that(2,3)] that(1) by simp
    qed
    ultimately show ?thesis using k(1) Inr by simp
  qed (use k(1) in simp)
qed simp

text \<open>
  The safe loop needs the successor only of the element it is about to visit: here the list at
  the time of a visit is what is left of it, so the body may take each element out.
\<close>

lemma foreach_safe_drain:
  assumes "\<And>a as m. R (a # as) m \<Longrightarrow> step m (Some a) = Inr (ptr_to as)"
    and "\<And>a as m. R (a # as) m \<Longrightarrow> \<exists>m'. body a m = Inr m' \<and> R as m'"
    and "R xs m" "length xs \<le> n"
  shows "\<exists>m'. foreach_safe_from n step body (ptr_to xs) m = Inr (Some m') \<and> foldE body xs m = Inr m' \<and> R [] m'"
  using assms(3,4)
proof (induction xs arbitrary: n m)
  case (Cons a as)
  obtain k where k: "n = Suc k" "length as \<le> k" using Cons.prems(2) by (cases n) auto
  obtain m1 where m1: "body a m = Inr m1" "R as m1" using assms(2)[OF Cons.prems(1)] by blast
  obtain m' where "foreach_safe_from k step body (ptr_to as) m1 = Inr (Some m')" "foldE body as m1 = Inr m'" "R [] m'"
    using Cons.IH[OF m1(2) k(2)] by blast
  then show ?case using k(1) m1(1) assms(1)[OF Cons.prems(1)] by auto
qed auto

lemma foreach_safe_fold:
  assumes "\<And>ys a zs m. xs = ys @ a # zs \<Longrightarrow> P m \<Longrightarrow> step m (Some a) = Inr (ptr_to zs)"
    and "\<And>a m m'. a \<in> set xs \<Longrightarrow> P m \<Longrightarrow> body a m = Inr m' \<Longrightarrow> P m'" and "P m" "length xs \<le> n"
  shows "foreach_safe_from n step body (ptr_to xs) m = bindE (foldE body xs m) (\<lambda>m'. Inr (Some m'))"
  using assms
proof (induction xs arbitrary: n m)
  case (Cons a as)
  obtain k where k: "n = Suc k" "length as \<le> k" using Cons.prems(4) by (cases n) auto
  have s: "step m (Some a) = Inr (ptr_to as)" using Cons.prems(1)[of "[]" a as] Cons.prems(3) by simp
  show ?case
  proof (cases "body a m")
    case (Inr m1)
    have m1: "P m1" using Cons.prems(2)[OF _ Cons.prems(3) Inr] by simp
    have "foreach_safe_from k step body (ptr_to as) m1 = bindE (foldE body as m1) (\<lambda>m'. Inr (Some m'))"
    proof (rule Cons.IH[OF _ _ m1 k(2)])
      show "step m (Some b) = Inr (ptr_to zs)" if "as = ys @ b # zs" "P m" for ys b zs m
        using Cons.prems(1)[of "a # ys" b zs m] that by simp
      show "P m'" if "b \<in> set as" "P m" "body b m = Inr m'" for b m m'
        using Cons.prems(2)[OF _ that(2,3)] that(1) by simp
    qed
    then show ?thesis using k(1) Inr s by simp
  qed (use k(1) s in simp)
qed simp

text \<open>
  A way through a list: \<open>nxt\<close> gives the successor of every member. The traversals of all families,
  forwards and backwards, rest on this one law.
\<close>

locale walkable =
  fixes rep :: "'s \<Rightarrow> addr list \<Rightarrow> bool" and nxt :: "'s \<Rightarrow> ptr \<Rightarrow> ptr res"
  assumes nxt_law: "rep s (ys @ a # zs) \<Longrightarrow> nxt s (Some a) = Inr (ptr_to zs)"
begin

lemma nxt_suffix: "rep s (xs @ zs) \<Longrightarrow> zs = us @ a # vs \<Longrightarrow> nxt s (Some a) = Inr (ptr_to vs)"
  using nxt_law[of s "xs @ us" a vs] by simp

text \<open>From any member on, a body that keeps the list sees the rest of the list in order.\<close>

lemma walk:
  assumes "rep (mem m) (ys @ zs)" "length zs \<le> n"
    and "\<And>a m m'. a \<in> set zs \<Longrightarrow> rep (mem m) (ys @ zs) \<Longrightarrow> body a m = Inr m' \<Longrightarrow> rep (mem m') (ys @ zs)"
  shows "foreach_loop_from n (\<lambda>m. nxt (mem m)) body (ptr_to zs) m = bindE (foldE body zs m) (\<lambda>m'. Inr (Some m'))"
  by (rule foreach_loop_fold[where P = "\<lambda>m. rep (mem m) (ys @ zs)"]) (use assms nxt_suffix in blast)+

lemma safe_walk:
  assumes "rep (mem m) (ys @ zs)" "length zs \<le> n"
    and "\<And>a m m'. a \<in> set zs \<Longrightarrow> rep (mem m) (ys @ zs) \<Longrightarrow> body a m = Inr m' \<Longrightarrow> rep (mem m') (ys @ zs)"
  shows "foreach_safe_from n (\<lambda>m. nxt (mem m)) body (ptr_to zs) m = bindE (foldE body zs m) (\<lambda>m'. Inr (Some m'))"
  by (rule foreach_safe_fold[where P = "\<lambda>m. rep (mem m) (ys @ zs)"]) (use assms nxt_suffix in blast)+

text \<open>The same for a body on a state of its own, from the first element or from a member on.\<close>

lemma visit:
  assumes "rep s xs" "length xs \<le> n"
  shows "foreach_loop_from n (\<lambda>_. nxt s) body (ptr_to xs) m = bindE (foldE body xs m) (\<lambda>m'. Inr (Some m'))"
    "foreach_safe_from n (\<lambda>_. nxt s) body (ptr_to xs) m = bindE (foldE body xs m) (\<lambda>m'. Inr (Some m'))"
  using walk[of "\<lambda>_. s" m "[]" xs n body] safe_walk[of "\<lambda>_. s" m "[]" xs n body] assms by simp_all

lemma visit_from:
  assumes "rep s (ys @ a # zs)" "length (a # zs) \<le> n"
  shows "foreach_loop_from n (\<lambda>_. nxt s) body (Some a) m = bindE (foldE body (a # zs) m) (\<lambda>m'. Inr (Some m'))"
    "foreach_safe_from n (\<lambda>_. nxt s) body (Some a) m = bindE (foldE body (a # zs) m) (\<lambda>m'. Inr (Some m'))"
  using walk[of "\<lambda>_. s" m ys "a # zs" n body] safe_walk[of "\<lambda>_. s" m ys "a # zs" n body] assms by simp_all

text \<open>The safe traversal tolerates a body that takes the visited element out of the list.\<close>

lemma safe_drain:
  assumes "rep (mem m) (ys @ zs)" "Q zs m" "length zs \<le> n"
    and "\<And>a as m. rep (mem m) (ys @ a # as) \<Longrightarrow> Q (a # as) m \<Longrightarrow>
      \<exists>m'. body a m = Inr m' \<and> rep (mem m') (ys @ as) \<and> Q as m'"
  shows "\<exists>m'. foreach_safe_from n (\<lambda>m. nxt (mem m)) body (ptr_to zs) m = Inr (Some m') \<and> rep (mem m') ys \<and> Q [] m'"
proof -
  have "\<exists>m'. foreach_safe_from n (\<lambda>m. nxt (mem m)) body (ptr_to zs) m = Inr (Some m') \<and> foldE body zs m = Inr m' \<and>
      (rep (mem m') (ys @ []) \<and> Q [] m')"
    by (rule foreach_safe_drain[where R = "\<lambda>zs m. rep (mem m) (ys @ zs) \<and> Q zs m"]) (use assms nxt_law in blast)+
  then show ?thesis by auto
qed

lemma find_before_member:
  assumes "rep s (us @ ys @ b # zs)" "distinct (ys @ b # zs)" "length ys \<le> n"
  shows "find_before n (nxt s) (ptr_to zs) (ptr_to (ys @ b # zs)) = Inr (Some (Some b))"
  using assms
proof (induction ys arbitrary: us n)
  case Nil
  then show ?case using nxt_law[of s us b zs] by (cases n) simp_all
next
  case (Cons c cs)
  obtain k where k: "n = Suc k" "length cs \<le> k" using Cons.prems(3) by (cases n) auto
  have "nxt s (Some c) = Inr (ptr_to (cs @ b # zs))" using nxt_law[of s us c "cs @ b # zs"] Cons.prems(1) by simp
  moreover have "ptr_to (cs @ b # zs) \<noteq> ptr_to zs" using Cons.prems(2) by (cases cs; cases zs) auto
  moreover have "find_before k (nxt s) (ptr_to zs) (ptr_to (cs @ b # zs)) = Inr (Some (Some b))"
    using Cons.IH[of "us @ [c]" k] Cons.prems(1,2) k(2) by simp
  ultimately show ?case using k(1) by simp
qed

lemma find_before_absent:
  assumes "rep s (us @ xs)" "a \<notin> set xs" "length xs \<le> n" "nxt s None = Inl Null_deref"
  shows "find_before n (nxt s) (Some a) (ptr_to xs) = Inl Null_deref"
  using assms
proof (induction xs arbitrary: us n)
  case Nil
  then show ?case by (cases n) simp_all
next
  case (Cons c cs)
  obtain k where k: "n = Suc k" "length cs \<le> k" using Cons.prems(3) by (cases n) auto
  have "nxt s (Some c) = Inr (ptr_to cs)" using nxt_law[of s us c cs] Cons.prems(1) by simp
  moreover have "ptr_to cs \<noteq> Some a" using Cons.prems(2) by (cases cs) auto
  ultimately show ?case using Cons.IH[of "us @ [c]" k] Cons.prems k by simp
qed

end

text \<open>Freeing an element outside a list does not disturb it.\<close>

lemma free_load: "q \<noteq> Next_of a \<Longrightarrow> load_at hf en (free_links a s) q = load_at hf en s q"
  by (cases q) (auto simp: load_at.simps link_of_def)

lemma free_alloc: "alloc (free_links a s) b = (alloc s b \<and> b \<noteq> a)"
  by (simp add: alloc_def)

lemma dlist_free:
  assumes "dlist (load_at hf en s) (back_at ep s) h xs" "a \<notin> set xs"
  shows "dlist (load_at hf en (free_links a s)) (back_at ep (free_links a s)) h xs"
proof -
  have n: "b \<noteq> a" if "b \<in> set xs" for b using that assms(2) by auto
  show ?thesis by (rule dlist_elsewhere[OF assms(1)]) (simp_all add: free_load n back_at_def)
qed

lemma chain_free:
  assumes "chain (load_at hf en s) (First_of h) xs" "a \<notin> set xs"
  shows "chain (load_at hf en (free_links a s)) (First_of h) xs"
proof -
  have n: "b \<noteq> a" if "b \<in> set xs" for b using that assms(2) by auto
  show ?thesis by (rule chain_elsewhere[OF assms(1)]) (simp_all add: free_load n)
qed

end
