(* ===== verification/Tail_Queue.thy ===== *)
theory Tail_Queue
  imports Link_Chains
begin

text \<open>
  The tail queues of \<open>server/src/queue.h\<close> (the macros with prefix \<open>TAILQ\<close>), with which the
  server keeps its threads, over \<open>Link_Memory\<close>. The macros store addresses of pointers: \<open>tqh_last\<close>
  and \<open>tqe_prev\<close> are slots. The consistency checks of kernels with \<open>INVARIANTS\<close> are empty in this
  build and definitions of their own here; the trace fields of \<open>QUEUE_MACRO_DEBUG\<close> do not exist.
\<close>

section \<open>Heads and entries\<close>

record tailq_head =
  tqh_first :: ptr
  tqh_last :: slot

record tailq_entry =
  tqe_next :: ptr
  tqe_prev :: slot

type_synonym tq_mem = "(tailq_head, tailq_entry) qmem"

text \<open>Access through slots, to back pointers and to the last pointer, on these fields.\<close>

abbreviation load :: "tq_mem \<Rightarrow> slot \<Rightarrow> ptr res" where
  "load \<equiv> load_at tqh_first tqe_next"

abbreviation store :: "tq_mem \<Rightarrow> slot \<Rightarrow> ptr \<Rightarrow> tq_mem res" where
  "store \<equiv> store_at (\<lambda>p v. v\<lparr>tqh_first := p\<rparr>) (\<lambda>p e. e\<lparr>tqe_next := p\<rparr>)"

abbreviation set_prev :: "tq_mem \<Rightarrow> ptr \<Rightarrow> slot \<Rightarrow> tq_mem res" where
  "set_prev \<equiv> store_back (\<lambda>sl e. e\<lparr>tqe_prev := sl\<rparr>)"

abbreviation set_last :: "tq_mem \<Rightarrow> head_id \<Rightarrow> slot \<Rightarrow> tq_mem" where
  "set_last \<equiv> store_last (\<lambda>sl v. v\<lparr>tqh_last := sl\<rparr>)"

abbreviation prev_of :: "tq_mem \<Rightarrow> addr \<Rightarrow> slot option" where
  "prev_of \<equiv> back_at tqe_prev"

abbreviation stored :: "tq_mem \<Rightarrow> slot \<Rightarrow> ptr \<Rightarrow> tq_mem" where
  "stored \<equiv> stored_at (\<lambda>p v. v\<lparr>tqh_first := p\<rparr>) (\<lambda>p e. e\<lparr>tqe_next := p\<rparr>)"

abbreviation with_prev :: "tq_mem \<Rightarrow> addr \<Rightarrow> slot \<Rightarrow> tq_mem" where
  "with_prev \<equiv> back_stored (\<lambda>sl e. e\<lparr>tqe_prev := sl\<rparr>)"

interpretation tqf: back_fields tqh_first "\<lambda>p v. v\<lparr>tqh_first := p\<rparr>" tqe_next "\<lambda>p e. e\<lparr>tqe_next := p\<rparr>"
  tqe_prev "\<lambda>sl e. e\<lparr>tqe_prev := sl\<rparr>"
  by unfold_locales simp_all

interpretation tql: last_fields tqh_first "\<lambda>p v. v\<lparr>tqh_first := p\<rparr>" tqh_last "\<lambda>sl v. v\<lparr>tqh_last := sl\<rparr>"
  by unfold_locales simp_all

text \<open>
  The cast in \<open>TAILQ_LAST\<close> and \<open>TAILQ_PREV\<close>: the struct a slot points into, read as a head,
  has its second field at the place of \<open>tqe_prev\<close>.
\<close>

fun as_head_last :: "tq_mem \<Rightarrow> slot \<Rightarrow> slot res" where
  "as_head_last s (First_of h) = Inr (tqh_last (heads s h))"
| "as_head_last s (Next_of a) = bindE (link_of s (Some a)) (\<lambda>e. Inr (tqe_prev e))"

section \<open>The macros\<close>

definition TAILQ_EMPTY :: "tq_mem \<Rightarrow> head_id \<Rightarrow> bool" where
  "TAILQ_EMPTY s h = (tqh_first (heads s h) = None)"

definition TAILQ_FIRST :: "tq_mem \<Rightarrow> head_id \<Rightarrow> ptr" where
  "TAILQ_FIRST s h = tqh_first (heads s h)"

definition TAILQ_NEXT :: "tq_mem \<Rightarrow> ptr \<Rightarrow> ptr res" where
  "TAILQ_NEXT s elm = bindE (link_of s elm) (\<lambda>e. Inr (tqe_next e))"

definition TAILQ_LAST :: "tq_mem \<Rightarrow> head_id \<Rightarrow> ptr res" where
  "TAILQ_LAST s h = bindE (as_head_last s (tqh_last (heads s h))) (load s)"

definition TAILQ_PREV :: "tq_mem \<Rightarrow> ptr \<Rightarrow> ptr res" where
  "TAILQ_PREV s elm = bindE (link_of s elm) (\<lambda>e. bindE (as_head_last s (tqe_prev e)) (load s))"

definition TAILQ_HEAD_INITIALIZER :: "head_id \<Rightarrow> tailq_head" where
  "TAILQ_HEAD_INITIALIZER h = \<lparr>tqh_first = None, tqh_last = First_of h\<rparr>"

definition TAILQ_INIT :: "tq_mem \<Rightarrow> head_id \<Rightarrow> tq_mem" where
  "TAILQ_INIT s h = set_head s h \<lparr>tqh_first = None, tqh_last = First_of h\<rparr>"

definition TAILQ_INSERT_TAIL :: "tq_mem \<Rightarrow> head_id \<Rightarrow> addr \<Rightarrow> tq_mem res" where
  "TAILQ_INSERT_TAIL s h elm =
     bindE (store s (Next_of elm) None) (\<lambda>s1.
     bindE (set_prev s1 (Some elm) (tqh_last (heads s1 h))) (\<lambda>s2.
     bindE (store s2 (tqh_last (heads s2 h)) (Some elm)) (\<lambda>s3.
       Inr (set_last s3 h (Next_of elm)))))"

definition TAILQ_INSERT_HEAD :: "tq_mem \<Rightarrow> head_id \<Rightarrow> addr \<Rightarrow> tq_mem res" where
  "TAILQ_INSERT_HEAD s h elm =
     bindE (store s (Next_of elm) (TAILQ_FIRST s h)) (\<lambda>s1.
     bindE (if TAILQ_FIRST s h \<noteq> None
            then set_prev s1 (TAILQ_FIRST s1 h) (Next_of elm)
            else Inr (set_last s1 h (Next_of elm))) (\<lambda>s2.
     bindE (store s2 (First_of h) (Some elm)) (\<lambda>s3.
       set_prev s3 (Some elm) (First_of h))))"

definition TAILQ_INSERT_AFTER :: "tq_mem \<Rightarrow> head_id \<Rightarrow> addr \<Rightarrow> addr \<Rightarrow> tq_mem res" where
  "TAILQ_INSERT_AFTER s h listelm elm =
     bindE (TAILQ_NEXT s (Some listelm)) (\<lambda>nx.
     bindE (store s (Next_of elm) nx) (\<lambda>s1.
     bindE (if nx \<noteq> None
            then bindE (TAILQ_NEXT s1 (Some elm)) (\<lambda>p. set_prev s1 p (Next_of elm))
            else Inr (set_last s1 h (Next_of elm))) (\<lambda>s2.
     bindE (store s2 (Next_of listelm) (Some elm)) (\<lambda>s3.
       set_prev s3 (Some elm) (Next_of listelm)))))"

definition TAILQ_INSERT_BEFORE :: "tq_mem \<Rightarrow> addr \<Rightarrow> addr \<Rightarrow> tq_mem res" where
  "TAILQ_INSERT_BEFORE s listelm elm =
     bindE (link_of s (Some listelm)) (\<lambda>l.
     bindE (set_prev s (Some elm) (tqe_prev l)) (\<lambda>s1.
     bindE (store s1 (Next_of elm) (Some listelm)) (\<lambda>s2.
     bindE (link_of s2 (Some listelm)) (\<lambda>l2.
     bindE (store s2 (tqe_prev l2) (Some elm)) (\<lambda>s3.
       set_prev s3 (Some listelm) (Next_of elm))))))"

definition TAILQ_REMOVE :: "tq_mem \<Rightarrow> head_id \<Rightarrow> addr \<Rightarrow> tq_mem res" where
  "TAILQ_REMOVE s h elm =
     bindE (link_of s (Some elm)) (\<lambda>e.
     bindE (if tqe_next e \<noteq> None
            then set_prev s (tqe_next e) (tqe_prev e)
            else Inr (set_last s h (tqe_prev e))) (\<lambda>s1.
     bindE (link_of s1 (Some elm)) (\<lambda>e1.
       store s1 (tqe_prev e1) (tqe_next e1))))"

definition TAILQ_CONCAT :: "tq_mem \<Rightarrow> head_id \<Rightarrow> head_id \<Rightarrow> tq_mem res" where
  "TAILQ_CONCAT s head1 head2 =
     (if TAILQ_EMPTY s head2 then Inr s
      else
        bindE (store s (tqh_last (heads s head1)) (tqh_first (heads s head2))) (\<lambda>s1.
        bindE (set_prev s1 (tqh_first (heads s1 head2)) (tqh_last (heads s1 head1))) (\<lambda>s2.
          Inr (TAILQ_INIT (set_last s2 head1 (tqh_last (heads s2 head2))) head2))))"

definition TAILQ_SWAP :: "tq_mem \<Rightarrow> head_id \<Rightarrow> head_id \<Rightarrow> tq_mem res" where
  "TAILQ_SWAP s head1 head2 =
     (let swap_first = tqh_first (heads s head1); swap_last = tqh_last (heads s head1);
          s1 = set_head s head1 (heads s head2);
          s2 = set_head s1 head2 \<lparr>tqh_first = swap_first, tqh_last = swap_last\<rparr> in
      bindE (case tqh_first (heads s2 head1) of
               Some p \<Rightarrow> set_prev s2 (Some p) (First_of head1)
             | None \<Rightarrow> Inr (set_last s2 head1 (First_of head1))) (\<lambda>s3.
        case tqh_first (heads s3 head2) of
          Some p \<Rightarrow> set_prev s3 (Some p) (First_of head2)
        | None \<Rightarrow> Inr (set_last s3 head2 (First_of head2))))"

text \<open>
  Traversals. The state of the loop contains the links, \<open>mem\<close> is where, and the body may change
  the state. The fuel bounds the number of visited elements, \<open>None\<close> when it is spent.
\<close>

definition TAILQ_FOREACH ::
  "nat \<Rightarrow> ('m \<Rightarrow> tq_mem) \<Rightarrow> head_id \<Rightarrow> (addr \<Rightarrow> 'm \<Rightarrow> 'm res) \<Rightarrow> 'm \<Rightarrow> 'm option res" where
  "TAILQ_FOREACH n mem h body m = foreach_loop_from n (\<lambda>m. TAILQ_NEXT (mem m)) body (TAILQ_FIRST (mem m) h) m"

definition TAILQ_FOREACH_FROM ::
  "nat \<Rightarrow> ('m \<Rightarrow> tq_mem) \<Rightarrow> ptr \<Rightarrow> head_id \<Rightarrow> (addr \<Rightarrow> 'm \<Rightarrow> 'm res) \<Rightarrow> 'm \<Rightarrow> 'm option res" where
  "TAILQ_FOREACH_FROM n mem var h body m =
     foreach_loop_from n (\<lambda>m. TAILQ_NEXT (mem m)) body (start_from var (TAILQ_FIRST (mem m) h)) m"

definition TAILQ_FOREACH_SAFE ::
  "nat \<Rightarrow> ('m \<Rightarrow> tq_mem) \<Rightarrow> head_id \<Rightarrow> (addr \<Rightarrow> 'm \<Rightarrow> 'm res) \<Rightarrow> 'm \<Rightarrow> 'm option res" where
  "TAILQ_FOREACH_SAFE n mem h body m = foreach_safe_from n (\<lambda>m. TAILQ_NEXT (mem m)) body (TAILQ_FIRST (mem m) h) m"

definition TAILQ_FOREACH_FROM_SAFE ::
  "nat \<Rightarrow> ('m \<Rightarrow> tq_mem) \<Rightarrow> ptr \<Rightarrow> head_id \<Rightarrow> (addr \<Rightarrow> 'm \<Rightarrow> 'm res) \<Rightarrow> 'm \<Rightarrow> 'm option res" where
  "TAILQ_FOREACH_FROM_SAFE n mem var h body m =
     foreach_safe_from n (\<lambda>m. TAILQ_NEXT (mem m)) body (start_from var (TAILQ_FIRST (mem m) h)) m"

definition TAILQ_FOREACH_REVERSE ::
  "nat \<Rightarrow> ('m \<Rightarrow> tq_mem) \<Rightarrow> head_id \<Rightarrow> (addr \<Rightarrow> 'm \<Rightarrow> 'm res) \<Rightarrow> 'm \<Rightarrow> 'm option res" where
  "TAILQ_FOREACH_REVERSE n mem h body m =
     bindE (TAILQ_LAST (mem m) h) (\<lambda>p. foreach_loop_from n (\<lambda>m. TAILQ_PREV (mem m)) body p m)"

definition TAILQ_FOREACH_REVERSE_FROM ::
  "nat \<Rightarrow> ('m \<Rightarrow> tq_mem) \<Rightarrow> ptr \<Rightarrow> head_id \<Rightarrow> (addr \<Rightarrow> 'm \<Rightarrow> 'm res) \<Rightarrow> 'm \<Rightarrow> 'm option res" where
  "TAILQ_FOREACH_REVERSE_FROM n mem var h body m =
     bindE (case var of None \<Rightarrow> TAILQ_LAST (mem m) h | Some _ \<Rightarrow> Inr var) (\<lambda>p.
       foreach_loop_from n (\<lambda>m. TAILQ_PREV (mem m)) body p m)"

definition TAILQ_FOREACH_REVERSE_SAFE ::
  "nat \<Rightarrow> ('m \<Rightarrow> tq_mem) \<Rightarrow> head_id \<Rightarrow> (addr \<Rightarrow> 'm \<Rightarrow> 'm res) \<Rightarrow> 'm \<Rightarrow> 'm option res" where
  "TAILQ_FOREACH_REVERSE_SAFE n mem h body m =
     bindE (TAILQ_LAST (mem m) h) (\<lambda>p. foreach_safe_from n (\<lambda>m. TAILQ_PREV (mem m)) body p m)"

definition TAILQ_FOREACH_REVERSE_FROM_SAFE ::
  "nat \<Rightarrow> ('m \<Rightarrow> tq_mem) \<Rightarrow> ptr \<Rightarrow> head_id \<Rightarrow> (addr \<Rightarrow> 'm \<Rightarrow> 'm res) \<Rightarrow> 'm \<Rightarrow> 'm option res" where
  "TAILQ_FOREACH_REVERSE_FROM_SAFE n mem var h body m =
     bindE (case var of None \<Rightarrow> TAILQ_LAST (mem m) h | Some _ \<Rightarrow> Inr var) (\<lambda>p.
       foreach_safe_from n (\<lambda>m. TAILQ_PREV (mem m)) body p m)"

text \<open>
  The consistency checks, which are compiled in kernels with \<open>INVARIANTS\<close> only: \<open>True\<close> when the
  check passes, \<open>False\<close> when it calls \<open>panic\<close>.
\<close>

definition QMD_TAILQ_CHECK_HEAD :: "tq_mem \<Rightarrow> head_id \<Rightarrow> bool res" where
  "QMD_TAILQ_CHECK_HEAD s h =
     (if TAILQ_EMPTY s h then Inr True
      else bindE (link_of s (TAILQ_FIRST s h)) (\<lambda>e. Inr (tqe_prev e = First_of h)))"

definition QMD_TAILQ_CHECK_TAIL :: "tq_mem \<Rightarrow> head_id \<Rightarrow> bool res" where
  "QMD_TAILQ_CHECK_TAIL s h = bindE (load s (tqh_last (heads s h))) (\<lambda>p. Inr (p = None))"

definition QMD_TAILQ_CHECK_NEXT :: "tq_mem \<Rightarrow> addr \<Rightarrow> bool res" where
  "QMD_TAILQ_CHECK_NEXT s elm =
     bindE (TAILQ_NEXT s (Some elm)) (\<lambda>nx.
       if nx = None then Inr True
       else bindE (link_of s nx) (\<lambda>e. Inr (tqe_prev e = Next_of elm)))"

definition QMD_TAILQ_CHECK_PREV :: "tq_mem \<Rightarrow> addr \<Rightarrow> bool res" where
  "QMD_TAILQ_CHECK_PREV s elm =
     bindE (link_of s (Some elm)) (\<lambda>e. bindE (load s (tqe_prev e)) (\<lambda>p. Inr (p = Some elm)))"

section \<open>Abstraction\<close>

text \<open>\<open>tailq s h xs\<close>: the queue with head \<open>h\<close> holds the elements \<open>xs\<close>, first to last.\<close>

definition tailq :: "tq_mem \<Rightarrow> head_id \<Rightarrow> addr list \<Rightarrow> bool" where
  "tailq s h xs \<longleftrightarrow> dlist (load s) (prev_of s) h xs \<and> tqh_last (heads s h) = end_slot h xs"

lemma tailq_dlist: "tailq s h xs \<Longrightarrow> dlist (load s) (prev_of s) h xs"
  by (simp add: tailq_def)

lemma tailq_last: "tailq s h xs \<Longrightarrow> tqh_last (heads s h) = end_slot h xs"
  by (simp add: tailq_def)

lemma tailq_alloc:
  assumes "tailq s h xs" "a \<in> set xs"
  shows "alloc s a"
proof -
  obtain ys zs where "xs = ys @ a # zs" using assms(2) by (auto dest: split_list)
  then show ?thesis using dlist_member(2) tailq_dlist[OF assms(1)] back_alloc by metis
qed

lemma tailq_last_valid: "tailq s h xs \<Longrightarrow> valid s (end_slot h xs)"
  by (auto simp: tailq_def dlist_def intro: load_valid)

text \<open>A queue at another head is not disturbed by what an operation touches elsewhere.\<close>

lemma tailq_elsewhere:
  assumes "only_touches s s' H A" "h \<notin> H" "set ys \<inter> A = {}" "tailq s h ys"
  shows "tailq s' h ys"
  using dlist_touches[OF assms(1-3) tailq_dlist[OF assms(4)]] touches_views(1)[OF assms(1,2)] assms(4)
  by (simp add: tailq_def)

section \<open>What the macros do to the list of elements\<close>

lemma init_empty: "tailq (TAILQ_INIT s h) h [] \<and> only_touches s (TAILQ_INIT s h) {h} {}"
  by (auto simp: TAILQ_INIT_def tailq_def dlist_empty intro!: touches_intros)

lemma insert_between:
  assumes "tailq s h (ys @ zs)" "n \<notin> set (ys @ zs)"
    and "\<And>q. load s' q = (if q = end_slot h ys then Inr (Some n)
                else if q = Next_of n then load s (end_slot h ys) else load s q)"
    and "\<And>a. prev_of s' a = (if a = n then Some (end_slot h ys)
                else if zs \<noteq> [] \<and> a = hd zs then Some (Next_of n) else prev_of s a)"
    and "tqh_last (heads s' h) = (if zs = [] then Next_of n else tqh_last (heads s h))"
  shows "tailq s' h (ys @ n # zs)"
  using dlist_insert[OF tailq_dlist[OF assms(1)] assms(2-4)] assms(1,5) by (auto simp: tailq_def)

lemma remove_between:
  assumes "tailq s h (ys @ a # zs)"
    and "\<And>q. q \<noteq> Next_of a \<Longrightarrow> load s' q = (if q = end_slot h ys then load s (Next_of a) else load s q)"
    and "\<And>b. b \<noteq> a \<Longrightarrow> prev_of s' b = (if zs \<noteq> [] \<and> b = hd zs then Some (end_slot h ys) else prev_of s b)"
    and "tqh_last (heads s' h) = (if zs = [] then end_slot h ys else tqh_last (heads s h))"
  shows "tailq s' h (ys @ zs)"
  using dlist_remove[OF tailq_dlist[OF assms(1)] assms(2,3)] assms(1,4) by (auto simp: tailq_def)

lemma tailq_parts:
  assumes "tailq s h (ys @ zs)"
  shows "distinct (ys @ zs)" "load s (end_slot h ys) = Inr (ptr_to zs)" "load s (tqh_last (heads s h)) = Inr None"
  using dlist_parts(1,4)[OF tailq_dlist[OF assms]] dlist_at[OF tailq_dlist[OF assms]] tailq_last[OF assms] by auto

lemma tailq_first_view:
  "tailq s h xs \<Longrightarrow> tqh_first (heads s h) = (case xs of [] \<Rightarrow> None | a # _ \<Rightarrow> Some a)"
  using dlist_first[OF tailq_dlist] by (fastforce simp: load_at.simps ptr_to_def)

lemma next_view:
  assumes "tailq s h (ys @ a # zs)"
  shows "load s (Next_of a) = Inr (case zs of [] \<Rightarrow> None | b # _ \<Rightarrow> Some b)"
    "prev_of s a = Some (end_slot h ys)" "alloc s a"
  using dlist_member[OF tailq_dlist[OF assms]] tailq_alloc[OF assms] by (auto simp: ptr_to_def)

lemma next_field:
  assumes "tailq s h (ys @ a # zs)"
  shows "tqe_next (the (links s a)) = (case zs of [] \<Rightarrow> None | b # _ \<Rightarrow> Some b)"
    "tqe_prev (the (links s a)) = end_slot h ys"
  using next_view[OF assms] entry_views by blast+

lemma insert_tail_spec:
  assumes "tailq s h xs" "alloc s n" "n \<notin> set xs"
  shows "\<exists>s'. TAILQ_INSERT_TAIL s h n = Inr s' \<and> tailq s' h (xs @ [n]) \<and>
    only_touches s s' {h} (insert n (set xs))"
proof -
  define e where "e = end_slot h xs"
  define s' where "s' = set_last (stored (with_prev (stored s (Next_of n) None) n e) e (Some n)) h (Next_of n)"
  have e: "tqh_last (heads s h) = e" using tailq_last[OF assms(1)] by (simp add: e_def)
  have v: "valid s e" "load s e = Inr None" "e \<noteq> Next_of n"
    using tailq_last_valid[OF assms(1)] assms tailq_parts(2)[of s h xs "[]"] by (auto simp: e_def)
  have "tailq s' h (xs @ [n])"
    by (rule insert_between[of s]) (use assms v in \<open>auto simp: s'_def e_def\<close>)
  moreover have "only_touches s s' {h} (insert n (set xs))"
    unfolding s'_def using assms v end_slot_cases[of h xs] by (intro touches_intros) (auto simp: e_def)
  ultimately show ?thesis using assms v e by (simp add: TAILQ_INSERT_TAIL_def s'_def)
qed

lemma insert_head_spec:
  assumes "tailq s h xs" "alloc s n" "n \<notin> set xs"
  shows "\<exists>s'. TAILQ_INSERT_HEAD s h n = Inr s' \<and> tailq s' h (n # xs) \<and>
    only_touches s s' {h} (insert n (set xs))"
proof -
  define s1 where "s1 = stored s (Next_of n) (TAILQ_FIRST s h)"
  define s2 where "s2 = (case xs of [] \<Rightarrow> set_last s1 h (Next_of n) | a # _ \<Rightarrow> with_prev s1 a (Next_of n))"
  define s' where "s' = with_prev (stored s2 (First_of h) (Some n)) n (First_of h)"
  have a: "alloc s a" if "a \<in> set xs" for a using tailq_alloc[OF assms(1) that] .
  have f: "load s (First_of h) = Inr (TAILQ_FIRST s h)" by (simp add: load_at.simps TAILQ_FIRST_def)
  have "tailq s' h ([] @ n # xs)"
    by (rule insert_between[of s])
      (use assms a f in \<open>auto simp: s'_def s2_def s1_def split: list.split\<close>)
  moreover have "only_touches s s' {h} (insert n (set xs))"
    unfolding s'_def s2_def s1_def using assms a
    by (cases xs) (auto intro!: touches_intros)
  moreover have "TAILQ_INSERT_HEAD s h n = Inr s'"
    using assms a tailq_first_view[OF assms(1)]
    by (cases xs) (simp_all add: TAILQ_INSERT_HEAD_def s'_def s2_def s1_def TAILQ_FIRST_def)
  ultimately show ?thesis by simp
qed

lemma remove_spec:
  assumes "tailq s h (ys @ a # zs)"
  shows "\<exists>s'. TAILQ_REMOVE s h a = Inr s' \<and> tailq s' h (ys @ zs) \<and>
    only_touches s s' {h} (set (ys @ a # zs))"
proof -
  define m where "m = end_slot h ys"
  define nx where "nx = (case zs of [] \<Rightarrow> None | b # _ \<Rightarrow> Some b)"
  define s1 where "s1 = (case zs of [] \<Rightarrow> set_last s h m | b # _ \<Rightarrow> with_prev s b m)"
  define s' where "s' = stored s1 m nx"
  note nv = next_view[OF assms] and nf = next_field[OF assms]
  have al: "alloc s c" if "c \<in> set (ys @ a # zs)" for c using tailq_alloc[OF assms that] .
  have v: "valid s m" using al end_slot_cases[of h ys] by (auto simp: m_def)
  have d: "distinct (ys @ a # zs)" using tailq_parts(1)[OF assms] .
  have "tailq s' h (ys @ zs)"
    by (rule remove_between[OF assms])
      (use al v nv in \<open>auto simp: s'_def s1_def nx_def m_def split: list.split\<close>)
  moreover have "only_touches s s' {h} (set (ys @ a # zs))"
    unfolding s'_def s1_def using al v end_slot_cases[of h ys]
    by (cases zs) (auto intro!: touches_intros simp: m_def)
  moreover have "TAILQ_REMOVE s h a = Inr s'"
    using al v nf d by (cases zs)
      (simp_all add: TAILQ_REMOVE_def s'_def s1_def nx_def m_def)
  ultimately show ?thesis by blast
qed

lemma insert_after_spec:
  assumes "tailq s h (ys @ b # zs)" "alloc s n" "n \<notin> set (ys @ b # zs)"
  shows "\<exists>s'. TAILQ_INSERT_AFTER s h b n = Inr s' \<and> tailq s' h (ys @ b # n # zs) \<and>
    only_touches s s' {h} (insert n (set (ys @ b # zs)))"
proof -
  define nx where "nx = (case zs of [] \<Rightarrow> None | c # _ \<Rightarrow> Some c)"
  define s1 where "s1 = stored s (Next_of n) nx"
  define s2 where "s2 = (case zs of [] \<Rightarrow> set_last s1 h (Next_of n) | c # _ \<Rightarrow> with_prev s1 c (Next_of n))"
  define s' where "s' = with_prev (stored s2 (Next_of b) (Some n)) n (Next_of b)"
  note nv = next_view[OF assms(1)] and nf = next_field[OF assms(1)]
  have al: "alloc s c" if "c \<in> set (ys @ b # zs)" for c using tailq_alloc[OF assms(1) that] .
  have "tailq s' h ((ys @ [b]) @ n # zs)"
    by (rule insert_between[of s])
      (use assms al nv in \<open>auto simp: s'_def s2_def s1_def nx_def split: list.split\<close>)
  moreover have "only_touches s s' {h} (insert n (set (ys @ b # zs)))"
    unfolding s'_def s2_def s1_def using assms(2) al by (cases zs) (auto intro!: touches_intros)
  moreover have "TAILQ_INSERT_AFTER s h b n = Inr s'"
    using assms(2,3) al nf by (cases zs)
      (simp_all add: TAILQ_INSERT_AFTER_def TAILQ_NEXT_def s'_def s2_def s1_def nx_def)
  ultimately show ?thesis by simp
qed

lemma insert_before_spec:
  assumes "tailq s h (ys @ b # zs)" "alloc s n" "n \<notin> set (ys @ b # zs)"
  shows "\<exists>s'. TAILQ_INSERT_BEFORE s b n = Inr s' \<and> tailq s' h (ys @ n # b # zs) \<and>
    only_touches s s' {h} (insert n (set (ys @ b # zs)))"
proof -
  define m where "m = end_slot h ys"
  define s' where "s' = with_prev (stored (stored (with_prev s n m) (Next_of n) (Some b)) m (Some n)) b (Next_of n)"
  note nv = next_view[OF assms(1)] and nf = next_field[OF assms(1)]
  have al: "alloc s c" if "c \<in> set (ys @ b # zs)" for c using tailq_alloc[OF assms(1) that] .
  have v: "valid s m" "load s m = Inr (Some b)" "m \<noteq> Next_of n"
    using al end_slot_cases[of h ys] tailq_parts(2)[OF assms(1)] assms(3) by (auto simp: m_def)
  have "tailq s' h (ys @ n # b # zs)"
    by (rule insert_between[of s]) (use assms al v in \<open>auto simp: s'_def m_def\<close>)
  moreover have "only_touches s s' {h} (insert n (set (ys @ b # zs)))"
    unfolding s'_def using assms(2) al v end_slot_cases[of h ys] by (auto intro!: touches_intros simp: m_def)
  moreover have "TAILQ_INSERT_BEFORE s b n = Inr s'"
    using assms(2,3) al nf v by (simp add: TAILQ_INSERT_BEFORE_def s'_def m_def)
  ultimately show ?thesis by blast
qed

lemma as_head_last_next: "prev_of s b = Some sl \<Longrightarrow> as_head_last s (Next_of b) = Inr sl"
  using back_alloc[of tqe_prev s b sl] entry_views(1)[of tqe_prev s b sl] by simp

text \<open>The casts reach the field behind the pointer that a slot is the address of.\<close>

lemma as_head_last_end:
  assumes "tailq s h (ys @ zs)" "ys \<noteq> []"
  shows "bindE (as_head_last s (end_slot h ys)) (load s) = Inr (Some (last ys))"
proof -
  obtain ws b where ys: "ys = ws @ [b]" using assms(2) by (cases ys rule: rev_cases) auto
  then have w: "tailq s h (ws @ b # zs)" using assms(1) by simp
  show ?thesis using as_head_last_next[OF next_view(2)[OF w]] tailq_parts(2)[OF w] ys by simp
qed

lemma as_head_last_first: "tailq s h xs \<Longrightarrow> bindE (as_head_last s (First_of h)) (load s) = Inr None"
  using tailq_parts(3)[of s h xs "[]"] by simp

lemma last_spec:
  assumes "tailq s h xs"
  shows "TAILQ_LAST s h = Inr (if xs = [] then None else Some (last xs))"
  using as_head_last_end[of s h xs "[]"] as_head_last_first[OF assms] tailq_last[OF assms] assms
  by (auto simp: TAILQ_LAST_def)

lemma prev_spec:
  assumes "tailq s h (ys @ a # zs)"
  shows "TAILQ_PREV s (Some a) = Inr (if ys = [] then None else Some (last ys))"
  using as_head_last_end[OF assms] as_head_last_first[OF assms] next_view(3)[OF assms] next_field(2)[OF assms]
  by (auto simp: TAILQ_PREV_def)

lemma next_spec:
  assumes "tailq s h (ys @ a # zs)"
  shows "TAILQ_NEXT s (Some a) = Inr (case zs of [] \<Rightarrow> None | b # _ \<Rightarrow> Some b)"
  using next_view[OF assms] next_field[OF assms] by (simp add: TAILQ_NEXT_def)

lemma first_spec: "tailq s h xs \<Longrightarrow> TAILQ_FIRST s h = (case xs of [] \<Rightarrow> None | a # _ \<Rightarrow> Some a)"
  using tailq_first_view by (simp add: TAILQ_FIRST_def)

lemma empty_spec: "tailq s h xs \<Longrightarrow> TAILQ_EMPTY s h = (xs = [])"
  using tailq_first_view[of s h xs] by (auto simp: TAILQ_EMPTY_def split: list.splits)

lemma tailq_disjoint:
  assumes "tailq s h xs" "tailq s k ys" "h \<noteq> k"
  shows "set xs \<inter> set ys = {}"
  using dlist_disjoint[OF tailq_dlist[OF assms(1)] tailq_dlist[OF assms(2)] assms(3)] .

lemma concat_spec:
  assumes x: "tailq s h xs" and y: "tailq s k ys" and "h \<noteq> k"
  shows "\<exists>s'. TAILQ_CONCAT s h k = Inr s' \<and> tailq s' h (xs @ ys) \<and> tailq s' k [] \<and>
    only_touches s s' {h, k} (set (xs @ ys))"
proof (cases ys)
  case Nil
  then show ?thesis using x y empty_spec[OF y] by (simp add: TAILQ_CONCAT_def)
next
  case (Cons b bs)
  define e where "e = end_slot h xs"
  define s1 where "s1 = with_prev (stored s e (Some b)) b e"
  define s' where "s' = TAILQ_INIT (set_last s1 h (tqh_last (heads s k))) k"
  have disj: "set xs \<inter> set ys = {}" using tailq_disjoint[OF x y] assms(3) by simp
  have e: "tqh_last (heads s h) = e" using tailq_last[OF x] by (simp add: e_def)
  have v: "valid s e" using tailq_last_valid[OF x] by (simp add: e_def)
  have b: "alloc s b" using tailq_alloc[OF y] Cons by simp
  have ek: "e \<noteq> First_of k" using end_slot_cases[of h xs] assms(3) by (auto simp: e_def)
  have l: "load s' q = (if q = First_of k then Inr None else if q = e then Inr (Some b) else load s q)" for q
    using v b by (simp add: s'_def s1_def TAILQ_INIT_def)
  have p: "prev_of s' a = (if a = b then Some e else prev_of s a)" for a
    using v b by (simp add: s'_def s1_def TAILQ_INIT_def)
  have t: "tqh_last (heads s' h) = tqh_last (heads s k)" "tqh_last (heads s' k) = First_of k"
    using assms(3) by (simp_all add: s'_def s1_def TAILQ_INIT_def)
  have "dlist (load s') (prev_of s') h (xs @ ys) \<and> dlist (load s') (prev_of s') k []"
    by (rule dlist_join[OF tailq_dlist[OF x] tailq_dlist[OF y] disj assms(3)]) (use l p Cons in \<open>auto simp: e_def\<close>)
  then have "tailq s' h (xs @ ys) \<and> tailq s' k []"
    using t tailq_last[OF y] Cons by (simp add: tailq_def)
  moreover have "only_touches s s' {h, k} (set (xs @ ys))"
    unfolding s'_def s1_def TAILQ_INIT_def using v b end_slot_cases[of h xs] Cons
    by (intro touches_intros) (auto simp: e_def)
  moreover have "TAILQ_CONCAT s h k = Inr s'"
    using v b e ek empty_spec[OF y] tailq_first_view[OF y] Cons
    by (simp add: TAILQ_CONCAT_def s'_def s1_def)
  ultimately show ?thesis by blast
qed

text \<open>Exchanging heads: the elements stay where they are, only the first back pointer moves.\<close>

lemma tailq_rehead:
  assumes "tailq s h xs" "\<And>a. load s' (Next_of a) = load s (Next_of a)" "load s' (First_of k) = load s (First_of h)"
    and "\<And>a. a \<in> set xs \<Longrightarrow> prev_of s' a = (if a = hd xs then Some (First_of k) else prev_of s a)"
    and "tqh_last (heads s' k) = (if xs = [] then First_of k else tqh_last (heads s h))"
  shows "tailq s' k xs"
  using dlist_rehead[OF tailq_dlist[OF assms(1)] assms(2-4)] assms(1,5) by (simp add: tailq_def)

lemma swap_spec:
  assumes x: "tailq s h xs" and y: "tailq s k ys" and "h \<noteq> k"
  shows "\<exists>s'. TAILQ_SWAP s h k = Inr s' \<and> tailq s' h ys \<and> tailq s' k xs \<and>
    only_touches s s' {h, k} (set (xs @ ys))"
proof -
  define s2 where "s2 = set_head (set_head s h (heads s k)) k
    \<lparr>tqh_first = tqh_first (heads s h), tqh_last = tqh_last (heads s h)\<rparr>"
  define s3 where "s3 = (case ys of [] \<Rightarrow> set_last s2 h (First_of h) | b # _ \<Rightarrow> with_prev s2 b (First_of h))"
  define s' where "s' = (case xs of [] \<Rightarrow> set_last s3 k (First_of k) | a # _ \<Rightarrow> with_prev s3 a (First_of k))"
  have disj: "set xs \<inter> set ys = {}" using tailq_disjoint[OF x y] assms(3) by simp
  have al: "alloc s a" if "a \<in> set xs \<union> set ys" for a using that tailq_alloc x y by blast
  have "tailq s' k xs"
    by (rule tailq_rehead[OF x])
      (use al assms(3) disj in \<open>auto simp: s'_def s3_def s2_def load_at.simps(1)[of _ _ s] split: list.splits\<close>)
  moreover have "tailq s' h ys"
    by (rule tailq_rehead[OF y])
      (use al assms(3) disj in \<open>auto simp: s'_def s3_def s2_def load_at.simps(1)[of _ _ s] split: list.splits\<close>)
  moreover have "only_touches s s' {h, k} (set (xs @ ys))"
    unfolding s'_def s3_def s2_def using al
    by (auto intro!: touches_intros split: list.split)
  moreover have "TAILQ_SWAP s h k = Inr s'"
    using al assms(3) tailq_first_view[OF x] tailq_first_view[OF y]
    by (cases xs; cases ys) (simp_all add: TAILQ_SWAP_def s'_def s3_def s2_def Let_def)
  ultimately show ?thesis by blast
qed

section \<open>Traversals and checks\<close>

lemma next_ptr: "tailq s h (ys @ a # zs) \<Longrightarrow> TAILQ_NEXT s (Some a) = Inr (ptr_to zs)"
  by (simp add: next_spec ptr_to_def)

lemma prev_ptr: "tailq s h xs \<Longrightarrow> rev xs = ys @ a # zs \<Longrightarrow> TAILQ_PREV s (Some a) = Inr (ptr_to zs)"
  using prev_spec[of s h "rev zs" a "rev ys"] by (cases zs) (auto simp: rev_swap)

lemma first_ptr: "tailq s h xs \<Longrightarrow> TAILQ_FIRST s h = ptr_to xs"
  by (simp add: first_spec ptr_to_def)

lemma last_ptr: "tailq s h xs \<Longrightarrow> TAILQ_LAST s h = Inr (ptr_to (rev xs))"
  using last_spec by (cases xs rule: rev_cases) auto

interpretation tqw: walkable "\<lambda>s. tailq s h" TAILQ_NEXT for h
  by unfold_locales (rule next_ptr)

interpretation tqr: walkable "\<lambda>s xs. tailq s h (rev xs)" TAILQ_PREV for h
  by unfold_locales (simp add: prev_ptr)

text \<open>A body that leaves the queue as it is sees all elements in order.\<close>

lemma foreach_spec:
  assumes "tailq (mem m) h xs" "length xs \<le> n"
    and "\<And>a m m'. a \<in> set xs \<Longrightarrow> tailq (mem m) h xs \<Longrightarrow> body a m = Inr m' \<Longrightarrow> tailq (mem m') h xs"
  shows "TAILQ_FOREACH n mem h body m = bindE (foldE body xs m) (\<lambda>m'. Inr (Some m'))"
  unfolding TAILQ_FOREACH_def first_ptr[OF assms(1)]
  by (rule tqw.walk[where ys = "[]" and h = h]) (use assms in auto)

lemma foreach_reverse_spec:
  assumes "tailq (mem m) h xs" "length xs \<le> n"
    and "\<And>a m m'. a \<in> set xs \<Longrightarrow> tailq (mem m) h xs \<Longrightarrow> body a m = Inr m' \<Longrightarrow> tailq (mem m') h xs"
  shows "TAILQ_FOREACH_REVERSE n mem h body m = bindE (foldE body (rev xs) m) (\<lambda>m'. Inr (Some m'))"
  unfolding TAILQ_FOREACH_REVERSE_def last_ptr[OF assms(1)] bindE_Inr
  by (rule tqr.walk[where ys = "[]" and h = h]) (use assms in auto)

text \<open>On a well-formed queue no check panics.\<close>

lemma tailq_checks:
  assumes "tailq s h (ys @ a # zs)"
  shows "QMD_TAILQ_CHECK_HEAD s h = Inr True" "QMD_TAILQ_CHECK_TAIL s h = Inr True"
    "QMD_TAILQ_CHECK_NEXT s a = Inr True" "QMD_TAILQ_CHECK_PREV s a = Inr True"
proof -
  note v = next_view[OF assms] next_field[OF assms]
  obtain b bs where b: "ys @ a # zs = b # bs" by (cases "ys @ a # zs") auto
  note w = next_view(3)[of s h "[]" b bs] next_field(2)[of s h "[]" b bs]
  show "QMD_TAILQ_CHECK_HEAD s h = Inr True"
    using w first_ptr[OF assms] empty_spec[OF assms] assms by (simp add: QMD_TAILQ_CHECK_HEAD_def b)
  show "QMD_TAILQ_CHECK_TAIL s h = Inr True"
    using tailq_parts(3)[OF assms] by (simp add: QMD_TAILQ_CHECK_TAIL_def)
  show "QMD_TAILQ_CHECK_NEXT s a = Inr True"
    using v next_ptr[OF assms] next_view(3)[of s h "ys @ [a]" "hd zs" "tl zs"]
      next_field(2)[of s h "ys @ [a]" "hd zs" "tl zs"] assms
    by (cases zs) (simp_all add: QMD_TAILQ_CHECK_NEXT_def)
  show "QMD_TAILQ_CHECK_PREV s a = Inr True"
    using v tailq_parts(2)[OF assms] by (simp add: QMD_TAILQ_CHECK_PREV_def)
qed

text \<open>The tail queue at a head is a linked list of the interface.\<close>

interpretation tq: linked_list "\<lambda>s. tailq s h" alloc "\<lambda>s. TAILQ_INSERT_TAIL s h" "\<lambda>s. TAILQ_REMOVE s h"
  "\<lambda>s. TAILQ_FIRST s h" for h
proof
  show "tailq m h xs \<Longrightarrow> distinct xs" for m xs by (simp add: tailq_def dlist_def)
  show "tailq m h xs \<Longrightarrow> alloc m n \<Longrightarrow> n \<notin> set xs \<Longrightarrow> \<exists>m'. TAILQ_INSERT_TAIL m h n = Inr m' \<and>
      tailq m' h (xs @ [n]) \<and> (\<forall>a. alloc m' a = alloc m a)" for m xs n
    using insert_tail_spec touches_alloc by meson
  show "tailq m h (ys @ a # zs) \<Longrightarrow> \<exists>m'. TAILQ_REMOVE m h a = Inr m' \<and> tailq m' h (ys @ zs) \<and>
      (\<forall>a. alloc m' a = alloc m a)" for m ys a zs
    using remove_spec touches_alloc by meson
qed (fact tailq_alloc first_spec)+

section \<open>Properties\<close>

text \<open>Elements \<open>1\<close> to \<open>4\<close> allocated and not linked.\<close>

definition sample_tq :: tq_mem where
  "sample_tq = \<lparr>heads = \<lambda>_. \<lparr>tqh_first = None, tqh_last = First_of 0\<rparr>,
     links = (\<lambda>a. if a \<in> {1, 2, 3, 4} then Some \<lparr>tqe_next = None, tqe_prev = First_of 0\<rparr> else None)\<rparr>"

text \<open>
  (C22) Inserting distinct allocated elements at the tail of a freshly initialised queue, one after
  the other, never touches unallocated memory; a traversal then visits exactly these elements
  in insertion order, a reverse traversal in the opposite order, and both end within as many
  steps as there are elements.
\<close>

theorem tailq_keeps_insertion_order:
  assumes "distinct ns" "\<forall>n\<in>set ns. alloc s n"
  shows "\<exists>s'. foldE (\<lambda>n m. TAILQ_INSERT_TAIL m h n) ns (TAILQ_INIT s h) = Inr s' \<and>
    TAILQ_EMPTY s' h = (ns = []) \<and>
    (\<forall>body st. TAILQ_FOREACH (length ns) (\<lambda>_. s') h body st = bindE (foldE body ns st) (\<lambda>r. Inr (Some r))) \<and>
    (\<forall>body st. TAILQ_FOREACH_REVERSE (length ns) (\<lambda>_. s') h body st =
       bindE (foldE body (rev ns) st) (\<lambda>r. Inr (Some r)))"
proof -
  have "tailq (TAILQ_INIT s h) h []" "\<forall>n\<in>set ns. alloc (TAILQ_INIT s h) n"
    using init_empty[of s h] assms(2) by (auto dest: touches_alloc)
  then obtain s' where "foldE (\<lambda>n m. TAILQ_INSERT_TAIL m h n) ns (TAILQ_INIT s h) = Inr s'" "tailq s' h ns"
    using tq.ins_tail_all[of "TAILQ_INIT s h" h "[]" ns] assms(1) by auto
  then show ?thesis by (simp add: empty_spec foreach_spec[where mem = "\<lambda>_. s'"] foreach_reverse_spec[where mem = "\<lambda>_. s'"])
qed

theorem tailq_keeps_insertion_order_witness:
  "\<exists>s'. foldE (\<lambda>n m. TAILQ_INSERT_TAIL m 0 n) [3, 1, 2] (TAILQ_INIT sample_tq 0) = Inr s' \<and>
    TAILQ_FOREACH 3 (\<lambda>_. s') 0 (\<lambda>a seen. Inr (seen @ [a])) [] = Inr (Some [3, 1, 2])"
proof -
  have "alloc sample_tq 1 \<and> alloc sample_tq 2 \<and> alloc sample_tq 3" by code_simp
  then obtain s' where s': "foldE (\<lambda>n m. TAILQ_INSERT_TAIL m 0 n) [3, 1, 2] (TAILQ_INIT sample_tq 0) = Inr s'"
    and f: "\<forall>body (st :: addr list). TAILQ_FOREACH (length [3, 1, 2 :: addr]) (\<lambda>_. s') 0 body st =
      bindE (foldE body [3, 1, 2] st) (\<lambda>r. Inr (Some r))"
    using tailq_keeps_insertion_order[of "[3, 1, 2]" sample_tq 0] by auto
  have "TAILQ_FOREACH 3 (\<lambda>_. s') 0 (\<lambda>a seen. Inr (seen @ [a])) [] = Inr (Some [3, 1, 2])"
    using spec[OF spec[OF f], of "\<lambda>a seen. Inr (seen @ [a])" "[]"] by (simp add: numeral_3_eq_3)
  then show ?thesis using s' by blast
qed

text \<open>
  Insertion at the head, after a member and before a member succeeds for an allocated element
  that is not in the queue, puts it at that place and leaves every queue at another head as it
  was.
\<close>

theorem tailq_inserts_in_place:
  assumes "tailq s h (ys @ b # zs)" "alloc s n" "n \<notin> set (ys @ b # zs)"
    and "tailq s k os" "k \<noteq> h" "n \<notin> set os"
  shows "\<exists>s1 s2 s3.
    TAILQ_INSERT_HEAD s h n = Inr s1 \<and> tailq s1 h (n # ys @ b # zs) \<and> tailq s1 k os \<and>
    TAILQ_INSERT_AFTER s h b n = Inr s2 \<and> tailq s2 h (ys @ b # n # zs) \<and> tailq s2 k os \<and>
    TAILQ_INSERT_BEFORE s b n = Inr s3 \<and> tailq s3 h (ys @ n # b # zs) \<and> tailq s3 k os"
proof -
  have "set os \<inter> insert n (set (ys @ b # zs)) = {}"
    using tailq_disjoint[OF assms(4,1,5)] assms(6) by auto
  then have k: "only_touches s s' {h} (insert n (set (ys @ b # zs))) \<Longrightarrow> tailq s' k os" for s'
    using tailq_elsewhere[of s s' "{h}"] assms(4,5) by blast
  show ?thesis
    using insert_head_spec[OF assms(1-3)] insert_after_spec[OF assms(1-3)]
      insert_before_spec[OF assms(1-3)] k by blast
qed

text \<open>A memory with the queues \<open>1, 2\<close> at head \<open>0\<close> and \<open>3\<close> at head \<open>1\<close>; element \<open>4\<close> is free.\<close>

definition sample_two :: tq_mem where
  "sample_two = \<lparr>heads = (\<lambda>h. if h = 0 then \<lparr>tqh_first = Some 1, tqh_last = Next_of 2\<rparr>
       else \<lparr>tqh_first = Some 3, tqh_last = Next_of 3\<rparr>),
     links = (\<lambda>a. if a = 1 then Some \<lparr>tqe_next = Some 2, tqe_prev = First_of 0\<rparr>
       else if a = 2 then Some \<lparr>tqe_next = None, tqe_prev = Next_of 1\<rparr>
       else if a = 3 then Some \<lparr>tqe_next = None, tqe_prev = First_of 1\<rparr>
       else if a = 4 then Some \<lparr>tqe_next = None, tqe_prev = First_of 0\<rparr> else None)\<rparr>"

lemma sample_two_queues: "tailq sample_two 0 [1, 2]" "tailq sample_two 1 [3]" "alloc sample_two 4"
  by code_simp+

theorem tailq_inserts_in_place_witness:
  "\<exists>s'. TAILQ_INSERT_AFTER sample_two 0 1 4 = Inr s' \<and> tailq s' 0 [1, 4, 2] \<and> tailq s' 1 [3]"
  using tailq_inserts_in_place[of sample_two 0 "[]" 1 "[2]" 4 1 "[3]"] sample_two_queues by auto

text \<open>
  (C23) Removing any member takes exactly that element out, keeps the order of the others, does not
  touch a queue at another head, and leaves the removed element allocated; removing all members
  in any order leaves an empty queue.
\<close>

theorem tailq_remove_takes_out:
  assumes "tailq s h (ys @ a # zs)" "tailq s k os" "k \<noteq> h" "distinct ds" "set ds = set (ys @ a # zs)"
  shows "(\<exists>s'. TAILQ_REMOVE s h a = Inr s' \<and> tailq s' h (ys @ zs) \<and> tailq s' k os \<and> alloc s' a) \<and>
    (\<exists>s'. foldE (\<lambda>d m. TAILQ_REMOVE m h d) ds s = Inr s' \<and> TAILQ_EMPTY s' h)"
proof
  have "set os \<inter> set (ys @ a # zs) = {}" using tailq_disjoint[OF assms(2,1,3)] .
  then show "\<exists>s'. TAILQ_REMOVE s h a = Inr s' \<and> tailq s' h (ys @ zs) \<and> tailq s' k os \<and> alloc s' a"
    using remove_spec[OF assms(1)] tailq_elsewhere[of s _ "{h}"] assms(2,3) next_view(3)[OF assms(1)]
      touches_alloc by blast
  show "\<exists>s'. foldE (\<lambda>d m. TAILQ_REMOVE m h d) ds s = Inr s' \<and> TAILQ_EMPTY s' h"
    using tq.del_all[OF assms(1,4,5)] empty_spec by auto
qed

theorem tailq_remove_takes_out_witness:
  "(\<exists>s'. TAILQ_REMOVE sample_two 0 1 = Inr s' \<and> tailq s' 0 [2] \<and> tailq s' 1 [3]) \<and>
   (\<exists>s'. foldE (\<lambda>d m. TAILQ_REMOVE m 0 d) [2, 1] sample_two = Inr s' \<and> TAILQ_EMPTY s' 0)"
  using tailq_remove_takes_out[of sample_two 0 "[]" 1 "[2]" 1 "[3]" "[2, 1]"] sample_two_queues by auto

text \<open>
  \<open>TAILQ_CONCAT\<close> moves all elements of the second queue, in order, behind those of the first and
  leaves the second empty; \<open>TAILQ_SWAP\<close> exchanges the contents of the two queues. Neither
  dereferences an unallocated element, and empty queues are covered.
\<close>

theorem tailq_concat_and_swap:
  assumes "tailq s h xs" "tailq s k ys" "h \<noteq> k"
  shows "(\<exists>s'. TAILQ_CONCAT s h k = Inr s' \<and> tailq s' h (xs @ ys) \<and> tailq s' k []) \<and>
    (\<exists>s'. TAILQ_SWAP s h k = Inr s' \<and> tailq s' h ys \<and> tailq s' k xs)"
  using concat_spec[OF assms] swap_spec[OF assms] by blast

theorem tailq_concat_and_swap_witness:
  "(\<exists>s'. TAILQ_CONCAT sample_two 0 1 = Inr s' \<and> tailq s' 0 [1, 2, 3] \<and> tailq s' 1 []) \<and>
   (\<exists>s'. TAILQ_SWAP sample_two 0 1 = Inr s' \<and> tailq s' 0 [3] \<and> tailq s' 1 [1, 2])"
  using tailq_concat_and_swap[of sample_two 0 "[1, 2]" 1 "[3]"] sample_two_queues by simp

text \<open>
  \<open>TAILQ_FIRST\<close>, \<open>TAILQ_LAST\<close>, \<open>TAILQ_NEXT\<close> and \<open>TAILQ_PREV\<close> find the ends of the queue and the
  neighbours of a member; the casts of an entry to a head in the last two reach the right field.
\<close>

theorem tailq_navigation:
  assumes "tailq s h (ys @ a # zs)"
  shows "TAILQ_FIRST s h = Some (hd (ys @ [a])) \<and> TAILQ_LAST s h = Inr (Some (last (a # zs))) \<and>
    TAILQ_NEXT s (Some a) = Inr (if zs = [] then None else Some (hd zs)) \<and>
    TAILQ_PREV s (Some a) = Inr (if ys = [] then None else Some (last ys))"
  using first_spec[OF assms] last_spec[OF assms] next_spec[OF assms] prev_spec[OF assms]
  by (cases ys; cases zs) simp_all

theorem tailq_navigation_witness:
  "TAILQ_LAST sample_two 0 = Inr (Some 2) \<and> TAILQ_PREV sample_two (Some 2) = Inr (Some 1)"
  using tailq_navigation[of sample_two 0 "[1]" 2 "[]"] sample_two_queues by simp

end
