(* ===== verification/Thread_List.thy ===== *)
theory Thread_List
  imports Tail_Queue
begin

text \<open>
  The list of client threads that the main function of the server keeps
  (\<open>node_t\<close> of \<open>server/src/aesdsocket.h\<close>, \<open>check_thread_exit\<close> and \<open>release_all_thread\<close> of
  \<open>server/src/aesdsocket_thread.c\<close>, and the part of the accept loop that fills the list). A node
  is allocated memory with links. Threads are numbered in the order of their creation; an
  identifier of type \<open>pthread_t\<close> names a thread from its creation until it is joined, and may name
  another one afterwards. Joining waits for the end of the named thread; an identifier that
  names no thread is undefined behaviour.
\<close>

section \<open>Data\<close>

type_synonym pthread = nat

record node =
  node_thread :: pthread
  node_thread_exit :: bool

record thread_mem =
  links_mem :: tq_mem
  node_at :: "addr \<Rightarrow> node option"
  joinable :: "pthread \<Rightarrow> nat option"
  created :: nat
  joined :: "nat list"

text \<open>
  \<open>pthread_create\<close> with the identifier \<open>t\<close> as its answer, and \<open>pthread_join\<close>; \<open>ended\<close> says which threads
  come to their end. The list \<open>joined\<close> is a history and not read.
\<close>

definition pthread_create :: "pthread \<Rightarrow> thread_mem \<Rightarrow> thread_mem" where
  "pthread_create t m = m\<lparr>joinable := (joinable m)(t \<mapsto> created m), created := Suc (created m)\<rparr>"

definition pthread_join :: "(nat \<Rightarrow> bool) \<Rightarrow> pthread \<Rightarrow> thread_mem \<Rightarrow> thread_mem res" where
  "pthread_join ended t m = (case joinable m t of None \<Rightarrow> Inl Invalid_join
     | Some k \<Rightarrow> if ended k then Inr (m\<lparr>joinable := (joinable m)(t := None), joined := joined m @ [k]\<rparr>) else Inl Blocks)"

definition get_node :: "thread_mem \<Rightarrow> addr \<Rightarrow> node res" where
  "get_node m a = (case node_at m a of None \<Rightarrow> Inl Use_of_freed | Some nd \<Rightarrow> Inr nd)"

text \<open>\<open>free(p_node)\<close> takes the node and its links away.\<close>

definition free_node :: "addr \<Rightarrow> thread_mem \<Rightarrow> thread_mem res" where
  "free_node a m = (if node_at m a = None then Inl Invalid_free
     else Inr (m\<lparr>node_at := (node_at m)(a := None),
       links_mem := (links_mem m)\<lparr>links := (links (links_mem m))(a := None)\<rparr>\<rparr>))"

text \<open>A block returned by \<open>malloc(sizeof(struct node))\<close>; its contents are arbitrary.\<close>

definition malloc_node :: "addr \<Rightarrow> node \<Rightarrow> tailq_entry \<Rightarrow> thread_mem \<Rightarrow> thread_mem" where
  "malloc_node a nd e m = m\<lparr>node_at := (node_at m)(a \<mapsto> nd),
     links_mem := (links_mem m)\<lparr>links := (links (links_mem m))(a \<mapsto> e)\<rparr>\<rparr>"

section \<open>Operations\<close>

definition check_node :: "(nat \<Rightarrow> bool) \<Rightarrow> addr \<Rightarrow> thread_mem \<Rightarrow> thread_mem res" where
  "check_node ended p_node m = bindE (get_node m p_node) (\<lambda>nd.
     if node_thread_exit nd = True then pthread_join ended (node_thread nd) m else Inr m)"

definition check_thread_exit :: "(nat \<Rightarrow> bool) \<Rightarrow> nat \<Rightarrow> head_id \<Rightarrow> thread_mem \<Rightarrow> thread_mem option res" where
  "check_thread_exit ended n head m = TAILQ_FOREACH n links_mem head (check_node ended) m"

fun release_all_thread :: "(nat \<Rightarrow> bool) \<Rightarrow> nat \<Rightarrow> head_id \<Rightarrow> thread_mem \<Rightarrow> thread_mem option res" where
  "release_all_thread ended n head m =
     (if TAILQ_EMPTY (links_mem m) head then Inr (Some m)
      else case n of 0 \<Rightarrow> Inr None
      | Suc k \<Rightarrow>
        (case TAILQ_FIRST (links_mem m) head of None \<Rightarrow> Inl Null_deref
         | Some p_node \<Rightarrow>
           bindE (get_node m p_node) (\<lambda>nd.
           bindE (pthread_join ended (node_thread nd) m) (\<lambda>m1.
           bindE (TAILQ_REMOVE (links_mem m1) head p_node) (\<lambda>l.
           bindE (free_node p_node (m1\<lparr>links_mem := l\<rparr>)) (\<lambda>m2.
             release_all_thread ended k head m2))))))"

declare release_all_thread.simps [simp del]

text \<open>
  The end of a round of the accept loop: a node for the new thread is appended. The address of
  \<open>p_thread_data->thread_exit\<close> is assigned to a \<open>bool\<close>, which makes it true. \<open>p_node\<close> is the
  answer of \<open>malloc\<close> with the node and links the block happens to hold.
\<close>

definition insert_node ::
  "(addr \<times> node \<times> tailq_entry) option \<Rightarrow> head_id \<Rightarrow> pthread \<Rightarrow> thread_mem \<Rightarrow> thread_mem res" where
  "insert_node p_node head thread m =
     (case p_node of None \<Rightarrow> Inl Null_deref
      | Some (a, nd, e) \<Rightarrow>
         let m1 = malloc_node a nd e m;
             m2 = m1\<lparr>node_at := (node_at m1)(a \<mapsto> nd\<lparr>node_thread := thread, node_thread_exit := True\<rparr>)\<rparr> in
         bindE (TAILQ_INSERT_TAIL (links_mem m2) head a) (\<lambda>l. Inr (m2\<lparr>links_mem := l\<rparr>)))"

section \<open>Invariant\<close>

text \<open>
  \<open>thread_list m head xs\<close>: the list at \<open>head\<close> has the nodes \<open>xs\<close>, and they are allocated. Two nodes may
  hold the same identifier.
\<close>

definition threads_of :: "thread_mem \<Rightarrow> addr list \<Rightarrow> pthread list" where
  "threads_of m xs = map (\<lambda>a. node_thread (the (node_at m a))) xs"

definition thread_list :: "thread_mem \<Rightarrow> head_id \<Rightarrow> addr list \<Rightarrow> bool" where
  "thread_list m head xs \<longleftrightarrow> tailq (links_mem m) head xs \<and>
     (\<forall>a\<in>set xs. node_at m a \<noteq> None)"

lemma tailq_links_other:
  assumes "tailq s h xs" "a \<notin> set xs"
  shows "tailq (s\<lparr>links := (links s)(a := v)\<rparr>) h xs"
proof -
  let ?s = "s\<lparr>links := (links s)(a := v)\<rparr>"
  have "load ?s q = load s q" if "q \<noteq> Next_of a" for q
    using that by (cases q) (auto simp: load_at.simps link_of_def)
  moreover have "Next_of x \<noteq> Next_of a" "prev_of ?s x = prev_of s x" if "x \<in> set xs" for x
    using that assms(2) by (auto simp: back_at_def)
  ultimately have "dlist (load ?s) (prev_of ?s) h xs"
    by (intro dlist_elsewhere[OF tailq_dlist[OF assms(1)]]) auto
  then show ?thesis using assms(1) by (simp add: tailq_def)
qed

lemma threads_of_cong: "(\<And>a. a \<in> set xs \<Longrightarrow> node_at m' a = node_at m a) \<Longrightarrow> threads_of m' xs = threads_of m xs"
  by (simp add: threads_of_def)

lemma thread_list_cong:
  assumes "thread_list m head xs" "tailq (links_mem m') head xs" "\<And>a. a \<in> set xs \<Longrightarrow> node_at m' a = node_at m a"
  shows "thread_list m' head xs"
  using assms by (simp add: thread_list_def)

lemma free_node_ok:
  assumes "thread_list m head xs" "a \<notin> set xs" "node_at m a \<noteq> None"
  shows "\<exists>m'. free_node a m = Inr m' \<and> thread_list m' head xs \<and> joined m' = joined m \<and>
    joinable m' = joinable m \<and> created m' = created m \<and> node_at m' = (node_at m)(a := None)"
proof -
  have "tailq (links_mem m) head xs" using assms(1) by (simp add: thread_list_def)
  from tailq_links_other[OF this assms(2), of None] assms show ?thesis
    by (auto simp: free_node_def intro!: thread_list_cong[OF assms(1)])
qed

text \<open>The effect of a join that returns.\<close>

definition after_join :: "pthread \<Rightarrow> nat \<Rightarrow> thread_mem \<Rightarrow> thread_mem" where
  "after_join t k m = m\<lparr>joinable := (joinable m)(t := None), joined := joined m @ [k]\<rparr>"

lemma after_join_simps [simp]:
  "links_mem (after_join t k m) = links_mem m" "node_at (after_join t k m) = node_at m"
  "joinable (after_join t k m) = (joinable m)(t := None)" "created (after_join t k m) = created m"
  "joined (after_join t k m) = joined m @ [k]"
  by (simp_all add: after_join_def)

lemma pthread_join_cases:
  "pthread_join ended t m = Inr m' \<longleftrightarrow> (\<exists>k. joinable m t = Some k \<and> ended k \<and> m' = after_join t k m)"
  "pthread_join ended t m = Inl e \<longleftrightarrow> joinable m t = None \<and> e = Invalid_join \<or>
     (\<exists>k. joinable m t = Some k \<and> \<not> ended k \<and> e = Blocks)"
  by (auto simp: pthread_join_def after_join_def split: option.splits if_splits)

lemma pthread_join_simps [simp]:
  "joinable m t = None \<Longrightarrow> pthread_join ended t m = Inl Invalid_join"
  "joinable m t = Some k \<Longrightarrow> ended k \<Longrightarrow> pthread_join ended t m = Inr (after_join t k m)"
  "joinable m t = Some k \<Longrightarrow> \<not> ended k \<Longrightarrow> pthread_join ended t m = Inl Blocks"
  by (simp_all add: pthread_join_def after_join_def)

lemma pthread_create_simps [simp]:
  "links_mem (pthread_create t m) = links_mem m" "node_at (pthread_create t m) = node_at m"
  "joinable (pthread_create t m) = (joinable m)(t \<mapsto> created m)" "created (pthread_create t m) = Suc (created m)"
  "joined (pthread_create t m) = joined m"
  by (simp_all add: pthread_create_def)

lemma thread_list_updates [simp]:
  "thread_list (after_join t k m) head xs = thread_list m head xs" "thread_list (pthread_create t m) head xs = thread_list m head xs"
  "threads_of (after_join t k m) xs = threads_of m xs" "threads_of (pthread_create t m) xs = threads_of m xs"
  by (simp_all add: thread_list_def threads_of_def)

text \<open>One round of \<open>release_all_thread\<close>: the first thread is joined and its node freed.\<close>

lemma release_round:
  assumes "thread_list m head (a # as)" "node_at m a = Some nd" "joinable m (node_thread nd) = Some k" "ended k"
  shows "\<exists>l m'. TAILQ_REMOVE (links_mem m) head a = Inr l \<and>
    free_node a ((after_join (node_thread nd) k m)\<lparr>links_mem := l\<rparr>) = Inr m' \<and>
    release_all_thread ended (Suc n) head m = release_all_thread ended n head m' \<and> thread_list m' head as \<and>
    joined m' = joined m @ [k] \<and> joinable m' = (joinable m)(node_thread nd := None) \<and> node_at m' = (node_at m)(a := None)"
proof -
  have q: "tailq (links_mem m) head (a # as)" using assms(1) by (simp add: thread_list_def)
  let ?m1 = "after_join (node_thread nd) k m"
  obtain l where l: "TAILQ_REMOVE (links_mem m) head a = Inr l" "tailq l head as" "a \<notin> set as"
    using tq.del_first[OF q] by blast
  have tl: "thread_list (?m1\<lparr>links_mem := l\<rparr>) head as" using assms(1) l(2) by (auto simp: thread_list_def)
  obtain m' where m': "free_node a (?m1\<lparr>links_mem := l\<rparr>) = Inr m'" "thread_list m' head as" "joined m' = joined m @ [k]"
      "joinable m' = (joinable m)(node_thread nd := None)" "node_at m' = (node_at m)(a := None)"
    using free_node_ok[OF tl l(3)] assms(2) by auto
  have "release_all_thread ended (Suc n) head m = release_all_thread ended n head m'"
    using assms(2-4) l(1) m'(1) empty_spec[OF q] first_spec[OF q]
    by (subst release_all_thread.simps) (simp add: get_node_def)
  then show ?thesis using l(1) m' by blast
qed

lemma release_all:
  "thread_list m head xs \<Longrightarrow> distinct (threads_of m xs) \<Longrightarrow>
   \<forall>t\<in>set (threads_of m xs). \<exists>k. joinable m t = Some k \<and> ended k \<Longrightarrow> length xs \<le> n \<Longrightarrow>
   \<exists>m'. release_all_thread ended n head m = Inr (Some m') \<and> thread_list m' head [] \<and>
     joined m' = joined m @ map (\<lambda>t. the (joinable m t)) (threads_of m xs) \<and>
     (\<forall>a. node_at m' a = (if a \<in> set xs then None else node_at m a))"
proof (induction xs arbitrary: m n)
  case Nil
  then have "TAILQ_EMPTY (links_mem m) head" using empty_spec by (auto simp: thread_list_def)
  then show ?case using Nil.prems(1) by (subst release_all_thread.simps) (auto simp: threads_of_def)
next
  case (Cons a as)
  obtain i where i: "n = Suc i" "length as \<le> i" using Cons.prems(4) by (cases n) auto
  obtain nd where nd: "node_at m a = Some nd" using Cons.prems(1) by (auto simp: thread_list_def)
  let ?t = "node_thread nd"
  have th: "threads_of m (a # as) = ?t # threads_of m as" using nd by (simp add: threads_of_def)
  then have t: "?t \<notin> set (threads_of m as)" using Cons.prems(2) by simp
  have an: "a \<notin> set as" using Cons.prems(1) tq.rep_distinct[of "links_mem m" head "a # as"] by (simp add: thread_list_def)
  obtain k where k: "joinable m ?t = Some k" "ended k" using Cons.prems(3) th by auto
  obtain m1 where m1: "release_all_thread ended (Suc i) head m = release_all_thread ended i head m1" "thread_list m1 head as"
    "joined m1 = joined m @ [k]" "joinable m1 = (joinable m)(?t := None)" "node_at m1 = (node_at m)(a := None)"
    using release_round[of m head a as nd k ended i, OF Cons.prems(1) nd k] by blast
  have same: "threads_of m1 as = threads_of m as" using m1(5) an by (intro threads_of_cong) auto
  have j: "joinable m1 u = joinable m u" if "u \<in> set (threads_of m as)" for u using that t m1(4) by auto
  have "map (\<lambda>t. the (joinable m1 t)) (threads_of m as) = map (\<lambda>t. the (joinable m t)) (threads_of m as)"
    using j by simp
  moreover have "\<exists>m'. release_all_thread ended i head m1 = Inr (Some m') \<and> thread_list m' head [] \<and>
     joined m' = joined m1 @ map (\<lambda>t. the (joinable m1 t)) (threads_of m1 as) \<and>
     (\<forall>b. node_at m' b = (if b \<in> set as then None else node_at m1 b))"
    by (rule Cons.IH[OF m1(2) _ _ i(2)]) (use Cons.prems(2,3) same th j in auto)
  ultimately show ?case using i(1) m1(1,3,5) same th k(1) an by auto
qed

lemma insert_node_ok:
  assumes "thread_list m head xs" "a \<notin> set xs"
  shows "\<exists>m'. insert_node (Some (a, nd, e)) head t m = Inr m' \<and> thread_list m' head (xs @ [a]) \<and>
    joinable m' = joinable m \<and> created m' = created m \<and> joined m' = joined m \<and>
    node_at m' = (node_at m)(a \<mapsto> nd\<lparr>node_thread := t, node_thread_exit := True\<rparr>)"
proof -
  let ?l = "(links_mem m)\<lparr>links := (links (links_mem m))(a \<mapsto> e)\<rparr>"
  have "tailq ?l head xs" using tailq_links_other assms by (simp add: thread_list_def)
  moreover have "alloc ?l a" by (simp add: alloc_def)
  ultimately obtain l where l: "TAILQ_INSERT_TAIL ?l head a = Inr l" "tailq l head (xs @ [a])"
    using insert_tail_spec[of ?l head xs a] assms(2) by blast
  let ?m = "m\<lparr>node_at := (node_at m)(a \<mapsto> nd\<lparr>node_thread := t, node_thread_exit := True\<rparr>), links_mem := l\<rparr>"
  have "thread_list ?m head (xs @ [a])" using assms l(2) by (auto simp: thread_list_def)
  then show ?thesis using l(1) by (simp add: insert_node_def malloc_node_def Let_def)
qed

lemma check_node_links: "check_node ended a m = Inr m' \<Longrightarrow> links_mem m' = links_mem m \<and> node_at m' = node_at m"
  by (auto simp: check_node_def get_node_def pthread_join_def bindE_def split: option.splits if_splits)

lemma check_all:
  assumes "thread_list m head xs" "length xs \<le> n"
  shows "check_thread_exit ended n head m = bindE (foldE (check_node ended) xs m) (\<lambda>m'. Inr (Some m'))"
  unfolding check_thread_exit_def
  by (rule foreach_spec) (use assms check_node_links in \<open>auto simp: thread_list_def\<close>)

section \<open>Properties\<close>

text \<open>An initialised list in a memory without nodes.\<close>

definition sample_threads :: thread_mem where
  "sample_threads = \<lparr>links_mem = TAILQ_INIT sample_tq 0, node_at = (\<lambda>_. None), joinable = (\<lambda>_. None), created = 0, joined = []\<rparr>"

definition sample_block :: "addr \<Rightarrow> (addr \<times> node \<times> tailq_entry) option" where
  "sample_block a = Some (a, \<lparr>node_thread = 0, node_thread_exit = False\<rparr>, \<lparr>tqe_next = None, tqe_prev = First_of 0\<rparr>)"

definition sample_list :: thread_mem where
  "sample_list = \<lparr>links_mem = sample_two,
     node_at = (\<lambda>a. if a \<in> {1, 2, 3} then Some \<lparr>node_thread = 10 + a, node_thread_exit = True\<rparr> else None),
     joinable = (\<lambda>t. if t = 11 then Some 0 else if t = 12 then Some 1 else None), created = 2, joined = []\<rparr>"

text \<open>
  \<open>release_all_thread\<close> on a list whose identifiers name different threads that end joins each of
  them once, in list order, frees exactly the nodes of the list and leaves the list empty; it ends
  after as many rounds as the list has nodes.
\<close>

theorem release_joins_every_thread:
  assumes "thread_list m head xs" "distinct (threads_of m xs)"
    and "\<forall>t\<in>set (threads_of m xs). \<exists>k. joinable m t = Some k \<and> ended k" "length xs \<le> n"
  shows "\<exists>m'. release_all_thread ended n head m = Inr (Some m') \<and> TAILQ_EMPTY (links_mem m') head \<and>
    joined m' = joined m @ map (\<lambda>t. the (joinable m t)) (threads_of m xs) \<and>
    (\<forall>a. node_at m' a = (if a \<in> set xs then None else node_at m a))"
  using release_all[OF assms] empty_spec by (fastforce simp: thread_list_def)

theorem release_joins_every_thread_witness:
  "\<exists>m'. release_all_thread (\<lambda>_. True) 2 0 sample_list = Inr (Some m') \<and> joined m' = [0, 1] \<and>
    node_at m' 1 = None \<and> node_at m' 3 \<noteq> None"
proof -
  have "thread_list sample_list 0 [1, 2]" "threads_of sample_list [1, 2] = [11, 12]" "joined sample_list = []"
    "node_at sample_list 3 \<noteq> None" "joinable sample_list 11 = Some 0" "joinable sample_list 12 = Some 1" by code_simp+
  then show ?thesis using release_joins_every_thread[of sample_list 0 "[1, 2]" "\<lambda>_. True" 2] by auto
qed

text \<open>
  The flag of every new node is set, and joined threads stay in the list. So the check after the
  first connection waits for the thread that was just started and joins it. The check after the
  second connection meets the identifier of the first thread again: it is undefined behaviour,
  or, if the second thread got the same identifier, it joins that thread and has undefined
  behaviour at the second node. The shutdown of a server that had a connection joins twice as well.
\<close>

theorem first_thread_joined_again:
  assumes "thread_list m head []" "joinable m = Map.empty" "a1 \<noteq> a2" "ended (created m)"
  shows "\<exists>m1 m2 m3. insert_node (Some (a1, nd1, e1)) head t1 (pthread_create t1 m) = Inr m1 \<and>
    check_thread_exit ended (Suc n) head m1 = Inr (Some m2) \<and> joined m2 = joined m @ [created m] \<and>
    release_all_thread ended (Suc n) head m2 = Inl Invalid_join \<and>
    insert_node (Some (a2, nd2, e2)) head t2 (pthread_create t2 m2) = Inr m3 \<and>
    check_thread_exit ended (Suc (Suc n)) head m3 =
      Inl (if t1 = t2 \<and> \<not> ended (Suc (created m)) then Blocks else Invalid_join)"
proof -
  obtain m1 where m1: "insert_node (Some (a1, nd1, e1)) head t1 (pthread_create t1 m) = Inr m1" "thread_list m1 head [a1]"
    "joinable m1 = [t1 \<mapsto> created m]" "created m1 = Suc (created m)" "joined m1 = joined m"
    "node_at m1 = (node_at m)(a1 \<mapsto> nd1\<lparr>node_thread := t1, node_thread_exit := True\<rparr>)"
    using insert_node_ok[of "pthread_create t1 m" head "[]" a1 nd1 e1 t1] assms(1,2) by auto
  let ?m2 = "after_join t1 (created m) m1"
  have c1: "check_thread_exit ended (Suc n) head m1 = Inr (Some ?m2)"
    using check_all[OF m1(2), of "Suc n" ended] m1(3,6) assms(4) by (simp add: check_node_def get_node_def)
  have "tailq (links_mem ?m2) head [a1]" using m1(2) by (simp add: thread_list_def)
  note q = empty_spec[OF this] first_spec[OF this]
  have r: "release_all_thread ended (Suc n) head ?m2 = Inl Invalid_join"
    using q m1(3,6) by (subst release_all_thread.simps) (simp add: get_node_def)
  obtain m3 where m3: "insert_node (Some (a2, nd2, e2)) head t2 (pthread_create t2 ?m2) = Inr m3" "thread_list m3 head [a1, a2]"
    "joinable m3 = [t2 \<mapsto> Suc (created m)]"
    "node_at m3 = (node_at m1)(a2 \<mapsto> nd2\<lparr>node_thread := t2, node_thread_exit := True\<rparr>)"
    using insert_node_ok[of "pthread_create t2 ?m2" head "[a1]" a2 nd2 e2 t2] m1(2-4) assms(3) by auto
  have "check_thread_exit ended (Suc (Suc n)) head m3 = Inl (if t1 = t2 \<and> \<not> ended (Suc (created m)) then Blocks else Invalid_join)"
    using check_all[OF m3(2), of "Suc (Suc n)" ended] m3(3,4) m1(6) assms(3)
    by (cases "t1 = t2"; cases "ended (Suc (created m))") (simp_all add: check_node_def get_node_def)
  then show ?thesis using m1(1,5) c1 r m3(1) by (intro exI[of _ m1] exI[of _ ?m2] exI[of _ m3]) simp
qed

theorem first_thread_joined_again_witness:
  "\<exists>m1 m2. insert_node (sample_block 1) 0 11 (pthread_create 11 sample_threads) = Inr m1 \<and>
    check_thread_exit (\<lambda>_. True) 1 0 m1 = Inr (Some m2) \<and> joined m2 = [0] \<and>
    release_all_thread (\<lambda>_. True) 1 0 m2 = Inl Invalid_join"
proof -
  have "thread_list sample_threads 0 []" "joined sample_threads = []" "created sample_threads = 0" by code_simp+
  moreover have "joinable sample_threads = Map.empty" by (simp add: sample_threads_def)
  ultimately show ?thesis
    using first_thread_joined_again[of sample_threads 0 1 2 "\<lambda>_. True"] by (fastforce simp: sample_block_def)
qed

end
