(* ===== verification/Signals.thy ===== *)
theory Signals
  imports AESD_Prelude
begin

text \<open>
  The signal handler of \<open>server/src/aesdsocket.c\<close> and the global flag it sets. The flag is read by the
  main thread and by the client threads; nothing resets it after the start of the program.
\<close>

definition SIGINT :: int where "SIGINT = 2"
definition SIGTERM :: int where "SIGTERM = 15"

record signal_state =
  EXIT_SIGNAL :: bool
  syslog_lines :: "string list"

datatype handler_effect = Handler_returns signal_state | Handler_exits int

definition sigint_handler :: "int \<Rightarrow> signal_state \<Rightarrow> handler_effect" where
  "sigint_handler signo g =
     (if signo = SIGINT \<or> signo = SIGTERM
      then Handler_returns (g\<lparr>EXIT_SIGNAL := True, syslog_lines := syslog_lines g @ [''Caught signal, exiting'']\<rparr>)
      else Handler_exits 1)"

lemma handler_sets: "sigint_handler signo g = Handler_returns g' \<Longrightarrow> EXIT_SIGNAL g'"
  by (auto simp: sigint_handler_def split: if_splits)

lemma interrupt_returns: "\<exists>g'. sigint_handler SIGINT g = Handler_returns g' \<and> EXIT_SIGNAL g'"
  by (simp add: sigint_handler_def)

end
