(* ===== verification/Server_Main.thy ===== *)
theory Server_Main
  imports Socket_Thread Thread_List Signals
begin

text \<open>
  The main function of the socket server (\<open>server/src/aesdsocket.c\<close>) and \<open>timespec_add\<close> of
  \<open>server/src/aesdsocket.h\<close>. The answers of the system calls are fields of a record; what the program
  does to the system is a list of actions in order. Output is one of these actions, with the
  format string and without the error number that some of them print. A join of a client thread
  returns if that thread ends, which \<open>client_ends\<close> says; otherwise the main function waits. \<open>main\<close> is cut at its
  comments into phases that pass on the actions done so far or stop the process. The threads
  themselves are those of \<open>Socket_Thread\<close>.
\<close>

section \<open>Time\<close>

record timespec =
  tv_sec :: "64 word"
  tv_nsec :: "64 word"

definition timespec_add :: "timespec \<Rightarrow> timespec \<Rightarrow> timespec" where
  "timespec_add ts_1 ts_2 =
     (let sec = tv_sec ts_1 + tv_sec ts_2; nsec = tv_nsec ts_1 + tv_nsec ts_2 in
      if 1000000000 < sint nsec then \<lparr>tv_sec = sec + 1, tv_nsec = nsec - 1000000000\<rparr>
      else \<lparr>tv_sec = sec, tv_nsec = nsec\<rparr>)"

section \<open>Answers of the system and actions of the program\<close>

datatype option_char = Option_d | Option_unknown

record accept_round =
  exit_signal :: bool
  accepted_fd :: int
  peer :: sockaddr
  peer_len :: nat
  address_stack :: "byte list"
  data_block :: "thread_data option"
  pthread_create_ret :: int
  new_thread :: pthread
  node_block :: "(addr \<times> node \<times> tailq_entry) option"

record server_env =
  sigterm_ok :: bool
  sigint_ok :: bool
  cmd_options :: "option_char list"
  fopen_ok :: bool
  timer_block :: bool
  getaddrinfo_ret :: int
  fork_ret :: int
  setsid_ret :: int
  timer_create_ret :: int
  clock_start :: "timespec option"
  settime_ret :: int
  socket_ret :: int
  setsockopt_ret :: int
  bind_ret :: int
  listen_ret :: int
  ntop :: "address_family \<Rightarrow> byte list \<Rightarrow> byte list"
  rounds :: "accept_round list"
  client_ends :: "nat \<Rightarrow> bool"
  remove_ret :: int

datatype action =
    Handles int
  | Truncates_file
  | Leaves_session
  | Creates_timer
  | Sets_timer timespec timespec
  | Opens_socket int
  | Reuses_address
  | Binds
  | Frees_addrinfo
  | Listens
  | Starts_thread pthread thread_data
  | Closes_file
  | Shuts_down int
  | Closes_socket int
  | Destroys_mutex
  | Removes_file
  | Prints string
  | Prints_error string
  | Logs string

datatype main_stop = Exits int | Waits_in_accept | Waits_in_join | Runs_forever | Undefined c_error

type_synonym 'a phase = "(main_stop \<times> action list) + 'a"

text \<open>A call that waits forever stops the main function where it is, and so does undefined behaviour.\<close>

definition or_undefined :: "action list \<Rightarrow> 'a res \<Rightarrow> 'a phase" where
  "or_undefined tr r = (case r of
     Inl e \<Rightarrow> Inl (if e = Blocks then Waits_in_join else Undefined e, tr) | Inr x \<Rightarrow> Inr x)"

section \<open>The phases of main\<close>

definition register_handlers :: "server_env \<Rightarrow> action list phase" where
  "register_handlers env =
     (if \<not> sigterm_ok env then Inl (Exits 1, [Prints ''SIGTERM register failed!''])
      else if \<not> sigint_ok env then Inl (Exits 1, [Handles SIGTERM, Prints ''SIGINT register failed!''])
      else Inr [Handles SIGTERM, Handles SIGINT])"

fun read_options :: "option_char list \<Rightarrow> bool \<Rightarrow> action list \<Rightarrow> bool phase" where
  "read_options [] enable_daemon tr = Inr enable_daemon"
| "read_options (Option_d # os) enable_daemon tr = read_options os True tr"
| "read_options (Option_unknown # os) enable_daemon tr = Inl (Exits 1, tr @ [Prints ''Please check option''])"

text \<open>The timer data is allocated without a check and then written to.\<close>

definition open_output :: "server_env \<Rightarrow> action list \<Rightarrow> action list phase" where
  "open_output env tr =
     (if \<not> fopen_ok env then Inl (Exits 1, tr @ [Prints ''fp is null, exit''])
      else if \<not> timer_block env then Inl (Undefined Null_deref, tr @ [Truncates_file])
      else Inr (tr @ [Truncates_file]))"

definition resolve_address :: "server_env \<Rightarrow> action list \<Rightarrow> action list phase" where
  "resolve_address env tr =
     (if getaddrinfo_ret env \<noteq> 0 then Inl (Exits (getaddrinfo_ret env), tr @ [Prints ''getaddrinfo() failed!''])
      else Inr tr)"

definition daemonize :: "server_env \<Rightarrow> bool \<Rightarrow> action list \<Rightarrow> action list phase" where
  "daemonize env enable_daemon tr =
     (if enable_daemon then
        if fork_ret env = -1 then Inl (Exits 1, tr @ [Prints ''Failed to fork, exit!'', Logs ''Failed to fork, exit''])
        else if fork_ret env = 0 then
          Inr (tr @ [Prints ''This is child process, continue..''] @ (if setsid_ret env = -1 then [] else [Leaves_session]))
        else Inl (Exits 0, tr)
      else Inr tr)"

definition start_timer :: "server_env \<Rightarrow> action list \<Rightarrow> action list phase" where
  "start_timer env tr =
     (if timer_create_ret env \<noteq> 0
      then Inl (Exits 1, tr @ [Prints ''Failed to create timer! errno: %d (%s)'', Logs ''Failed to create timer! exit...''])
      else case clock_start env of
        None \<Rightarrow> Inl (Exits 1, tr @ [Creates_timer, Prints ''Error %d %s getting clock'', Logs ''Failed to get current time! exit...''])
      | Some start_time \<Rightarrow>
          let it_interval = \<lparr>tv_sec = 10, tv_nsec = 0\<rparr>;
              it_value = timespec_add start_time it_interval in
          if settime_ret env \<noteq> 0
          then Inl (Exits 1, tr @ [Creates_timer, Prints ''Error %d (%s) setting timer!'', Logs ''Failed to set timer! exit...''])
          else Inr (tr @ [Creates_timer, Sets_timer it_value it_interval]))"

definition open_socket :: "server_env \<Rightarrow> action list \<Rightarrow> (int \<times> action list) phase" where
  "open_socket env tr =
     (let socket_fd = socket_ret env; tr1 = tr @ [Opens_socket socket_fd];
          tr2 = tr1 @ [Reuses_address]; tr3 = tr2 @ [Binds, Frees_addrinfo] in
      if socket_fd = -1 then Inl (Exits socket_fd, tr @ [Prints ''socket() failed! errno: %d''])
      else if setsockopt_ret env = -1 then Inl (Exits 1, tr1 @ [Prints_error ''setsockopt error''])
      else if bind_ret env = -1 then Inl (Exits (bind_ret env), tr2 @ [Prints ''bind() failed!''])
      else if listen_ret env = -1 then Inl (Exits (listen_ret env), tr3 @ [Prints ''listen() failed!''])
      else Inr (listen_ret env, tr3 @ [Listens]))"

definition c_strncpy :: "byte list \<Rightarrow> nat \<Rightarrow> byte list" where
  "c_strncpy src n = (let s = takeWhile (\<lambda>b. b \<noteq> NUL) (take n src) in s @ replicate (n - length s) NUL)"

text \<open>
  One round of the accept loop after \<open>accept\<close> returned, up to the registration of the new thread.
  The answer of \<open>accept\<close> is not looked at; \<open>ret\<close> still holds the value of the last \<open>listen\<close> or
  \<open>pthread_create\<close>. \<open>data_block\<close> is the answer of \<open>malloc\<close> with the bytes it happens to hold;
  \<open>thread_exit\<close> is not initialised.
\<close>

definition accept_client ::
  "server_env \<Rightarrow> accept_round \<Rightarrow> int \<Rightarrow> thread_mem \<Rightarrow> action list \<Rightarrow> (int \<times> thread_mem \<times> action list) phase" where
  "accept_client env r ret m tr =
     (let fd = accepted_fd r in
      if ret = -1 then Inl (Exits ret, tr @ [Prints ''accept() failed!''])
      else
        bindE (or_undefined tr (get_client_info (ntop env) (peer r) (peer_len r) (address_stack r))) (\<lambda>address.
        case data_block r of None \<Rightarrow> Inl (Exits 1, tr @ [Prints ''malloc() failed!''])
        | Some uninitialised \<Rightarrow>
          let p_thread_data = uninitialised\<lparr>fd_accept := fd,
                client_address := c_strncpy address INET_ADDRSTRLEN\<rparr>;
              ret1 = pthread_create_ret r in
          if ret1 \<noteq> 0 then Inl (Exits 1, tr @ [Prints ''pthread_create() failed!''])
          else
            let tr1 = tr @ [Starts_thread (new_thread r) p_thread_data] in
            bindE (or_undefined tr1 (insert_node (node_block r) 0 (new_thread r) (pthread_create (new_thread r) m))) (\<lambda>m1.
              Inr (ret1, m1, tr1))))"

text \<open>The whole round; \<open>n\<close> bounds the traversal of the thread list.\<close>

definition accept_body ::
  "nat \<Rightarrow> server_env \<Rightarrow> accept_round \<Rightarrow> int \<Rightarrow> thread_mem \<Rightarrow> action list \<Rightarrow> (int \<times> thread_mem \<times> action list) phase" where
  "accept_body n env r ret m tr =
     bindE (accept_client env r ret m tr) (\<lambda>(ret1, m1, tr1).
     bindE (or_undefined tr1 (check_thread_exit (client_ends env) n 0 m1)) (\<lambda>c.
       case c of None \<Rightarrow> Inl (Runs_forever, tr1) | Some m2 \<Rightarrow> Inr (ret1, m2, tr1)))"

fun accept_loop ::
  "nat \<Rightarrow> server_env \<Rightarrow> accept_round list \<Rightarrow> int \<Rightarrow> thread_mem \<Rightarrow> action list \<Rightarrow> (thread_mem \<times> action list) phase" where
  "accept_loop n env [] ret m tr = Inl (Waits_in_accept, tr)"
| "accept_loop n env (r # rs) ret m tr =
     (if exit_signal r then Inr (m, tr)
      else bindE (accept_body n env r ret m tr) (\<lambda>(ret1, m1, tr1). accept_loop n env rs ret1 m1 tr1))"

definition stop_server :: "(nat \<Rightarrow> bool) \<Rightarrow> nat \<Rightarrow> server_env \<Rightarrow> thread_mem \<Rightarrow> action list \<Rightarrow> action list phase" where
  "stop_server ended n env m tr =
     bindE (or_undefined tr (release_all_thread ended n 0 m)) (\<lambda>c.
       case c of None \<Rightarrow> Inl (Runs_forever, tr)
       | Some m1 \<Rightarrow>
          Inr (tr @ [Closes_file, Shuts_down (socket_ret env), Closes_socket (socket_ret env), Destroys_mutex] @
            (if remove_ret env = 0 then [Removes_file, Prints ''removed successfully''] else []) @ [Prints ''Exit...'']))"

definition server_setup :: "server_env \<Rightarrow> (int \<times> action list) phase" where
  "server_setup env =
     bindE (register_handlers env) (\<lambda>tr1.
     bindE (read_options (cmd_options env) False tr1) (\<lambda>enable_daemon.
     bindE (open_output env tr1) (\<lambda>tr2.
     bindE (resolve_address env tr2) (\<lambda>tr3.
     bindE (daemonize env enable_daemon tr3) (\<lambda>tr4.
     bindE (start_timer env tr4) (open_socket env))))))"

text \<open>
  The whole function, from a memory \<open>m\<close> whose head \<open>0\<close> is the local variable \<open>head\<close>. Every round
  adds at most one node, so the number of rounds bounds all traversals.
\<close>

definition server_main :: "server_env \<Rightarrow> thread_mem \<Rightarrow> main_stop \<times> action list" where
  "server_main env m =
     (let n = length (rounds env) in
      case bindE (server_setup env) (\<lambda>(ret, tr).
           bindE (accept_loop n env (rounds env) ret (m\<lparr>links_mem := TAILQ_INIT (links_mem m) 0\<rparr>) tr) (\<lambda>(m1, tr1).
             stop_server (client_ends env) n env m1 tr1))
      of Inl stop \<Rightarrow> stop | Inr tr \<Rightarrow> (Exits 0, tr))"

section \<open>Lemmas\<close>

lemma sint_add_in_range:
  fixes a b :: "64 word"
  assumes "- (2 ^ 63) \<le> sint a + sint b" "sint a + sint b < 2 ^ 63"
  shows "sint (a + b) = sint a + sint b"
  using assms by (simp add: sint_word_ariths signed_take_bit_int_eq_self)

lemma sint_diff_in_range:
  fixes a b :: "64 word"
  assumes "- (2 ^ 63) \<le> sint a - sint b" "sint a - sint b < 2 ^ 63"
  shows "sint (a - b) = sint a - sint b"
  using assms by (simp add: sint_word_ariths signed_take_bit_int_eq_self)

text \<open>Nanoseconds since the epoch of the clock.\<close>

definition nanoseconds :: "timespec \<Rightarrow> int" where
  "nanoseconds t = sint (tv_sec t) * 1000000000 + sint (tv_nsec t)"

definition normalised :: "timespec \<Rightarrow> bool" where
  "normalised t \<longleftrightarrow> 0 \<le> sint (tv_nsec t) \<and> sint (tv_nsec t) < 1000000000"

lemma read_options_Inr:
  "read_options os d tr = Inr e \<longleftrightarrow> Option_unknown \<notin> set os \<and> e = (d \<or> os \<noteq> [])"
  by (induction os d tr rule: read_options.induct) auto

lemma read_options_Inl:
  "read_options os d tr = Inl s \<longleftrightarrow> Option_unknown \<in> set os \<and> s = (Exits 1, tr @ [Prints ''Please check option''])"
  by (induction os d tr rule: read_options.induct) auto

lemma or_undefined_simps [simp]:
  "or_undefined tr (Inr x) = Inr x" "e \<noteq> Blocks \<Longrightarrow> or_undefined tr (Inl e) = Inl (Undefined e, tr)"
  "or_undefined tr (Inl Blocks) = Inl (Waits_in_join, tr)"
  by (simp_all add: or_undefined_def)

definition setup_actions :: "server_env \<Rightarrow> timespec \<Rightarrow> action list" where
  "setup_actions env start_time = [Handles SIGTERM, Handles SIGINT, Truncates_file] @
     (if cmd_options env = [] then [] else [Prints ''This is child process, continue..''] @
        (if setsid_ret env = -1 then [] else [Leaves_session])) @
     [Creates_timer, Sets_timer (timespec_add start_time \<lparr>tv_sec = 10, tv_nsec = 0\<rparr>) \<lparr>tv_sec = 10, tv_nsec = 0\<rparr>,
      Opens_socket (socket_ret env), Reuses_address, Binds, Frees_addrinfo, Listens]"

lemmas setup_phases = register_handlers_def open_output_def resolve_address_def daemonize_def
  start_timer_def open_socket_def

section \<open>Properties\<close>

text \<open>
  (C39) \<open>timespec_add\<close> on normalised times whose seconds do not overflow adds the two times exactly, and
  the nanoseconds of the result are between zero and one second. They equal one second, which
  is not normalised, exactly when the nanoseconds of the arguments sum up to it, because the
  carry is only taken above and not at one second.
\<close>

theorem timespec_add_exact:
  assumes "normalised a" "normalised b"
    and "- (2 ^ 63) \<le> sint (tv_sec a) + sint (tv_sec b)" "sint (tv_sec a) + sint (tv_sec b) < 2 ^ 63 - 1"
  shows "nanoseconds (timespec_add a b) = nanoseconds a + nanoseconds b \<and>
    0 \<le> sint (tv_nsec (timespec_add a b)) \<and> sint (tv_nsec (timespec_add a b)) \<le> 1000000000 \<and>
    (normalised (timespec_add a b) \<longleftrightarrow> sint (tv_nsec a) + sint (tv_nsec b) \<noteq> 1000000000)"
proof -
  let ?s = "tv_sec a + tv_sec b" and ?n = "tv_nsec a + tv_nsec b"
  have n: "sint ?n = sint (tv_nsec a) + sint (tv_nsec b)"
    using assms(1,2) by (intro sint_add_in_range) (simp_all add: normalised_def)
  have s: "sint ?s = sint (tv_sec a) + sint (tv_sec b)"
    using assms(3,4) by (intro sint_add_in_range) simp_all
  show ?thesis
  proof (cases "1000000000 < sint ?n")
    case True
    have "sint (?n - 1000000000) = sint ?n - 1000000000"
      using n assms(1,2) sint_diff_in_range[of ?n 1000000000] by (simp add: normalised_def)
    moreover have "sint (?s + 1) = sint ?s + 1"
      using s assms(3,4) sint_add_in_range[of ?s 1] by simp
    ultimately show ?thesis
      using True n s assms(1,2) by (simp add: timespec_add_def nanoseconds_def normalised_def Let_def)
  next
    case False
    then show ?thesis
      using n s assms(1,2) by (simp add: timespec_add_def nanoseconds_def normalised_def Let_def) linarith
  qed
qed

theorem timespec_add_exact_witness:
  "nanoseconds (timespec_add \<lparr>tv_sec = 5, tv_nsec = 600000000\<rparr> \<lparr>tv_sec = 1, tv_nsec = 400000000\<rparr>) = 7000000000 \<and>
   \<not> normalised (timespec_add \<lparr>tv_sec = 5, tv_nsec = 600000000\<rparr> \<lparr>tv_sec = 1, tv_nsec = 400000000\<rparr>)"
  using timespec_add_exact[of "\<lparr>tv_sec = 5, tv_nsec = 600000000\<rparr>" "\<lparr>tv_sec = 1, tv_nsec = 400000000\<rparr>"]
  by (simp add: normalised_def nanoseconds_def)

text \<open>
  A setup that stops ends the process there: the server does not listen, starts no thread and
  leaves the output file in place if it was already truncated. The exit status is zero only in
  the parent of the daemon, and the only undefined behaviour is the unchecked allocation of the
  timer data.
\<close>

theorem setup_failure_stops:
  assumes "server_setup env = Inl (stop, tr)"
  shows "server_main env m = (stop, tr) \<and> Listens \<notin> set tr \<and> (\<forall>t td. Starts_thread t td \<notin> set tr) \<and>
    Closes_file \<notin> set tr \<and> Removes_file \<notin> set tr \<and>
    (stop = Exits 0 \<longrightarrow> cmd_options env \<noteq> [] \<and> fork_ret env \<noteq> 0 \<and> fork_ret env \<noteq> -1) \<and>
    (stop = Exits 0 \<or> (\<exists>c. c \<noteq> 0 \<and> stop = Exits c) \<or> stop = Undefined Null_deref \<and> \<not> timer_block env)"
proof -
  have m: "server_main env m = (stop, tr)" using assms by (simp add: server_main_def Let_def)
  have "Listens \<notin> set tr \<and> (\<forall>t td. Starts_thread t td \<notin> set tr) \<and> Closes_file \<notin> set tr \<and> Removes_file \<notin> set tr"
    using assms by (cases "clock_start env")
      (auto simp: server_setup_def setup_phases bindE_eq_Inl read_options_Inr read_options_Inl Let_def split: if_splits)
  moreover have "(stop = Exits 0 \<longrightarrow> cmd_options env \<noteq> [] \<and> fork_ret env \<noteq> 0 \<and> fork_ret env \<noteq> -1) \<and>
    (stop = Exits 0 \<or> (\<exists>c. c \<noteq> 0 \<and> stop = Exits c) \<or> stop = Undefined Null_deref \<and> \<not> timer_block env)"
    using assms by (cases "clock_start env")
      (auto simp: server_setup_def setup_phases bindE_eq_Inl read_options_Inr read_options_Inl Let_def split: if_splits)
  ultimately show ?thesis using m by blast
qed

definition sample_round :: accept_round where
  "sample_round = \<lparr>exit_signal = False, accepted_fd = 7, peer = Sockaddr_in [127, 0, 0, 1], peer_len = 16,
     address_stack = replicate 16 1, data_block = Some sample_td, pthread_create_ret = 0, new_thread = 11,
     node_block = sample_block 1\<rparr>"

definition sample_server :: server_env where
  "sample_server = \<lparr>sigterm_ok = True, sigint_ok = True, cmd_options = [], fopen_ok = True, timer_block = True,
     getaddrinfo_ret = 0, fork_ret = 0, setsid_ret = 1, timer_create_ret = 0, clock_start = Some \<lparr>tv_sec = 5, tv_nsec = 0\<rparr>,
     settime_ret = 0, socket_ret = 3, setsockopt_ret = 0, bind_ret = 0, listen_ret = 0,
     ntop = (\<lambda>_ _. [49, 50, 55]), rounds = [sample_round, sample_round\<lparr>exit_signal := True\<rparr>],
     client_ends = (\<lambda>_. True), remove_ret = 0\<rparr>"

theorem setup_failure_stops_witness:
  "server_main (sample_server\<lparr>bind_ret := -1\<rparr>) sample_threads =
     (Exits (-1), take 7 (setup_actions sample_server \<lparr>tv_sec = 5, tv_nsec = 0\<rparr>) @ [Prints ''bind() failed!''])"
proof -
  have "server_setup (sample_server\<lparr>bind_ret := -1\<rparr>) =
      Inl (Exits (-1), take 7 (setup_actions sample_server \<lparr>tv_sec = 5, tv_nsec = 0\<rparr>) @ [Prints ''bind() failed!''])" by code_simp
  from setup_failure_stops[OF this] show ?thesis by blast
qed

text \<open>
  A server that is told to stop before any client connects releases everything it acquired, in
  order: the file, the socket, the mutex and the temporary file, and exits with status zero.
\<close>

theorem idle_server_cleans_up:
  assumes "server_setup env = Inr (ret, tr)" "rounds env = r # rs" "exit_signal r"
  shows "server_main env m = (Exits 0, tr @ [Closes_file, Shuts_down (socket_ret env), Closes_socket (socket_ret env), Destroys_mutex] @
    (if remove_ret env = 0 then [Removes_file, Prints ''removed successfully''] else []) @ [Prints ''Exit...''])"
proof -
  let ?l = "TAILQ_INIT (links_mem m) 0"
  have "TAILQ_EMPTY ?l 0" using init_empty[of "links_mem m" 0] empty_spec by blast
  then show ?thesis using assms
    by (simp add: server_main_def stop_server_def release_all_thread.simps Let_def)
qed

theorem idle_server_cleans_up_witness:
  "server_main (sample_server\<lparr>rounds := [sample_round\<lparr>exit_signal := True\<rparr>]\<rparr>) sample_threads =
     (Exits 0, setup_actions sample_server \<lparr>tv_sec = 5, tv_nsec = 0\<rparr> @
        [Closes_file, Shuts_down 3, Closes_socket 3, Destroys_mutex, Removes_file, Prints ''removed successfully'', Prints ''Exit...''])"
proof -
  let ?env = "sample_server\<lparr>rounds := [sample_round\<lparr>exit_signal := True\<rparr>]\<rparr>"
  have "server_setup ?env = Inr (0, setup_actions sample_server \<lparr>tv_sec = 5, tv_nsec = 0\<rparr>)" by code_simp
  from idle_server_cleans_up[OF this] show ?thesis by (simp add: sample_server_def)
qed

text \<open>A round whose calls all succeed, on a list that holds no node yet, with a client that ends.\<close>

lemma first_round:
  assumes "thread_list m 0 []" "joinable m = Map.empty" "ret \<noteq> -1" "data_block r = Some td0" "pthread_create_ret r = 0"
    and "node_block r = Some (a, nd, e)" "get_client_info (ntop env) (peer r) (peer_len r) (address_stack r) = Inr adr"
    and "client_ends env (created m)"
  shows "\<exists>m2. accept_body (Suc n) env r ret m tr = Inr (0, m2, tr @ [Starts_thread (new_thread r)
      (td0\<lparr>fd_accept := accepted_fd r, client_address := c_strncpy adr INET_ADDRSTRLEN\<rparr>)]) \<and>
    thread_list m2 0 [a] \<and> joinable m2 = Map.empty"
proof -
  obtain m1 where m1: "insert_node (Some (a, nd, e)) 0 (new_thread r) (pthread_create (new_thread r) m) = Inr m1"
    "thread_list m1 0 [a]" "joinable m1 = [new_thread r \<mapsto> created m]"
    "node_at m1 = (node_at m)(a \<mapsto> nd\<lparr>node_thread := new_thread r, node_thread_exit := True\<rparr>)"
    using insert_node_ok[of "pthread_create (new_thread r) m" 0 "[]" a nd e "new_thread r"] assms(1,2) by auto
  let ?m2 = "after_join (new_thread r) (created m) m1"
  have "check_thread_exit (client_ends env) (Suc n) 0 m1 = Inr (Some ?m2)"
    using check_all[OF m1(2), of "Suc n" "client_ends env"] m1(3,4) assms(8) by (simp add: check_node_def get_node_def)
  then show ?thesis using assms m1 by (auto simp: accept_body_def accept_client_def Let_def)
qed

text \<open>An address text of less than sixteen bytes reaches the thread as a terminated string.\<close>

lemma started_address_terminated:
  assumes "get_client_info nt sa len stack = Inr adr" "txt = nt (sa_family sa) (address_bytes sa)"
    and "length txt < len" "length txt < INET_ADDRSTRLEN" "NUL \<notin> set txt"
  shows "c_str (c_strncpy adr INET_ADDRSTRLEN) = Inr txt"
proof -
  have "sa_family sa \<noteq> AF_INET \<Longrightarrow> sa_family sa = AF_INET6" by (cases "sa_family sa") auto
  then obtain rest where adr: "adr = txt @ NUL # rest"
    using assms(1-3) by (auto simp: get_client_info_def inet_ntop_def Let_def split: if_splits)
  have "take INET_ADDRSTRLEN adr = txt @ NUL # take (INET_ADDRSTRLEN - Suc (length txt)) rest"
    using assms(4) adr by (simp add: take_Cons')
  then have "takeWhile (\<lambda>b. b \<noteq> NUL) (take INET_ADDRSTRLEN adr) = txt"
    using takeWhile_NUL_append[OF assms(5)] by simp
  moreover obtain k where "INET_ADDRSTRLEN - length txt = Suc k" using assms(4) by (metis Suc_diff_Suc)
  ultimately show ?thesis
    using takeWhile_NUL_append[OF assms(5)] by (simp add: c_strncpy_def c_str_def)
qed

text \<open>What a round did that registered its thread, and how a round can end the process.\<close>

lemma accept_client_Inr:
  assumes "accept_client env r ret m tr = Inr (ret1, m1, tr1)"
  obtains a nd e td where "node_block r = Some (a, nd, e)"
    "insert_node (Some (a, nd, e)) 0 (new_thread r) (pthread_create (new_thread r) m) = Inr m1"
    "tr1 = tr @ [Starts_thread (new_thread r) td]" "fd_accept td = accepted_fd r" "ret1 = 0"
  using assms by (cases "node_block r")
    (auto simp: accept_client_def or_undefined_def insert_node_def Let_def bindE_def split: if_splits sum.splits option.splits)

lemma insert_node_no_join:
  "insert_node p_node head t m \<noteq> Inl Invalid_join" "insert_node p_node head t m \<noteq> Inl Blocks"
proof -
  have "store l sl p \<noteq> Inl Invalid_join" "store l sl p \<noteq> Inl Blocks" for l sl p
    by (cases sl; auto simp: store_at.simps link_of_def split: option.splits)+
  moreover have "set_prev l p sl \<noteq> Inl Invalid_join" "set_prev l p sl \<noteq> Inl Blocks" for l sl p
    by (auto simp: store_back_def link_of_def split: option.splits)
  ultimately show "insert_node p_node head t m \<noteq> Inl Invalid_join" "insert_node p_node head t m \<noteq> Inl Blocks"
    by (auto simp: insert_node_def TAILQ_INSERT_TAIL_def Let_def bindE_def split: option.splits sum.splits)
qed

lemma accept_client_Inl:
  assumes "accept_client env r ret m tr = Inl (stop, tr1)"
  shows "stop \<noteq> Exits 0" "stop \<noteq> Undefined Invalid_join" "stop \<noteq> Waits_in_join" "stop \<noteq> Runs_forever" "stop \<noteq> Waits_in_accept"
proof -
  have "get_client_info nt sa len stack \<noteq> Inl Invalid_join" "get_client_info nt sa len stack \<noteq> Inl Blocks" for nt sa len stack
    by (auto simp: get_client_info_def inet_ntop_def Let_def)
  then show "stop \<noteq> Exits 0" "stop \<noteq> Undefined Invalid_join" "stop \<noteq> Waits_in_join" "stop \<noteq> Runs_forever" "stop \<noteq> Waits_in_accept"
    using assms insert_node_no_join
    by (auto simp: accept_client_def or_undefined_def Let_def bindE_def split: if_splits sum.splits option.splits)
qed

lemma joined_first_blocks_release:
  assumes "thread_list m 0 (a # as)" "node_at m a = Some nd" "joinable m (node_thread nd) = None"
  shows "release_all_thread ended (Suc n) 0 m = Inl Invalid_join"
proof -
  have q: "tailq (links_mem m) 0 (a # as)" using assms(1) by (auto simp: thread_list_def)
  then show ?thesis using empty_spec[OF q] first_spec[OF q] assms(2,3)
    by (subst release_all_thread.simps) (simp add: get_node_def)
qed

text \<open>
  A server that served one client and is then told to stop has undefined behaviour in its
  shutdown: the thread of the client was already joined when it was registered, and is joined
  again. The file, the socket and the mutex are not released.
\<close>

theorem served_client_breaks_shutdown:
  assumes "server_setup env = Inr (ret, tr)" "rounds env = r # r' # rs" "\<not> exit_signal r" "exit_signal r'"
    and "data_block r = Some td0" "pthread_create_ret r = 0" "node_block r = Some (a, nd, e)"
    and "get_client_info (ntop env) (peer r) (peer_len r) (address_stack r) = Inr adr"
    and "joinable m = Map.empty" "client_ends env (created m)"
  shows "\<exists>td. server_main env m = (Undefined Invalid_join, tr @ [Starts_thread (new_thread r) td])"
proof -
  let ?m = "m\<lparr>links_mem := TAILQ_INIT (links_mem m) 0\<rparr>"
  have l: "thread_list ?m 0 []" using init_empty[of "links_mem m" 0] by (simp add: thread_list_def)
  have ret: "ret \<noteq> -1" using assms(1)
    by (auto simp: server_setup_def open_socket_def bindE_eq_Inr Let_def split: if_splits)
  obtain td m2 where b: "accept_body (Suc (Suc (length rs))) env r ret ?m tr =
      Inr (0, m2, tr @ [Starts_thread (new_thread r) td])"
    and m2: "thread_list m2 0 [a]" "joinable m2 = Map.empty"
    using first_round[OF l _ ret assms(5-8), where n = "Suc (length rs)" and tr = tr] assms(9,10) by auto
  obtain nd2 where "node_at m2 a = Some nd2" using m2(1) by (auto simp: thread_list_def)
  then have "release_all_thread (client_ends env) (Suc (Suc (length rs))) 0 m2 = Inl Invalid_join"
    using joined_first_blocks_release[OF m2(1)] m2(2) by simp
  then show ?thesis using assms(1-4) b
    by (auto simp: server_main_def stop_server_def Let_def)
qed

theorem served_client_breaks_shutdown_witness:
  "\<exists>td. server_main sample_server sample_threads = (Undefined Invalid_join,
     setup_actions sample_server \<lparr>tv_sec = 5, tv_nsec = 0\<rparr> @ [Starts_thread 11 td])"
proof -
  have s: "server_setup sample_server = Inr (0, setup_actions sample_server \<lparr>tv_sec = 5, tv_nsec = 0\<rparr>)" by code_simp
  have g: "get_client_info (ntop sample_server) (peer sample_round) (peer_len sample_round) (address_stack sample_round) =
    Inr ([49, 50, 55, 0] @ replicate 12 1)" by code_simp
  show ?thesis using served_client_breaks_shutdown[OF s _ _ _ _ _ _ g, of _ _ _ _ _ _ sample_threads]
    by (simp add: sample_server_def sample_round_def sample_block_def sample_threads_def)
qed

text \<open>
  The accept loop does not look at the answer of \<open>accept\<close>: it compares \<open>ret\<close>, which holds the
  result of an earlier call. After a failed \<open>accept\<close> (descriptor \<open>-1\<close>) a thread is started for that
  descriptor like for a client.
\<close>

theorem failed_accept_starts_thread:
  assumes "thread_list m 0 []" "joinable m = Map.empty" "ret \<noteq> -1" "accepted_fd r = -1" "data_block r = Some td0"
    and "pthread_create_ret r = 0" "node_block r = Some (a, nd, e)"
    and "get_client_info (ntop env) (peer r) (peer_len r) (address_stack r) = Inr adr" "client_ends env (created m)"
  shows "\<exists>m2 td. accept_body (Suc n) env r ret m tr = Inr (0, m2, tr @ [Starts_thread (new_thread r) td]) \<and>
    fd_accept td = -1"
  using first_round[OF assms(1-3,5-9)] assms(4) by fastforce

theorem failed_accept_starts_thread_witness:
  "\<exists>m2 td. accept_body 1 sample_server (sample_round\<lparr>accepted_fd := -1\<rparr>) 0 sample_threads [] =
     Inr (0, m2, [Starts_thread 11 td]) \<and> fd_accept td = -1"
proof -
  have l: "thread_list sample_threads 0 []" by code_simp
  have g: "get_client_info (ntop sample_server) (peer (sample_round\<lparr>accepted_fd := -1\<rparr>))
    (peer_len (sample_round\<lparr>accepted_fd := -1\<rparr>)) (address_stack (sample_round\<lparr>accepted_fd := -1\<rparr>)) =
    Inr ([49, 50, 55, 0] @ replicate 12 1)" by code_simp
  show ?thesis using failed_accept_starts_thread[OF l _ _ _ _ _ _ g, where ret = 0 and n = 0 and tr = "[]"]
    by (simp add: sample_round_def sample_block_def sample_threads_def sample_server_def)
qed

end
