(* ===== verification/Server_Interleaving.thy ===== *)
theory Server_Interleaving
  imports Socket_Thread Signals
begin

text \<open>
  Client threads and timer threads running concurrently. A task is one thread; its steps are the
  calls of \<open>thread_socket_receive\<close> and \<open>timer_thread\<close> between which the scheduler can switch, and
  every step is on the shared state of \<open>Socket_Thread\<close>. A signal may arrive at any moment; its handler
  sets the flag that the condition of the receive loop reads before each \<open>recv\<close>.
  The fields \<open>written\<close>, \<open>reply\<close>, \<open>flushed\<close>, \<open>holder\<close> and \<open>order\<close> record the history of a run and do
  not influence it; \<open>reply\<close> is what the connection of a thread received since the thread has the mutex.
\<close>

section \<open>Tasks and steps\<close>

datatype task_pc =
    Started | Before_lock | In_loop | Receiving | Failed | Sending | Closing | Unlocking | Exiting
  | Timer_ready | Timer_locked | Timer_written | Finished

record task =
  pc :: task_pc
  buf :: "byte list"
  data :: thread_data
  flushed :: bool
  written :: "byte list"
  reply :: "byte list"

record server_state =
  io :: server_io
  signals :: signal_state
  tasks :: "nat \<Rightarrow> task"
  holder :: "nat option"
  order :: "nat list"

definition upd_task :: "nat \<Rightarrow> (task \<Rightarrow> task) \<Rightarrow> server_state \<Rightarrow> server_state" where
  "upd_task t f s = s\<lparr>tasks := (tasks s)(t := f (tasks s t))\<rparr>"

definition take_mutex :: "nat \<Rightarrow> task_pc \<Rightarrow> server_state \<Rightarrow> server_state" where
  "take_mutex t p s = upd_task t (\<lambda>k. k\<lparr>pc := p, reply := []\<rparr>)
     (s\<lparr>io := (io s)\<lparr>locked := True\<rparr>, holder := Some t, order := order s @ [t]\<rparr>)"

definition release_mutex :: "nat \<Rightarrow> task_pc \<Rightarrow> server_state \<Rightarrow> server_state" where
  "release_mutex t p s = upd_task t (\<lambda>k. k\<lparr>pc := p\<rparr>) (s\<lparr>io := (io s)\<lparr>locked := False\<rparr>, holder := None\<rparr>)"

definition set_thread_exit :: "task \<Rightarrow> task" where
  "set_thread_exit k = k\<lparr>data := (data k)\<lparr>thread_exit := True\<rparr>\<rparr>"

definition task_writes :: "libc_env \<Rightarrow> nat \<Rightarrow> byte list \<Rightarrow> server_state \<Rightarrow> server_state" where
  "task_writes env t bs s = upd_task t (\<lambda>k. k\<lparr>written := written k @ bs\<rparr>) (s\<lparr>io := fwrite env bs (io s)\<rparr>)"

inductive server_step :: "libc_env \<Rightarrow> server_state \<Rightarrow> server_state \<Rightarrow> bool" for env where
  begin_thread:
    "pc (tasks s t) = Started \<Longrightarrow> c_str (client_address (data (tasks s t))) = Inr adr \<Longrightarrow>
     arr_set (buf (tasks s t)) BUFLEN NUL = Inr b \<Longrightarrow>
     server_step env s (upd_task t (\<lambda>k. k\<lparr>pc := Before_lock, buf := b\<rparr>)
       (s\<lparr>io := log_message (Accepted_connection adr) (io s)\<rparr>))"
| lock_thread:
    "pc (tasks s t) = Before_lock \<Longrightarrow> \<not> locked (io s) \<Longrightarrow> server_step env s (take_mutex t In_loop s)"
| enters_recv:
    "pc (tasks s t) = In_loop \<Longrightarrow> \<not> EXIT_SIGNAL (signals s) \<Longrightarrow> server_step env s (upd_task t (\<lambda>k. k\<lparr>pc := Receiving\<rparr>) s)"
| recv_packet:
    "pc (tasks s t) = Receiving \<Longrightarrow> recv_into (buf (tasks s t)) bs = Inr b \<Longrightarrow> c_strchr b newline = Inr False \<Longrightarrow>
     server_step env s (upd_task t (\<lambda>k. k\<lparr>pc := In_loop, buf := b\<rparr>) (task_writes env t bs s))"
| recv_last:
    "pc (tasks s t) = Receiving \<Longrightarrow> recv_into (buf (tasks s t)) bs = Inr b \<Longrightarrow> c_strchr b newline = Inr True \<Longrightarrow>
     s1 = task_writes env t bs s \<Longrightarrow>
     server_step env s (upd_task t (\<lambda>k. k\<lparr>pc := Sending, buf := b, flushed := True\<rparr>) (s1\<lparr>io := fflush (io s1)\<rparr>))"
| recv_fails:
    "pc (tasks s t) = Receiving \<Longrightarrow>
     server_step env s (upd_task t (\<lambda>k. set_thread_exit (k\<lparr>pc := Failed\<rparr>)) (s\<lparr>io := log_message Recv_failed_message (io s)\<rparr>))"
| exit_after_failure:
    "pc (tasks s t) = Failed \<Longrightarrow> server_step env s (release_mutex t Finished s)"
| sees_exit_signal:
    "pc (tasks s t) = In_loop \<Longrightarrow> EXIT_SIGNAL (signals s) \<Longrightarrow> server_step env s (upd_task t (\<lambda>k. k\<lparr>pc := Sending\<rparr>) s)"
| send_file:
    "pc (tasks s t) = Sending \<Longrightarrow> fd = fd_accept (data (tasks s t)) \<Longrightarrow> send_file_to_client env fd (io s) = Inr io1 \<Longrightarrow>
     server_step env s (upd_task t (\<lambda>k. k\<lparr>pc := Closing, reply := drop (length (delivered (io s) fd)) (delivered io1 fd)\<rparr>)
       (s\<lparr>io := log_message Sent_back_message io1\<rparr>))"
| close_connection:
    "pc (tasks s t) = Closing \<Longrightarrow>
     server_step env s (upd_task t (\<lambda>k. k\<lparr>pc := Unlocking\<rparr>)
       (s\<lparr>io := (io s)\<lparr>fd_open := (fd_open (io s))(fd_accept (data (tasks s t)) := False)\<rparr>\<rparr>))"
| unlock_thread:
    "pc (tasks s t) = Unlocking \<Longrightarrow> server_step env s (release_mutex t Exiting s)"
| finish_thread:
    "pc (tasks s t) = Exiting \<Longrightarrow> server_step env s (upd_task t (\<lambda>k. set_thread_exit (k\<lparr>pc := Finished\<rparr>)) s)"
| lock_timer:
    "pc (tasks s t) = Timer_ready \<Longrightarrow> \<not> locked (io s) \<Longrightarrow> server_step env s (take_mutex t Timer_locked s)"
| write_stamp:
    "pc (tasks s t) = Timer_locked \<Longrightarrow> arr_set (buf (tasks s t)) BUFLEN NUL = Inr b \<Longrightarrow>
     strftime b BUFLEN stamp = Inr (n, b1) \<Longrightarrow> s1 = task_writes env t (take n b1) s \<Longrightarrow>
     server_step env s (upd_task t (\<lambda>k. k\<lparr>pc := Timer_written\<rparr>) (s1\<lparr>io := log_message Timer_message (io s1)\<rparr>))"
| unlock_timer:
    "pc (tasks s t) = Timer_written \<Longrightarrow> server_step env s (release_mutex t Finished s)"
| signal_arrives:
    "sigint_handler signo (signals s) = Handler_returns g \<Longrightarrow> server_step env s (s\<lparr>signals := g\<rparr>)"

section \<open>Invariant\<close>

fun critical :: "task_pc \<Rightarrow> bool" where
  "critical Started = False" | "critical Before_lock = False" | "critical Timer_ready = False"
| "critical Exiting = False" | "critical Finished = False" | "critical _ = True"

fun fresh :: "task_pc \<Rightarrow> bool" where
  "fresh Started = True" | "fresh Before_lock = True" | "fresh Timer_ready = True" | "fresh _ = False"

text \<open>What the tasks up to and including \<open>t\<close> in the order of the lock wrote.\<close>

definition written_until :: "server_state \<Rightarrow> nat \<Rightarrow> byte list" where
  "written_until s t = concat (map (\<lambda>u. written (tasks s u)) (takeWhile (\<lambda>u. u \<noteq> t) (order s) @ [t]))"

definition initial :: "server_state \<Rightarrow> bool" where
  "initial s \<longleftrightarrow> \<not> locked (io s) \<and> holder s = None \<and> order s = [] \<and>
     (\<forall>t. pc (tasks s t) \<in> {Started, Timer_ready} \<and> written (tasks s t) = [] \<and> \<not> flushed (tasks s t))"

definition lock_inv :: "server_state \<Rightarrow> bool" where
  "lock_inv s \<longleftrightarrow> (locked (io s) \<longleftrightarrow> holder s \<noteq> None) \<and> (\<forall>t. critical (pc (tasks s t)) \<longleftrightarrow> holder s = Some t) \<and>
     distinct (order s) \<and> (\<forall>t. holder s = Some t \<longrightarrow> order s \<noteq> [] \<and> last (order s) = t) \<and>
     (\<forall>t. t \<in> set (order s) \<longleftrightarrow> \<not> fresh (pc (tasks s t)))"

text \<open>
  For one task: nothing is written before the lock; a task that flushed finds nothing pending when
  it sends, and its connection received what all tasks up to itself wrote, less the bytes whose
  \<open>send\<close> was refused. \<open>ok\<close> says which are accepted.
\<close>

definition task_ok :: "(nat \<Rightarrow> bool) \<Rightarrow> byte list \<Rightarrow> byte list \<Rightarrow> byte list \<Rightarrow> task \<Rightarrow> bool" where
  "task_ok ok base pend until k \<longleftrightarrow> (fresh (pc k) \<longrightarrow> written k = []) \<and>
     (flushed k \<longrightarrow> pc k \<in> {Sending, Closing, Unlocking, Exiting, Finished}) \<and>
     (flushed k \<and> pc k = Sending \<longrightarrow> pend = []) \<and>
     (flushed k \<and> pc k \<noteq> Sending \<longrightarrow> reply k = send_bytes ok 0 (base @ until))"

definition output_inv :: "(nat \<Rightarrow> bool) \<Rightarrow> byte list \<Rightarrow> server_state \<Rightarrow> bool" where
  "output_inv ok base s \<longleftrightarrow> contents (fp (io s)) = base @ concat (map (\<lambda>t. written (tasks s t)) (order s)) \<and>
     (\<forall>t. task_ok ok base (pending (fp (io s))) (written_until s t) (tasks s t))"

lemma upd_task_simps [simp]:
  "tasks (upd_task t f s) = (tasks s)(t := f (tasks s t))" "io (upd_task t f s) = io s"
  "holder (upd_task t f s) = holder s" "order (upd_task t f s) = order s" "signals (upd_task t f s) = signals s"
  by (simp_all add: upd_task_def)

lemmas step_defs = take_mutex_def release_mutex_def task_writes_def

lemma set_thread_exit_simps [simp]:
  "pc (set_thread_exit k) = pc k" "buf (set_thread_exit k) = buf k" "flushed (set_thread_exit k) = flushed k"
  "written (set_thread_exit k) = written k" "reply (set_thread_exit k) = reply k"
  "data (set_thread_exit k) = (data k)\<lparr>thread_exit := True\<rparr>"
  by (simp_all add: set_thread_exit_def)

lemma signal_inv [simp]:
  "lock_inv (s\<lparr>signals := g\<rparr>) = lock_inv s" "output_inv ok base (s\<lparr>signals := g\<rparr>) = output_inv ok base s"
  by (simp_all add: lock_inv_def output_inv_def written_until_def)

lemma initial_inv:
  assumes "initial s"
  shows "lock_inv s \<and> output_inv ok (contents (fp (io s))) s"
proof -
  have "pc (tasks s t) = Started \<or> pc (tasks s t) = Timer_ready" for t using assms by (auto simp: initial_def)
  then have "\<not> critical (pc (tasks s t)) \<and> fresh (pc (tasks s t))" for t by (metis critical.simps(1,3) fresh.simps(1,3))
  then show ?thesis using assms by (auto simp: initial_def lock_inv_def output_inv_def task_ok_def)
qed

lemma lock_inv_move:
  assumes "lock_inv s" "\<And>u. u \<noteq> t \<Longrightarrow> tasks s' u = tasks s u" "order s' = order s" "holder s' = holder s"
    "locked (io s') = locked (io s)" "critical (pc (tasks s' t)) = critical (pc (tasks s t))"
    "fresh (pc (tasks s' t)) = fresh (pc (tasks s t))"
  shows "lock_inv s'"
proof -
  have "critical (pc (tasks s' u)) = critical (pc (tasks s u))" "fresh (pc (tasks s' u)) = fresh (pc (tasks s u))" for u
    using assms(2,6,7) by (cases "u = t"; simp)+
  then show ?thesis using assms(1,3-5) by (simp add: lock_inv_def)
qed

lemma lock_inv_take:
  assumes "lock_inv s" "fresh (pc (tasks s t))" "\<not> locked (io s)" "critical p"
  shows "lock_inv (take_mutex t p s)"
  using assms by (cases p) (auto simp: lock_inv_def take_mutex_def)

lemma lock_inv_release:
  assumes "lock_inv s" "critical (pc (tasks s t))" "\<not> critical p" "\<not> fresh p"
  shows "lock_inv (release_mutex t p s)"
  using assms by (cases "pc (tasks s t)") (auto simp: lock_inv_def release_mutex_def)

lemma holder_last:
  assumes "lock_inv s" "critical (pc (tasks s t))"
  obtains os where "order s = os @ [t]" "t \<notin> set os"
  using assms by (cases "order s" rule: rev_cases) (auto simp: lock_inv_def)

lemma only_holder_critical: "lock_inv s \<Longrightarrow> critical (pc (tasks s t)) \<Longrightarrow> critical (pc (tasks s u)) \<Longrightarrow> u = t"
  by (simp add: lock_inv_def)

lemma written_until_last:
  assumes "order s = os @ [t]" "t \<notin> set os"
  shows "written_until s t = concat (map (\<lambda>u. written (tasks s u)) (order s))"
proof -
  have "takeWhile (\<lambda>u. u \<noteq> t) (os @ [t]) = os" using assms(2) by (auto simp: takeWhile_append)
  then show ?thesis using assms(1) by (simp add: written_until_def)
qed

text \<open>What an earlier task was sent does not depend on what later tasks write.\<close>

lemma written_until_earlier:
  assumes "u \<in> set os" "order s = os @ rest" "order s' = os @ rest'" "\<And>v. v \<in> set os \<Longrightarrow> written (tasks s' v) = written (tasks s v)"
  shows "written_until s' u = written_until s u"
proof -
  have "takeWhile (\<lambda>v. v \<noteq> u) (os @ xs) = takeWhile (\<lambda>v. v \<noteq> u) os" for xs
    using assms(1) by (auto simp: takeWhile_append1)
  moreover have "set (takeWhile (\<lambda>v. v \<noteq> u) os @ [u]) \<subseteq> set os" using assms(1) by (auto dest: set_takeWhileD)
  ultimately show ?thesis using assms(2-4) unfolding written_until_def
    by (auto intro!: arg_cong[where f = concat] map_cong)
qed

lemma output_inv_move:
  assumes "output_inv ok base s" "\<And>u. u \<noteq> t \<Longrightarrow> tasks s' u = tasks s u" "order s' = order s" "fp (io s') = fp (io s)"
    "written (tasks s' t) = written (tasks s t)" "fresh (pc (tasks s' t)) \<Longrightarrow> fresh (pc (tasks s t))"
    "flushed (tasks s' t) = flushed (tasks s t)"
    "flushed (tasks s t) \<Longrightarrow> pc (tasks s t) \<noteq> Sending \<and> pc (tasks s' t) \<in> {Closing, Unlocking, Exiting, Finished} \<and>
       reply (tasks s' t) = reply (tasks s t)"
  shows "output_inv ok base s'"
proof -
  have w: "written (tasks s' u) = written (tasks s u)" for u using assms(2,5) by (cases "u = t") simp_all
  then have wu: "written_until s' u = written_until s u" for u using assms(3) by (simp add: written_until_def)
  have "task_ok ok base (pending (fp (io s'))) (written_until s' u) (tasks s' u)" for u
  proof (cases "u = t")
    case True
    have "task_ok ok base (pending (fp (io s))) (written_until s t) (tasks s t)" using assms(1) by (simp add: output_inv_def)
    then show ?thesis using True assms(4-8) wu by (auto simp: task_ok_def)
  next
    case False
    then show ?thesis using assms(1,2,4) wu by (simp add: output_inv_def)
  qed
  then show ?thesis using assms(1,3,4) w by (simp add: output_inv_def)
qed

lemma output_inv_take:
  assumes "output_inv ok base s" "lock_inv s" "fresh (pc (tasks s t))" "\<not> fresh p"
  shows "output_inv ok base (take_mutex t p s)"
proof -
  let ?s = "take_mutex t p s"
  have w: "written (tasks ?s u) = written (tasks s u)" for u by (simp add: take_mutex_def)
  have "written_until ?s u = written_until s u" if "flushed (tasks s u)" for u
  proof (rule written_until_earlier)
    have "\<not> fresh (pc (tasks s u))" using that assms(1) by (force simp: output_inv_def task_ok_def)
    then show "u \<in> set (order s)" using assms(2) by (simp add: lock_inv_def)
  qed (auto simp: take_mutex_def)
  moreover have "\<not> flushed (tasks s t)" using assms(1,3) by (force simp: output_inv_def task_ok_def)
  ultimately show ?thesis using assms(1,3,4) w by (auto simp: output_inv_def task_ok_def take_mutex_def)
qed

text \<open>The holder of the mutex appends \<open>bs\<close>; nobody else is between flushing and sending.\<close>

lemma output_inv_write:
  assumes "output_inv ok base s" "lock_inv s" "critical (pc (tasks s t))" "\<not> flushed (tasks s t)"
    and s': "tasks s' = (tasks s)(t := k)" "order s' = order s" "contents (fp (io s')) = contents (fp (io s)) @ bs"
      "written k = written (tasks s t) @ bs" "\<not> fresh (pc k)"
      "flushed k \<Longrightarrow> pc k = Sending \<and> pending (fp (io s')) = []"
  shows "output_inv ok base s'"
proof -
  obtain os where os: "order s = os @ [t]" "t \<notin> set os" using holder_last[OF assms(2,3)] .
  have w: "written (tasks s' u) = written (tasks s u)" if "u \<in> set os" for u using that os(2) s'(1) by auto
  have u: "u \<in> set os" "pc (tasks s u) \<noteq> Sending" if "flushed (tasks s u)" for u
  proof -
    have "u \<noteq> t" using that assms(4) by auto
    then have nc: "\<not> critical (pc (tasks s u))" using only_holder_critical[OF assms(2,3)] by blast
    then show "pc (tasks s u) \<noteq> Sending" by auto
    have "\<not> fresh (pc (tasks s u))" using that assms(1) by (force simp: output_inv_def task_ok_def)
    then have "u \<in> set (order s)" using assms(2) by (simp add: lock_inv_def)
    then show "u \<in> set os" using os(1) \<open>u \<noteq> t\<close> by simp
  qed
  have "written_until s' u = written_until s u" if "flushed (tasks s u)" for u
    using written_until_earlier[of u os s "[t]" s' "[t]"] u[OF that] os(1) s'(2) w by simp
  moreover have "concat (map (\<lambda>u. written (tasks s' u)) (order s')) = concat (map (\<lambda>u. written (tasks s u)) (order s)) @ bs"
    using w os(1) s'(1,2,4) by (simp cong: map_cong)
  ultimately show ?thesis using assms(1,4) u s' by (auto simp: output_inv_def task_ok_def)
qed

lemma sent_reply:
  assumes "send_file_to_client env fd i = Inr i1"
  shows "delivered i1 = (delivered i)(fd := delivered i fd @ send_bytes (send_ok env) 0 (on_disk (fp i)))"
    "drop (length (delivered i fd)) (delivered i1 fd) = send_bytes (send_ok env) 0 (on_disk (fp i))"
    "fp i1 = fp i" "locked i1 = locked i"
  using assms by (auto simp: send_file_to_client_def split: if_splits)

lemma output_inv_send:
  assumes "output_inv ok base s" "lock_inv s" "pc (tasks s t) = Sending"
    and s': "tasks s' = (tasks s)(t := (tasks s t)\<lparr>pc := Closing, reply := send_bytes ok 0 (on_disk (fp (io s)))\<rparr>)"
      "order s' = order s" "fp (io s') = fp (io s)"
  shows "output_inv ok base s'"
proof -
  obtain os where os: "order s = os @ [t]" "t \<notin> set os"
    using holder_last[OF assms(2), of t] assms(3) by auto
  have w: "written (tasks s' u) = written (tasks s u)" for u using s'(1) by simp
  then have "written_until s' u = written_until s u" for u using s'(2) by (simp add: written_until_def)
  moreover have "flushed (tasks s t) \<Longrightarrow> on_disk (fp (io s)) = base @ written_until s t"
    using assms(1,3) written_until_last[OF os] by (auto simp: output_inv_def task_ok_def contents_def)
  ultimately show ?thesis using assms(1,3) s' w by (auto simp: output_inv_def task_ok_def)
qed

text \<open>
  What the connections received: each of them, after what it had received before, the replies of
  the threads that have it, in the order of the lock. A thread that holds the mutex and has not
  sent has no reply yet.
\<close>

fun unsent :: "task_pc \<Rightarrow> bool" where
  "unsent In_loop = True" | "unsent Receiving = True" | "unsent Failed = True" | "unsent Sending = True"
| "unsent Timer_locked = True" | "unsent Timer_written = True" | "unsent _ = False"

definition replies_on :: "server_state \<Rightarrow> int \<Rightarrow> byte list" where
  "replies_on s fd = concat (map (\<lambda>t. reply (tasks s t)) (filter (\<lambda>t. fd_accept (data (tasks s t)) = fd) (order s)))"

definition delivery_inv :: "(int \<Rightarrow> byte list) \<Rightarrow> server_state \<Rightarrow> bool" where
  "delivery_inv start s \<longleftrightarrow> (\<forall>t. unsent (pc (tasks s t)) \<longrightarrow> reply (tasks s t) = []) \<and>
     (\<forall>fd. delivered (io s) fd = start fd @ replies_on s fd)"

lemma initial_delivery:
  assumes "initial s"
  shows "delivery_inv (delivered (io s)) s"
proof -
  have "pc (tasks s t) = Started \<or> pc (tasks s t) = Timer_ready" for t using assms by (auto simp: initial_def)
  then have "\<not> unsent (pc (tasks s t))" for t by (metis unsent.simps(7,12))
  then show ?thesis using assms by (simp add: delivery_inv_def replies_on_def initial_def)
qed

lemma replies_cong:
  assumes "order s' = order s" "\<And>u. reply (tasks s' u) = reply (tasks s u)"
    "\<And>u. fd_accept (data (tasks s' u)) = fd_accept (data (tasks s u))"
  shows "replies_on s' = replies_on s"
  unfolding replies_on_def by (simp add: assms)

lemma delivery_inv_move:
  assumes "delivery_inv start s" "order s' = order s" "\<And>u. reply (tasks s' u) = reply (tasks s u)"
    "\<And>u. fd_accept (data (tasks s' u)) = fd_accept (data (tasks s u))" "delivered (io s') = delivered (io s)"
    "\<And>u. unsent (pc (tasks s' u)) \<Longrightarrow> unsent (pc (tasks s u))"
  shows "delivery_inv start s'"
  using assms(1,3,5,6) replies_cong[OF assms(2-4)] by (auto simp: delivery_inv_def)

lemma delivery_inv_take:
  assumes "delivery_inv start s" "lock_inv s" "fresh (pc (tasks s t))"
  shows "delivery_inv start (take_mutex t p s)"
proof -
  have t: "t \<notin> set (order s)" using assms(2,3) by (simp add: lock_inv_def)
  have "replies_on (take_mutex t p s) fd = replies_on s fd" for fd
    unfolding replies_on_def take_mutex_def using t by (auto intro!: arg_cong[where f = concat] map_cong filter_cong)
  then show ?thesis using assms(1) by (auto simp: delivery_inv_def take_mutex_def)
qed

lemma delivery_inv_send:
  assumes "delivery_inv start s" "lock_inv s" "pc (tasks s t) = Sending" "fd = fd_accept (data (tasks s t))"
    and s': "tasks s' = (tasks s)(t := (tasks s t)\<lparr>pc := Closing, reply := bs\<rparr>)" "order s' = order s"
      "delivered (io s') = (delivered (io s))(fd := delivered (io s) fd @ bs)"
  shows "delivery_inv start s'"
proof -
  obtain os where os: "order s = os @ [t]" "t \<notin> set os"
    using holder_last[OF assms(2), of t] assms(3) by auto
  have r: "reply (tasks s t) = []" using assms(1,3) by (simp add: delivery_inv_def)
  have o: "filter (\<lambda>u. fd_accept (data (tasks s' u)) = g) os = filter (\<lambda>u. fd_accept (data (tasks s u)) = g) os"
    "map (\<lambda>u. reply (tasks s' u)) (filter P os) = map (\<lambda>u. reply (tasks s u)) (filter P os)" for g P
    using os(2) s'(1) by (auto intro!: filter_cong map_cong)
  have "replies_on s' g = replies_on s g @ (if g = fd then bs else [])" for g
    unfolding replies_on_def s'(2) os(1) filter_append map_append o using r s'(1) assms(4) by simp
  then show ?thesis using assms(1) s' by (auto simp: delivery_inv_def)
qed

text \<open>Every step keeps the parts of the invariant.\<close>

lemma step_lock_inv: "server_step env s s' \<Longrightarrow> lock_inv s \<Longrightarrow> lock_inv s'"
proof (induction rule: server_step.induct)
  case (lock_thread s t)
  then show ?case by (simp add: lock_inv_take)
next
  case (lock_timer s t)
  then show ?case by (simp add: lock_inv_take)
next
  case (exit_after_failure s t)
  then show ?case by (simp add: lock_inv_release)
next
  case (unlock_thread s t)
  then show ?case by (simp add: lock_inv_release)
next
  case (unlock_timer s t)
  then show ?case by (simp add: lock_inv_release)
next
  case (begin_thread s t adr b)
  then show ?case by - (rule lock_inv_move[OF begin_thread.prems, of t], auto)
next
  case (recv_packet s t bs b)
  then show ?case by - (rule lock_inv_move[OF recv_packet.prems, of t], auto simp: task_writes_def)
next
  case (recv_last s t bs b s1)
  then show ?case by - (rule lock_inv_move[OF recv_last.prems, of t], auto simp: task_writes_def)
next
  case (recv_fails s t)
  then show ?case by - (rule lock_inv_move[OF recv_fails.prems, of t], auto)
next
  case (sees_exit_signal s t)
  then show ?case by - (rule lock_inv_move[OF sees_exit_signal.prems, of t], auto)
next
  case (enters_recv s t)
  then show ?case by - (rule lock_inv_move[OF enters_recv.prems, of t], auto)
next
  case (send_file s t fd io1)
  then show ?case using sent_reply(4)[OF send_file.hyps(3)] by - (rule lock_inv_move[OF send_file.prems, of t], auto)
next
  case (close_connection s t)
  then show ?case by - (rule lock_inv_move[OF close_connection.prems, of t], auto)
next
  case (finish_thread s t)
  then show ?case by - (rule lock_inv_move[OF finish_thread.prems, of t], auto)
next
  case (write_stamp s t b stamp n b1 s1)
  then show ?case by - (rule lock_inv_move[OF write_stamp.prems, of t], auto simp: task_writes_def)
qed simp

lemma step_output_inv:
  "server_step env s s' \<Longrightarrow> lock_inv s \<Longrightarrow> output_inv (send_ok env) base s \<Longrightarrow> output_inv (send_ok env) base s'"
proof (induction rule: server_step.induct)
  case (lock_thread s t)
  then show ?case by (simp add: output_inv_take)
next
  case (lock_timer s t)
  then show ?case by (simp add: output_inv_take)
next
  case (recv_packet s t bs b)
  then have "\<not> flushed (tasks s t)" by (force simp: output_inv_def task_ok_def)
  then show ?case using recv_packet
    by - (rule output_inv_write[of _ base s t _ _ bs], auto simp: task_writes_def)
next
  case (recv_last s t bs b s1)
  then have "\<not> flushed (tasks s t)" by (force simp: output_inv_def task_ok_def)
  then show ?case using recv_last
    by - (rule output_inv_write[of _ base s t _ _ bs], auto simp: task_writes_def)
next
  case (write_stamp s t b stamp n b1 s1)
  then have "\<not> flushed (tasks s t)" by (force simp: output_inv_def task_ok_def)
  then show ?case using write_stamp
    by - (rule output_inv_write[of _ base s t _ _ "take n b1"], auto simp: task_writes_def)
next
  case (send_file s t fd io1)
  then show ?case using sent_reply[OF send_file.hyps(3)] by - (rule output_inv_send[OF send_file.prems(2,1)], auto)
next
  case (sees_exit_signal s t)
  then have "\<not> flushed (tasks s t)" by (force simp: output_inv_def task_ok_def)
  then show ?case using sees_exit_signal by - (rule output_inv_move[of _ base s t], auto)
next
  case (enters_recv s t)
  then have "\<not> flushed (tasks s t)" by (force simp: output_inv_def task_ok_def)
  then show ?case using enters_recv by - (rule output_inv_move[of _ base s t], auto)
next
  case (recv_fails s t)
  then have "\<not> flushed (tasks s t)" by (force simp: output_inv_def task_ok_def)
  then show ?case using recv_fails by - (rule output_inv_move[of _ base s t], auto)
next
  case (begin_thread s t adr b)
  then have "\<not> flushed (tasks s t)" by (force simp: output_inv_def task_ok_def)
  then show ?case using begin_thread by - (rule output_inv_move[of _ base s t], auto)
next
  case (exit_after_failure s t)
  then show ?case by - (rule output_inv_move[of _ base s t], auto simp: release_mutex_def)
next
  case (close_connection s t)
  then show ?case by - (rule output_inv_move[of _ base s t], auto)
next
  case (unlock_thread s t)
  then show ?case by - (rule output_inv_move[of _ base s t], auto simp: release_mutex_def)
next
  case (finish_thread s t)
  then show ?case by - (rule output_inv_move[of _ base s t], auto)
next
  case (unlock_timer s t)
  then show ?case by - (rule output_inv_move[of _ base s t], auto simp: release_mutex_def)
qed simp

lemma step_delivery_inv: "server_step env s s' \<Longrightarrow> lock_inv s \<Longrightarrow> delivery_inv start s \<Longrightarrow> delivery_inv start s'"
proof (induction rule: server_step.induct)
  case (lock_thread s t)
  then show ?case by (simp add: delivery_inv_take)
next
  case (lock_timer s t)
  then show ?case by (simp add: delivery_inv_take)
next
  case (send_file s t fd io1)
  then show ?case using sent_reply[OF send_file.hyps(3)]
    by - (rule delivery_inv_send[OF send_file.prems(2,1) send_file.hyps(1,2)], auto)
qed (erule delivery_inv_move; auto simp: release_mutex_def task_writes_def split: if_splits)+

lemma run_inv:
  assumes "(server_step env)\<^sup>*\<^sup>* s s'" "lock_inv s" "output_inv (send_ok env) base s"
  shows "lock_inv s' \<and> output_inv (send_ok env) base s'"
  using assms by (induction rule: rtranclp_induct) (auto intro: step_lock_inv step_output_inv)

lemma run_delivery:
  assumes "(server_step env)\<^sup>*\<^sup>* s s'" "lock_inv s" "delivery_inv start s"
  shows "lock_inv s' \<and> delivery_inv start s'"
  using assms by (induction rule: rtranclp_induct) (auto intro: step_lock_inv step_delivery_inv)

section \<open>A thread that runs alone\<close>

lemma recv_into_take: "recv_into b0 bs = Inr b \<Longrightarrow> take (length bs) b = bs"
  by (auto simp: recv_into_def split: if_splits)

lemma single_step: "server_step env s s' \<Longrightarrow> (server_step env)\<^sup>*\<^sup>* s s'"
  by (rule r_into_rtranclp)

lemma first_step: "server_step env s s1 \<Longrightarrow> (server_step env)\<^sup>*\<^sup>* s1 s' \<Longrightarrow> (server_step env)\<^sup>*\<^sup>* s s'"
  by (rule converse_rtranclp_into_rtranclp)

text \<open>Where a task with data \<open>td\<close> stands after the receive loop.\<close>

fun after_loop :: "loop_end \<Rightarrow> thread_data \<Rightarrow> task \<Rightarrow> bool" where
  "after_loop Loop_waits td k \<longleftrightarrow> pc k = Receiving \<and> data k = td"
| "after_loop Loop_failed td k \<longleftrightarrow> pc k = Failed \<and> data k = td\<lparr>thread_exit := True\<rparr>"
| "after_loop Loop_left td k \<longleftrightarrow> pc k = Sending \<and> data k = td"

text \<open>A signal and the loop condition after it; a loop condition without a signal.\<close>

lemma signal_run:
  assumes "pc (tasks s t) = In_loop"
  shows "\<exists>s'. (server_step env)\<^sup>*\<^sup>* s s' \<and> io s' = io s \<and> after_loop Loop_left (data (tasks s t)) (tasks s' t)"
proof -
  obtain g where g: "sigint_handler SIGINT (signals s) = Handler_returns g" "EXIT_SIGNAL g" using interrupt_returns by blast
  let ?s1 = "s\<lparr>signals := g\<rparr>"
  have "server_step env s ?s1" using signal_arrives[OF g(1)] .
  moreover have "server_step env ?s1 (upd_task t (\<lambda>k. k\<lparr>pc := Sending\<rparr>) ?s1)"
    by (rule sees_exit_signal) (use assms g(2) in simp_all)
  ultimately have "(server_step env)\<^sup>*\<^sup>* s (upd_task t (\<lambda>k. k\<lparr>pc := Sending\<rparr>) ?s1)" by (meson first_step single_step)
  then show ?thesis by (rule exI[of _ "upd_task t (\<lambda>k. k\<lparr>pc := Sending\<rparr>) ?s1", OF conjI]) simp
qed

lemma recv_loop_run:
  "recv_loop env rounds b io0 = Inr (e, io') \<Longrightarrow> pc (tasks s t) = In_loop \<Longrightarrow> buf (tasks s t) = b \<Longrightarrow> io s = io0 \<Longrightarrow>
   \<not> EXIT_SIGNAL (signals s) \<Longrightarrow>
   \<exists>s'. (server_step env)\<^sup>*\<^sup>* s s' \<and> io s' = io' \<and>
     after_loop e (data (tasks s t)) (tasks s' t)"
proof (induction env rounds b io0 arbitrary: s rule: recv_loop.induct)
  case (1 env b io0)
  then show ?case using single_step[OF enters_recv[OF "1.prems"(2,5)]] by fastforce
next
  case (2 env x ans rounds b io0)
  let ?r = "upd_task t (\<lambda>k. k\<lparr>pc := Receiving\<rparr>) s"
  have enter: "server_step env s ?r" by (rule enters_recv[OF "2.prems"(2,5)])
  have pc0: "pc (tasks ?r t) = Receiving" by simp
  consider "x" | "\<not> x" "ans = Recv_error" | bs b1 found where "\<not> x" "ans = Received bs" "recv_into b bs = Inr b1"
    "c_strchr b1 newline = Inr found"
    using "2.prems"(1) by (cases ans) (auto simp: bindE_eq_Inr Let_def split: if_splits)
  then show ?case
  proof cases
    case 1
    then show ?thesis using "2.prems"(1,4) signal_run[OF "2.prems"(2)] by auto
  next
    case 2
    then show ?thesis using "2.prems" first_step[OF enter single_step[OF recv_fails[OF pc0]]] by fastforce
  next
    case 3
    have tk: "take (length bs) b1 = bs" using recv_into_take[OF 3(3)] .
    have rb: "recv_into (buf (tasks ?r t)) bs = Inr b1" using 3(3) "2.prems"(3) by simp
    show ?thesis
    proof (cases found)
      case True
      then show ?thesis
        using 3 tk "2.prems" first_step[OF enter single_step[OF recv_last[OF pc0 rb _ refl]]] by (fastforce simp: task_writes_def)
    next
      case False
      let ?s = "upd_task t (\<lambda>k. k\<lparr>pc := In_loop, buf := b1\<rparr>) (task_writes env t bs ?r)"
      have st: "server_step env ?r ?s" using recv_packet[OF pc0 rb] 3(4) False by simp
      have l: "recv_loop env rounds b1 (fwrite env bs io0) = Inr (e, io')"
        using 3 tk False "2.prems"(1) by simp
      have d: "data (tasks ?s t) = data (tasks s t)" by (simp add: task_writes_def)
      have "\<exists>s'. (server_step env)\<^sup>*\<^sup>* ?s s' \<and> io s' = io' \<and> after_loop e (data (tasks ?s t)) (tasks s' t)"
        using 3 tk False "2.prems" l by (intro "2.IH"[OF _ _ 3(3) refl 3(4)]) (auto simp: task_writes_def)
      then show ?thesis using first_step[OF enter first_step[OF st]] unfolding d by blast
    qed
  qed
qed

lemma send_and_close_run:
  assumes "pc (tasks s t) = Sending" "send_file_to_client env (fd_accept (data (tasks s t))) (io s) = Inr io3"
  shows "\<exists>s'. (server_step env)\<^sup>*\<^sup>* s s' \<and> pc (tasks s' t) = Finished \<and>
    data (tasks s' t) = (data (tasks s t))\<lparr>thread_exit := True\<rparr> \<and>
    io s' = (log_message Sent_back_message io3)\<lparr>fd_open := (fd_open io3)(fd_accept (data (tasks s t)) := False), locked := False\<rparr>"
proof -
  let ?fd = "fd_accept (data (tasks s t))"
  let ?s1 = "upd_task t (\<lambda>k. k\<lparr>pc := Closing, reply := drop (length (delivered (io s) ?fd)) (delivered io3 ?fd)\<rparr>)
    (s\<lparr>io := log_message Sent_back_message io3\<rparr>)"
  let ?s2 = "upd_task t (\<lambda>k. k\<lparr>pc := Unlocking\<rparr>)
    (?s1\<lparr>io := (io ?s1)\<lparr>fd_open := (fd_open (io ?s1))(fd_accept (data (tasks ?s1 t)) := False)\<rparr>\<rparr>)"
  let ?s3 = "release_mutex t Exiting ?s2"
  let ?s4 = "upd_task t (\<lambda>k. set_thread_exit (k\<lparr>pc := Finished\<rparr>)) ?s3"
  have "server_step env s ?s1" using send_file[OF assms(1) refl assms(2)] .
  moreover have "server_step env ?s1 ?s2" by (rule close_connection) simp
  moreover have "server_step env ?s2 ?s3" by (rule unlock_thread) simp
  moreover have "server_step env ?s3 ?s4" by (rule finish_thread) (simp add: release_mutex_def)
  ultimately have "(server_step env)\<^sup>*\<^sup>* s ?s4" by (meson first_step single_step)
  then show ?thesis by (rule exI[of _ ?s4, OF conjI]) (simp add: release_mutex_def)
qed

lemma begin_and_lock_run:
  assumes "pc (tasks s t) = Started" "c_str (client_address (data (tasks s t))) = Inr adr"
    "arr_set (buf (tasks s t)) BUFLEN NUL = Inr b" "\<not> locked (io s)"
  shows "\<exists>s'. (server_step env)\<^sup>*\<^sup>* s s' \<and> pc (tasks s' t) = In_loop \<and> buf (tasks s' t) = b \<and>
    data (tasks s' t) = data (tasks s t) \<and> signals s' = signals s \<and>
    io s' = (log_message (Accepted_connection adr) (io s))\<lparr>locked := True\<rparr>"
proof -
  let ?s1 = "upd_task t (\<lambda>k. k\<lparr>pc := Before_lock, buf := b\<rparr>)
    (s\<lparr>io := log_message (Accepted_connection adr) (io s)\<rparr>)"
  have "server_step env s ?s1" using begin_thread[OF assms(1-3)] .
  moreover have "server_step env ?s1 (take_mutex t In_loop ?s1)" by (rule lock_thread) (simp_all add: assms(4))
  ultimately have "(server_step env)\<^sup>*\<^sup>* s (take_mutex t In_loop ?s1)" by (meson first_step single_step)
  then show ?thesis by (rule exI[of _ "take_mutex t In_loop ?s1", OF conjI]) (simp add: take_mutex_def)
qed

lemma timer_run:
  assumes "pc (tasks s t) = Timer_ready" "\<not> locked (io s)" "BUFLEN < length (buf (tasks s t))" "length stamp < BUFLEN"
  shows "\<exists>s'. (server_step env)\<^sup>*\<^sup>* s s' \<and> order s' = order s @ [t] \<and> pc (tasks s' t) = Finished \<and>
    written (tasks s' t) = written (tasks s t) @ stamp"
proof -
  let ?s1 = "take_mutex t Timer_locked s" and ?b = "(buf (tasks s t))[BUFLEN := NUL]"
  let ?b1 = "stamp @ NUL # drop (Suc (length stamp)) ?b"
  let ?w = "task_writes env t (take (length stamp) ?b1) ?s1"
  let ?s2 = "upd_task t (\<lambda>k. k\<lparr>pc := Timer_written\<rparr>) (?w\<lparr>io := log_message Timer_message (io ?w)\<rparr>)"
  have "server_step env s ?s1" using lock_timer[OF assms(1,2)] .
  moreover have "server_step env ?s1 ?s2"
  proof (rule write_stamp)
    show "arr_set (buf (tasks ?s1 t)) BUFLEN NUL = Inr ?b" using assms(3) by (simp add: take_mutex_def)
    show "strftime ?b BUFLEN stamp = Inr (length stamp, ?b1)" using assms(3,4) by (simp add: strftime_def)
  qed (simp_all add: take_mutex_def)
  moreover have "server_step env ?s2 (release_mutex t Finished ?s2)" by (rule unlock_timer) simp
  ultimately have "(server_step env)\<^sup>*\<^sup>* s (release_mutex t Finished ?s2)" by (meson first_step single_step)
  then show ?thesis
    by (rule exI[of _ "release_mutex t Finished ?s2", OF conjI]) (simp add: release_mutex_def take_mutex_def task_writes_def)
qed

section \<open>Properties\<close>

text \<open>Task \<open>0\<close> is a client, all others are timer threads that were not scheduled yet.\<close>

definition sample_state :: server_state where
  "sample_state = \<lparr>io = sample_io, signals = \<lparr>EXIT_SIGNAL = False, syslog_lines = []\<rparr>, tasks = (\<lambda>t. \<lparr>pc = (if t = 0 then Started else Timer_ready), buf = replicate 130 1,
     data = sample_td, flushed = False, written = [], reply = []\<rparr>), holder = None, order = []\<rparr>"

text \<open>
  (C3) Any number of client and timer threads, interleaved in any way and with signals at any
  time: at most one thread is between lock and unlock; the file holds, after what it held
  before, the bytes of each thread as one contiguous block, in the order in which the threads
  got the mutex; each connection received, after what it had received before, the replies of the
  threads that have its descriptor, in that order too; and the reply of a finished thread whose
  request ended with a newline is the file up to and including its own block, less the bytes
  whose \<open>send\<close> was refused.
\<close>

theorem output_not_interleaved:
  assumes "initial s0" "(server_step env)\<^sup>*\<^sup>* s0 s"
  shows "contents (fp (io s)) = contents (fp (io s0)) @ concat (map (\<lambda>t. written (tasks s t)) (order s)) \<and>
    distinct (order s) \<and>
    (\<forall>t u. critical (pc (tasks s t)) \<and> critical (pc (tasks s u)) \<longrightarrow> t = u) \<and>
    (\<forall>fd. delivered (io s) fd = delivered (io s0) fd @
       concat (map (\<lambda>t. reply (tasks s t)) (filter (\<lambda>t. fd_accept (data (tasks s t)) = fd) (order s)))) \<and>
    (\<forall>t. flushed (tasks s t) \<and> pc (tasks s t) = Finished \<longrightarrow>
       t \<in> set (order s) \<and> reply (tasks s t) = send_bytes (send_ok env) 0 (contents (fp (io s0)) @ written_until s t))"
proof -
  have "lock_inv s" "output_inv (send_ok env) (contents (fp (io s0))) s" "delivery_inv (delivered (io s0)) s"
    using run_inv[OF assms(2)] run_delivery[OF assms(2)] initial_inv[OF assms(1)] initial_delivery[OF assms(1)] by blast+
  then show ?thesis by (auto simp: output_inv_def task_ok_def lock_inv_def delivery_inv_def replies_on_def)
qed

theorem output_not_interleaved_witness:
  "\<exists>s. (server_step sample_env)\<^sup>*\<^sup>* sample_state s \<and> contents (fp (io s)) = [104, 10, 116, 10] @ [98, 10]"
proof -
  obtain s where s: "(server_step sample_env)\<^sup>*\<^sup>* sample_state s" "order s = [1]" "written (tasks s 1) = [98, 10]"
    using timer_run[of sample_state 1 "[98, 10]" sample_env] by (auto simp: sample_state_def sample_io_def BUFLEN_def)
  have "initial sample_state" by (simp add: initial_def sample_state_def sample_io_def)
  from output_not_interleaved[OF this s(1)] s show ?thesis
    by (auto simp: sample_state_def sample_io_def contents_def)
qed

text \<open>
  (C27) The steps are those of the sequential handler: if \<open>thread_socket_receive\<close> ends from some state with
  some input, then the thread, scheduled alone from that state, can run to its end and leaves
  the same shared state and the same thread data. No signal has arrived before; one arrives during the
  run if the input says that the loop condition sees it.
\<close>

theorem handler_runs_as_steps:
  assumes "thread_socket_receive env (buf (tasks s t)) rounds (data (tasks s t)) (io s) = Inr (Thread_exited, td', io')"
    and "pc (tasks s t) = Started" "\<not> EXIT_SIGNAL (signals s)"
  shows "\<exists>s'. (server_step env)\<^sup>*\<^sup>* s s' \<and> pc (tasks s' t) = Finished \<and> data (tasks s' t) = td' \<and> io s' = io'"
proof -
  let ?td = "data (tasks s t)"
  let ?io = "\<lambda>adr. (log_message (Accepted_connection adr) (io s))\<lparr>locked := True\<rparr>"
  obtain adr b e io2 where adr: "c_str (client_address ?td) = Inr adr" and b: "arr_set (buf (tasks s t)) BUFLEN NUL = Inr b" and ul: "\<not> locked (io s)"
    and l: "recv_loop env rounds b (?io adr) = Inr (e, io2)"
    using assms(1) by (auto simp: thread_socket_receive_def bindE_eq_Inr Let_def split: if_splits)
  obtain s1 where s1: "(server_step env)\<^sup>*\<^sup>* s s1" "pc (tasks s1 t) = In_loop" "buf (tasks s1 t) = b"
    "data (tasks s1 t) = ?td" "io s1 = ?io adr" "\<not> EXIT_SIGNAL (signals s1)"
    using begin_and_lock_run[OF assms(2) adr b ul] assms(3) by metis
  obtain s2 where s2: "(server_step env)\<^sup>*\<^sup>* s1 s2" "io s2 = io2" "after_loop e ?td (tasks s2 t)"
    using recv_loop_run[OF l s1(2,3,5,6)] s1(4) by auto
  have r: "(server_step env)\<^sup>*\<^sup>* s s2" using s1(1) s2(1) by (rule rtranclp_trans)
  show ?thesis
  proof (cases e)
    case Loop_waits
    then show ?thesis using assms(1) adr b ul l by (auto simp: thread_socket_receive_def Let_def)
  next
    case Loop_failed
    then have f: "td' = ?td\<lparr>thread_exit := True\<rparr>" "io' = io2\<lparr>locked := False\<rparr>"
      using assms(1) adr b ul l by (auto simp: thread_socket_receive_def Let_def)
    have "server_step env s2 (release_mutex t Finished s2)"
      using s2(3) Loop_failed by (intro exit_after_failure) simp
    then have "(server_step env)\<^sup>*\<^sup>* s (release_mutex t Finished s2)" using r by (meson rtranclp.rtrancl_into_rtrancl)
    then show ?thesis using f s2 Loop_failed by (intro exI[of _ "release_mutex t Finished s2"]) (simp add: release_mutex_def)
  next
    case Loop_left
    then obtain io3 where io3: "send_file_to_client env (fd_accept ?td) io2 = Inr io3"
      and f: "td' = ?td\<lparr>thread_exit := True\<rparr>"
        "io' = (log_message Sent_back_message io3)\<lparr>fd_open := (fd_open io3)(fd_accept ?td := False), locked := False\<rparr>"
      using assms(1) adr b ul l by (auto simp: thread_socket_receive_def bindE_eq_Inr Let_def)
    have a: "pc (tasks s2 t) = Sending" "data (tasks s2 t) = ?td" using s2(3) Loop_left by simp_all
    have "send_file_to_client env (fd_accept (data (tasks s2 t))) (io s2) = Inr io3" using io3 a s2(2) by simp
    from send_and_close_run[OF a(1) this] show ?thesis using r f a(2) by (metis rtranclp_trans)
  qed
qed

theorem handler_runs_as_steps_witness:
  "\<exists>s'. (server_step sample_env)\<^sup>*\<^sup>* sample_state s' \<and> pc (tasks s' 0) = Finished \<and> \<not> locked (io s')"
proof -
  obtain td' io' where "thread_socket_receive sample_env (buf (tasks sample_state 0)) [(False, Recv_error)]
      (data (tasks sample_state 0)) (io sample_state) = Inr (Thread_exited, td', io')" "\<not> locked io'"
    by (auto simp: thread_socket_receive_def BUFLEN_def sample_state_def sample_io_def sample_td_def log_message_def)
  then show ?thesis using handler_runs_as_steps[of sample_env sample_state 0 "[(False, Recv_error)]" td' io']
    by (auto simp: sample_state_def)
qed

end
