(* ===== verification/Whole_Server.thy ===== *)
theory Whole_Server
  imports Server_Main Server_Interleaving
begin

text \<open>
  The main thread of the server together with the client and timer threads it shares the process
  with. The threads take the steps of \<open>Server_Interleaving\<close>, and a signal can arrive at any moment.
  The main thread, from its accept loop on, reads \<open>EXIT_SIGNAL\<close>, waits in \<open>accept\<close>, registers a client
  (\<open>accept_client\<close>), walks the list of threads (\<open>check_thread_exit\<close>) and at the end empties it
  (\<open>release_all_thread\<close>), one node per step and with the queue macros and the list of
  \<open>Thread_List\<close>. A join waits until the joined thread has finished. The task with the number of a
  thread is there from the beginning and runs once the thread is created; the identifier of a joined
  thread may be given to a later one. Undefined behaviour ends the run of the main thread.
\<close>

section \<open>Steps of the process\<close>

datatype main_pc =
    Loop_test
  | Accepting
  | Checking ptr
  | Releasing
  | Main_ended main_stop

record process =
  server :: server_state
  list_mem :: thread_mem
  main_at :: main_pc
  main_ret :: int
  actions :: "action list"
  clients :: "nat list"

text \<open>The thread has ended, so that a join of it returns.\<close>

definition finished :: "process \<Rightarrow> nat \<Rightarrow> bool" where
  "finished w t \<longleftrightarrow> pc (tasks (server w) t) = Finished"

inductive process_step :: "server_env \<Rightarrow> libc_env \<Rightarrow> process \<Rightarrow> process \<Rightarrow> bool" for sys env where
  run_thread:
    "server_step env (server w) s' \<Longrightarrow>
     \<forall>t. pc (tasks (server w) t) = Started \<and> t \<notin> set (clients w) \<longrightarrow> tasks s' t = tasks (server w) t \<Longrightarrow>
     process_step sys env w (w\<lparr>server := s'\<rparr>)"
| enters_accept:
    "main_at w = Loop_test \<Longrightarrow> \<not> EXIT_SIGNAL (signals (server w)) \<Longrightarrow> process_step sys env w (w\<lparr>main_at := Accepting\<rparr>)"
| start_client:
    "main_at w = Accepting \<Longrightarrow> accept_client sys r (main_ret w) (list_mem w) (actions w) = Inr (ret, m, tr) \<Longrightarrow>
     t = created (list_mem w) \<Longrightarrow> pc (tasks (server w) t) = Started \<Longrightarrow>
     last tr = Starts_thread (new_thread r) (data (tasks (server w) t)) \<Longrightarrow>
     \<forall>a nd e. node_block r = Some (a, nd, e) \<longrightarrow> node_at (list_mem w) a = None \<Longrightarrow>
     process_step sys env w (w\<lparr>list_mem := m, main_ret := ret, actions := tr, clients := clients w @ [t],
       main_at := Checking (TAILQ_FIRST (links_mem m) 0)\<rparr>)"
| start_fails:
    "main_at w = Accepting \<Longrightarrow> accept_client sys r (main_ret w) (list_mem w) (actions w) = Inl (stop, tr) \<Longrightarrow>
     process_step sys env w (w\<lparr>actions := tr, main_at := Main_ended stop\<rparr>)"
| check_joins:
    "main_at w = Checking (Some a) \<Longrightarrow> get_node (list_mem w) a = Inr nd \<Longrightarrow> node_thread_exit nd \<Longrightarrow>
     pthread_join (finished w) (node_thread nd) (list_mem w) = Inr m \<Longrightarrow>
     TAILQ_NEXT (links_mem m) (Some a) = Inr nx \<Longrightarrow>
     process_step sys env w (w\<lparr>list_mem := m, main_at := Checking nx\<rparr>)"
| check_skips:
    "main_at w = Checking (Some a) \<Longrightarrow> get_node (list_mem w) a = Inr nd \<Longrightarrow> \<not> node_thread_exit nd \<Longrightarrow>
     TAILQ_NEXT (links_mem (list_mem w)) (Some a) = Inr nx \<Longrightarrow>
     process_step sys env w (w\<lparr>main_at := Checking nx\<rparr>)"
| check_fails:
    "main_at w = Checking (Some a) \<Longrightarrow> get_node (list_mem w) a = Inr nd \<Longrightarrow> node_thread_exit nd \<Longrightarrow>
     pthread_join (finished w) (node_thread nd) (list_mem w) = Inl Invalid_join \<Longrightarrow>
     process_step sys env w (w\<lparr>main_at := Main_ended (Undefined Invalid_join)\<rparr>)"
| check_ends:
    "main_at w = Checking None \<Longrightarrow> process_step sys env w (w\<lparr>main_at := Loop_test\<rparr>)"
| leave_loop:
    "main_at w = Loop_test \<Longrightarrow> EXIT_SIGNAL (signals (server w)) \<Longrightarrow> process_step sys env w (w\<lparr>main_at := Releasing\<rparr>)"
| release_joins:
    "main_at w = Releasing \<Longrightarrow> TAILQ_FIRST (links_mem (list_mem w)) 0 = Some a \<Longrightarrow> get_node (list_mem w) a = Inr nd \<Longrightarrow>
     pthread_join (finished w) (node_thread nd) (list_mem w) = Inr m \<Longrightarrow>
     TAILQ_REMOVE (links_mem m) 0 a = Inr l \<Longrightarrow> free_node a (m\<lparr>links_mem := l\<rparr>) = Inr m' \<Longrightarrow>
     process_step sys env w (w\<lparr>list_mem := m'\<rparr>)"
| release_fails:
    "main_at w = Releasing \<Longrightarrow> TAILQ_FIRST (links_mem (list_mem w)) 0 = Some a \<Longrightarrow> get_node (list_mem w) a = Inr nd \<Longrightarrow>
     pthread_join (finished w) (node_thread nd) (list_mem w) = Inl Invalid_join \<Longrightarrow>
     process_step sys env w (w\<lparr>main_at := Main_ended (Undefined Invalid_join)\<rparr>)"
| release_ends:
    "main_at w = Releasing \<Longrightarrow> TAILQ_EMPTY (links_mem (list_mem w)) 0 \<Longrightarrow>
     stop_server (finished w) 0 sys (list_mem w) (actions w) = Inr tr \<Longrightarrow>
     process_step sys env w (w\<lparr>actions := tr, main_at := Main_ended (Exits 0)\<rparr>)"

text \<open>The process when the setup is done and the accept loop is reached: an empty list and no client.\<close>

definition process_start :: "server_env \<Rightarrow> process \<Rightarrow> bool" where
  "process_start sys w \<longleftrightarrow> initial (server w) \<and> server_setup sys = Inr (main_ret w, actions w) \<and>
     thread_list (list_mem w) 0 [] \<and> joinable (list_mem w) = Map.empty \<and> created (list_mem w) = 0 \<and>
     joined (list_mem w) = [] \<and> main_at w = Loop_test \<and> clients w = []"

section \<open>Invariant\<close>

text \<open>
  Where the main thread can be, by the clients started so far. Either all of them have finished and
  are joined, so that no identifier names a thread, or the newest of them is the only one that is
  not joined, and the last node of the list has its identifier. A walk over two nodes ends at a
  node whose identifier names no thread.
\<close>

definition nodes_exit :: "thread_mem \<Rightarrow> addr list \<Rightarrow> bool" where
  "nodes_exit m xs \<longleftrightarrow> (\<forall>a\<in>set xs. node_thread_exit (the (node_at m a)))"

definition settled :: "(nat \<Rightarrow> bool) \<Rightarrow> thread_mem \<Rightarrow> bool" where
  "settled fin m \<longleftrightarrow> joinable m = Map.empty \<and> joined m = [0..<created m] \<and> (\<forall>k<created m. fin k)"

definition one_open :: "(nat \<Rightarrow> bool) \<Rightarrow> thread_mem \<Rightarrow> pthread \<Rightarrow> bool" where
  "one_open fin m t \<longleftrightarrow> (\<exists>n. created m = Suc n \<and> joinable m = [t \<mapsto> n] \<and> joined m = [0..<n] \<and> (\<forall>k<n. fin k))"

fun place_ok :: "(nat \<Rightarrow> bool) \<Rightarrow> thread_mem \<Rightarrow> addr list \<Rightarrow> main_pc \<Rightarrow> bool" where
  "place_ok fin m xs (Checking p) \<longleftrightarrow> xs \<noteq> [] \<and> length xs \<le> 2 \<and>
     (p = ptr_to xs \<and> one_open fin m (last (threads_of m xs)) \<or> p = ptr_to (tl xs) \<and> settled fin m)"
| "place_ok fin m xs (Main_ended stop) \<longleftrightarrow>
     (if stop = Undefined Invalid_join
      then xs \<noteq> [] \<and> length xs \<le> 2 \<and> (one_open fin m (last (threads_of m xs)) \<or> settled fin m)
      else length xs \<le> 1 \<and> settled fin m \<and> (stop = Exits 0 \<longrightarrow> xs = []))"
| "place_ok fin m xs p \<longleftrightarrow> length xs \<le> 1 \<and> settled fin m"

definition list_inv :: "process \<Rightarrow> addr list \<Rightarrow> bool" where
  "list_inv w xs \<longleftrightarrow> thread_list (list_mem w) 0 xs \<and> nodes_exit (list_mem w) xs \<and>
     created (list_mem w) = length xs \<and> clients w = [0..<length xs]"

definition main_inv :: "process \<Rightarrow> bool" where
  "main_inv w \<longleftrightarrow> (\<exists>xs. list_inv w xs \<and> place_ok (finished w) (list_mem w) xs (main_at w))"

lemma settled_mono: "(\<And>t. fin t \<Longrightarrow> fin' t) \<Longrightarrow> settled fin m \<Longrightarrow> settled fin' m"
  by (auto simp: settled_def)

lemma one_open_mono: "(\<And>t. fin t \<Longrightarrow> fin' t) \<Longrightarrow> one_open fin m t \<Longrightarrow> one_open fin' m t"
  by (auto simp: one_open_def)

lemma place_mono: "(\<And>t. fin t \<Longrightarrow> fin' t) \<Longrightarrow> place_ok fin m xs p \<Longrightarrow> place_ok fin' m xs p"
  using settled_mono[of fin fin' m] one_open_mono[of fin fin' m] by (cases p) (auto split: if_splits)

lemma finished_stable: "server_step env s s' \<Longrightarrow> pc (tasks s t) = Finished \<Longrightarrow> tasks s' t = tasks s t"
  by (induction rule: server_step.induct) (auto simp: take_mutex_def release_mutex_def task_writes_def)

lemma finished_run: "process_step sys env w w' \<Longrightarrow> finished w t \<Longrightarrow> finished w' t"
  by (cases rule: process_step.cases) (auto simp: finished_def dest: finished_stable)

lemma finished_updates [simp]:
  "finished (w\<lparr>main_at := p\<rparr>) = finished w" "finished (w\<lparr>list_mem := m\<rparr>) = finished w"
  "finished (w\<lparr>clients := ts\<rparr>) = finished w" "finished (w\<lparr>actions := tr\<rparr>) = finished w"
  "finished (w\<lparr>main_ret := r\<rparr>) = finished w"
  by (auto simp: finished_def)

lemma list_inv_updates [simp]:
  "list_inv (w\<lparr>main_at := p\<rparr>) xs = list_inv w xs" "list_inv (w\<lparr>server := s\<rparr>) xs = list_inv w xs"
  "list_inv (w\<lparr>actions := tr\<rparr>) xs = list_inv w xs" "list_inv (w\<lparr>main_ret := r\<rparr>) xs = list_inv w xs"
  by (simp_all add: list_inv_def)

lemma settled_joins: "settled fin m \<Longrightarrow> pthread_join ended t m = Inl Invalid_join"
  by (simp add: settled_def)

text \<open>The only join that returns is the one of the open client.\<close>

lemma one_open_joins:
  assumes "one_open fin m t" "pthread_join fin u m = Inr m'"
  shows "u = t" "settled fin m'" "\<exists>k. m' = after_join u k m"
proof -
  obtain n where n: "created m = Suc n" "joinable m = [t \<mapsto> n]" "joined m = [0..<n]" "\<forall>k<n. fin k"
    using assms(1) by (auto simp: one_open_def)
  obtain k where k: "joinable m u = Some k" "fin k" "m' = after_join u k m" using assms(2) by (auto simp: pthread_join_cases)
  then show "u = t" "\<exists>k. m' = after_join u k m" using n(2) by (auto split: if_splits)
  then show "settled fin m'" using n k by (auto simp: settled_def less_Suc_eq fun_eq_iff)
qed

text \<open>A node of the list is marked as terminated.\<close>

lemma list_inv_node:
  assumes "list_inv w (a # as)" "get_node (list_mem w) a = Inr nd"
  shows "node_thread_exit nd" "threads_of (list_mem w) (a # as) = node_thread nd # threads_of (list_mem w) as"
  using assms by (auto simp: list_inv_def nodes_exit_def get_node_def threads_of_def split: option.splits)

lemma list_inv_first: "list_inv w xs \<Longrightarrow> TAILQ_FIRST (links_mem (list_mem w)) 0 = ptr_to xs"
  by (simp add: list_inv_def thread_list_def first_ptr)

lemma list_inv_insert:
  assumes "list_inv w xs" "node_at (list_mem w) a = None"
    and ins: "insert_node (Some (a, nd, e)) 0 t (pthread_create t (list_mem w)) = Inr m"
  shows "list_inv (w\<lparr>list_mem := m, clients := clients w @ [created (list_mem w)]\<rparr>) (xs @ [a])"
    "joinable m = (joinable (list_mem w))(t \<mapsto> created (list_mem w))" "created m = Suc (created (list_mem w))"
    "joined m = joined (list_mem w)" "last (threads_of m (xs @ [a])) = t"
proof -
  have xs: "thread_list (list_mem w) 0 xs" "nodes_exit (list_mem w) xs" "created (list_mem w) = length xs" "clients w = [0..<length xs]"
    using assms(1) by (simp_all add: list_inv_def)
  have a: "a \<notin> set xs" using xs(1) assms(2) by (auto simp: thread_list_def)
  have m: "thread_list m 0 (xs @ [a])" "node_at m = (node_at (list_mem w))(a \<mapsto> nd\<lparr>node_thread := t, node_thread_exit := True\<rparr>)"
    using insert_node_ok[of "pthread_create t (list_mem w)" 0 xs a nd e t] xs(1) a ins by auto
  show j: "joinable m = (joinable (list_mem w))(t \<mapsto> created (list_mem w))" "created m = Suc (created (list_mem w))"
    "joined m = joined (list_mem w)"
    using insert_node_ok[of "pthread_create t (list_mem w)" 0 xs a nd e t] xs(1) a ins by auto
  show "last (threads_of m (xs @ [a])) = t" using m(2) by (simp add: threads_of_def)
  have "nodes_exit m (xs @ [a])" using m(2) xs(2) a by (auto simp: nodes_exit_def)
  then show "list_inv (w\<lparr>list_mem := m, clients := clients w @ [created (list_mem w)]\<rparr>) (xs @ [a])"
    using m(1) xs(3,4) j(2) by (simp add: list_inv_def)
qed

lemma start_inv: "process_start sys w \<Longrightarrow> main_inv w"
  unfolding main_inv_def process_start_def
  by (intro exI[of _ "[]"]) (simp add: list_inv_def nodes_exit_def settled_def)

lemma insert_inv:
  assumes i: "main_inv w" and "main_at w = Accepting" "node_at (list_mem w) a = None"
    and ins: "insert_node (Some (a, nd, e)) 0 t (pthread_create t (list_mem w)) = Inr m"
  shows "main_inv (w\<lparr>list_mem := m, main_ret := ret, actions := tr, clients := clients w @ [created (list_mem w)],
    main_at := Checking (TAILQ_FIRST (links_mem m) 0)\<rparr>)"
proof -
  obtain xs where xs: "list_inv w xs" "length xs \<le> 1" "settled (finished w) (list_mem w)"
    using i assms(2) by (auto simp: main_inv_def)
  note w = list_inv_insert[OF xs(1) assms(3,4)]
  have "one_open (finished w) m (last (threads_of m (xs @ [a])))" using xs(3) w(2-5) by (auto simp: one_open_def settled_def)
  then show ?thesis unfolding main_inv_def using w(1) list_inv_first[OF w(1)] xs(2)
    by (intro exI[of _ "xs @ [a]"]) (simp add: list_inv_def)
qed

lemma join_inv:
  assumes i: "main_inv w" and at: "main_at w = Checking (Some a)" and nd: "get_node (list_mem w) a = Inr nd"
    and j: "pthread_join (finished w) (node_thread nd) (list_mem w) = Inr m"
    and nx: "TAILQ_NEXT (links_mem m) (Some a) = Inr nx"
  shows "main_inv (w\<lparr>list_mem := m, main_at := Checking nx\<rparr>)" "joinable (list_mem w) \<noteq> Map.empty" "joinable m = Map.empty"
proof -
  obtain xs where xs: "list_inv w xs" "xs \<noteq> []" "length xs \<le> 2" and o: "one_open (finished w) (list_mem w) (last (threads_of (list_mem w) xs))"
    and p: "Some a = ptr_to xs"
    using i at j settled_joins[of "finished w" "list_mem w"] by (auto simp: main_inv_def)
  obtain as where as: "xs = a # as" using p by (cases xs) auto
  obtain k where m: "m = after_join (node_thread nd) k (list_mem w)" "settled (finished w) m"
    using one_open_joins[OF o j] by blast
  then show "joinable m = Map.empty" "joinable (list_mem w) \<noteq> Map.empty" using j by (auto simp: settled_def pthread_join_cases)
  have "nx = ptr_to (tl xs)" using next_ptr[of "links_mem m" 0 "[]" a as] xs(1) as m(1) nx
    by (simp add: list_inv_def thread_list_def)
  then show "main_inv (w\<lparr>list_mem := m, main_at := Checking nx\<rparr>)" unfolding main_inv_def using xs m
    by (intro exI[of _ xs]) (simp add: list_inv_def nodes_exit_def)
qed

text \<open>The node at which the walk stands.\<close>

lemma checked_node:
  assumes "main_inv w" "main_at w = Checking (Some a)" "get_node (list_mem w) a = Inr nd"
  shows "node_thread_exit nd"
proof -
  obtain xs where xs: "list_inv w xs" "Some a = ptr_to xs \<or> Some a = ptr_to (tl xs)" using assms(1,2) by (auto simp: main_inv_def)
  then have "a \<in> set xs" by (cases xs; cases "tl xs") auto
  then show ?thesis using xs(1) assms(3) by (auto simp: list_inv_def nodes_exit_def get_node_def split: option.splits)
qed

lemma step_main_inv: "process_step sys env w w' \<Longrightarrow> main_inv w \<Longrightarrow> main_inv w'"
proof (induction rule: process_step.induct)
  case (run_thread w s')
  then have "finished w t \<Longrightarrow> finished (w\<lparr>server := s'\<rparr>) t" for t
    by (auto simp: finished_def dest: finished_stable)
  then show ?case using run_thread.prems place_mono[of "finished w" "finished (w\<lparr>server := s'\<rparr>)"]
    by (fastforce simp: main_inv_def)
next
  case (start_client w r ret m tr t)
  obtain a nd e where "node_block r = Some (a, nd, e)"
    "insert_node (Some (a, nd, e)) 0 (new_thread r) (pthread_create (new_thread r) (list_mem w)) = Inr m"
    using accept_client_Inr[OF start_client.hyps(2)] by metis
  then show ?case using insert_inv[of w a nd e "new_thread r" m] start_client by blast
next
  case (start_fails w r stop tr)
  then show ?case using accept_client_Inl[OF start_fails.hyps(2)] by (auto simp: main_inv_def)
next
  case (check_joins w a nd m nx)
  then show ?case using join_inv(1) by blast
next
  case (check_skips w a nd nx)
  then show ?case using checked_node by blast
next
  case (check_fails w a nd)
  then show ?case by (auto simp: main_inv_def)
next
  case (check_ends w)
  then obtain xs where xs: "list_inv w xs" "xs \<noteq> []" "tl xs = []" "settled (finished w) (list_mem w)"
    by (auto simp: main_inv_def eq_commute[of None])
  then have "length xs \<le> 1" by (cases xs) auto
  then show ?case using xs by (auto simp: main_inv_def)
next
  case (release_joins w a nd m l m')
  then show ?case using settled_joins[of "finished w" "list_mem w"] by (auto simp: main_inv_def)
next
  case (release_fails w a nd)
  then obtain xs where xs: "list_inv w xs" "length xs \<le> 1" "settled (finished w) (list_mem w)" by (auto simp: main_inv_def)
  then have "xs \<noteq> []" using release_fails.hyps(2) list_inv_first[OF xs(1)] by auto
  then show ?case using xs by (auto simp: main_inv_def)
next
  case (release_ends w tr)
  then obtain xs where xs: "list_inv w xs" "settled (finished w) (list_mem w)" by (auto simp: main_inv_def)
  then have "xs = []" using release_ends.hyps(2) empty_spec by (auto simp: list_inv_def thread_list_def)
  then show ?case using xs by (auto simp: main_inv_def)
qed (auto simp: main_inv_def)

lemma run_main_inv: "(process_step sys env)\<^sup>*\<^sup>* w w' \<Longrightarrow> main_inv w \<Longrightarrow> main_inv w'"
  by (induction rule: rtranclp_induct) (auto intro: step_main_inv)

text \<open>Seen from the threads, a run of the process is a run of the threads.\<close>

lemma run_server: "(process_step sys env)\<^sup>*\<^sup>* w w' \<Longrightarrow> (server_step env)\<^sup>*\<^sup>* (server w) (server w')"
proof (induction rule: rtranclp_induct)
  case (step w1 w2)
  have "server w2 = server w1 \<or> server_step env (server w1) (server w2)"
    using step.hyps(2) by (cases rule: process_step.cases) auto
  then show ?case using step.IH by (metis rtranclp.rtrancl_into_rtrancl)
qed simp

lemma started_before: "server_step env s s' \<Longrightarrow> pc (tasks s' t) = Started \<Longrightarrow> pc (tasks s t) = Started"
  by (induction rule: server_step.induct)
    (auto simp: take_mutex_def release_mutex_def task_writes_def split: if_splits)

text \<open>When all clients are started, the threads run as if they were alone.\<close>

lemma threads_run:
  assumes "(server_step env)\<^sup>*\<^sup>* s s'" "server w = s" "\<And>t. pc (tasks s t) = Started \<Longrightarrow> t \<in> set (clients w)"
  shows "(process_step sys env)\<^sup>*\<^sup>* w (w\<lparr>server := s'\<rparr>)"
proof -
  have "(process_step sys env)\<^sup>*\<^sup>* w (w\<lparr>server := s'\<rparr>) \<and> (\<forall>t. pc (tasks s' t) = Started \<longrightarrow> t \<in> set (clients w))"
    using assms(1)
  proof (induction rule: rtranclp_induct)
    case base
    then show ?case using assms(2,3) by (simp flip: assms(2))
  next
    case (step s1 s2)
    have "process_step sys env (w\<lparr>server := s1\<rparr>) (w\<lparr>server := s1\<rparr>\<lparr>server := s2\<rparr>)"
      by (rule run_thread) (use step in auto)
    then show ?case using step started_before[OF step.hyps(2)]
      by (auto intro: rtranclp.rtrancl_into_rtrancl)
  qed
  then show ?thesis by blast
qed

lemma failed_client_run:
  assumes "pc (tasks s t) = Started" "c_str (client_address (data (tasks s t))) = Inr adr"
    "arr_set (buf (tasks s t)) BUFLEN NUL = Inr b" "\<not> locked (io s)" "\<not> EXIT_SIGNAL (signals s)"
  shows "\<exists>s'. (server_step env)\<^sup>*\<^sup>* s s' \<and> pc (tasks s' t) = Finished"
proof -
  obtain s1 where s1: "(server_step env)\<^sup>*\<^sup>* s s1" "pc (tasks s1 t) = In_loop" "\<not> EXIT_SIGNAL (signals s1)"
    using begin_and_lock_run[OF assms(1-4)] assms(5) by metis
  let ?r = "upd_task t (\<lambda>k. k\<lparr>pc := Receiving\<rparr>) s1"
  let ?s2 = "upd_task t (\<lambda>k. set_thread_exit (k\<lparr>pc := Failed\<rparr>)) (?r\<lparr>io := log_message Recv_failed_message (io ?r)\<rparr>)"
  have "server_step env s1 ?r" using enters_recv[OF s1(2,3)] .
  moreover have "server_step env ?r ?s2" by (rule recv_fails) simp
  moreover have "server_step env ?s2 (release_mutex t Finished ?s2)" by (rule exit_after_failure) simp
  ultimately have "(server_step env)\<^sup>*\<^sup>* s (release_mutex t Finished ?s2)"
    using s1(1) by (meson rtranclp.rtrancl_into_rtrancl)
  then show ?thesis by (rule exI[of _ "release_mutex t Finished ?s2", OF conjI]) (simp add: release_mutex_def)
qed

lemma finished_task:
  assumes "lock_inv s" "output_inv ok base s" "pc (tasks s t) = Finished"
  shows "holder s \<noteq> Some t" "t \<in> set (order s)" "flushed (tasks s t) \<Longrightarrow> reply (tasks s t) = send_bytes ok 0 (base @ written_until s t)"
proof -
  have "critical (pc (tasks s t)) \<longleftrightarrow> holder s = Some t" "t \<in> set (order s) \<longleftrightarrow> \<not> fresh (pc (tasks s t))"
    using assms(1) by (simp_all add: lock_inv_def)
  then show "holder s \<noteq> Some t" "t \<in> set (order s)" using assms(3) by simp_all
  have "task_ok ok base (pending (fp (io s))) (written_until s t) (tasks s t)" using assms(2) by (simp add: output_inv_def)
  then show "flushed (tasks s t) \<Longrightarrow> reply (tasks s t) = send_bytes ok 0 (base @ written_until s t)"
    using assms(3) by (auto simp: task_ok_def)
qed

section \<open>The functions of the main thread as steps\<close>

lemma check_steps:
  "tailq (links_mem (list_mem w)) 0 (ys @ zs) \<Longrightarrow> main_at w = Checking (ptr_to zs) \<Longrightarrow>
   \<forall>a\<in>set zs. node_at (list_mem w) a \<noteq> None \<Longrightarrow> foldE (check_node (finished w)) zs (list_mem w) = Inr m' \<Longrightarrow>
   (process_step sys env)\<^sup>*\<^sup>* w (w\<lparr>list_mem := m', main_at := Checking None\<rparr>)"
proof (induction zs arbitrary: ys w)
  case Nil
  then have "w\<lparr>list_mem := m', main_at := Checking None\<rparr> = w" by simp
  then show ?case by simp
next
  case (Cons a zs)
  obtain nd where nd: "node_at (list_mem w) a = Some nd" using Cons.prems(3) by auto
  obtain m1 where m1: "check_node (finished w) a (list_mem w) = Inr m1" "foldE (check_node (finished w)) zs m1 = Inr m'"
    using Cons.prems(4) by (auto simp: bindE_eq_Inr)
  let ?w = "w\<lparr>list_mem := m1, main_at := Checking (ptr_to zs)\<rparr>"
  have l: "links_mem m1 = links_mem (list_mem w)" "node_at m1 = node_at (list_mem w)"
    using check_node_links[OF m1(1)] by simp_all
  have nx: "TAILQ_NEXT (links_mem m1) (Some a) = Inr (ptr_to zs)" using next_ptr[OF Cons.prems(1)] l(1) by simp
  have "process_step sys env w ?w"
  proof (cases "node_thread_exit nd")
    case True
    then show ?thesis using m1(1) nd nx Cons.prems(2)
      by (intro check_joins[of w a nd]) (auto simp: check_node_def get_node_def)
  next
    case False
    then have "list_mem w = m1" using m1(1) nd by (simp add: check_node_def get_node_def)
    then show ?thesis using check_skips[of w a nd "ptr_to zs" sys env] False nd nx Cons.prems(2)
      by (auto simp: get_node_def)
  qed
  moreover have "(process_step sys env)\<^sup>*\<^sup>* ?w (?w\<lparr>list_mem := m', main_at := Checking None\<rparr>)"
    using Cons.prems(1,3) l m1(2) by (intro Cons.IH[of ?w "ys @ [a]"]) auto
  ultimately show ?case by (simp add: converse_rtranclp_into_rtranclp)
qed

lemma release_steps:
  "thread_list (list_mem w) 0 xs \<Longrightarrow> main_at w = Releasing \<Longrightarrow> distinct (threads_of (list_mem w) xs) \<Longrightarrow>
   \<forall>t\<in>set (threads_of (list_mem w) xs). \<exists>k. joinable (list_mem w) t = Some k \<and> finished w k \<Longrightarrow> length xs \<le> n \<Longrightarrow>
   \<exists>m' tr. release_all_thread (finished w) n 0 (list_mem w) = Inr (Some m') \<and>
     stop_server (finished w) n sys (list_mem w) (actions w) = Inr tr \<and>
     (process_step sys env)\<^sup>*\<^sup>* w (w\<lparr>list_mem := m', actions := tr, main_at := Main_ended (Exits 0)\<rparr>)"
proof (induction xs arbitrary: w n)
  case Nil
  then have e: "TAILQ_EMPTY (links_mem (list_mem w)) 0" using empty_spec by (auto simp: thread_list_def)
  then have r: "release_all_thread (finished w) k 0 (list_mem w) = Inr (Some (list_mem w))" for k
    by (subst release_all_thread.simps) simp
  then obtain tr where tr: "stop_server (finished w) k sys (list_mem w) (actions w) = Inr tr" for k by (simp add: stop_server_def)
  have "process_step sys env w (w\<lparr>actions := tr, main_at := Main_ended (Exits 0)\<rparr>)"
    using Nil.prems(2) e tr by (rule release_ends)
  then show ?case using r tr by auto
next
  case (Cons a as)
  let ?m = "list_mem w"
  obtain nd where nd: "node_at ?m a = Some nd" using Cons.prems(1) by (auto simp: thread_list_def)
  let ?t = "node_thread nd"
  obtain i where i: "n = Suc i" "length as \<le> i" using Cons.prems(5) by (cases n) auto
  have th: "threads_of ?m (a # as) = ?t # threads_of ?m as" using nd by (simp add: threads_of_def)
  obtain k where k: "joinable ?m ?t = Some k" "finished w k" using Cons.prems(4) th by auto
  have q: "tailq (links_mem ?m) 0 (a # as)" using Cons.prems(1) by (simp add: thread_list_def)
  have an: "a \<notin> set as" using tq.rep_distinct[OF q] by simp
  obtain l m1 where l: "TAILQ_REMOVE (links_mem ?m) 0 a = Inr l" "free_node a ((after_join ?t k ?m)\<lparr>links_mem := l\<rparr>) = Inr m1"
    and r: "release_all_thread (finished w) (Suc i) 0 ?m = release_all_thread (finished w) i 0 m1" "thread_list m1 0 as"
      "joinable m1 = (joinable ?m)(?t := None)" "node_at m1 = (node_at ?m)(a := None)"
    using release_round[of ?m 0 a as nd k "finished w" i, OF Cons.prems(1) nd k] by blast
  have s: "process_step sys env w (w\<lparr>list_mem := m1\<rparr>)"
    using release_joins[of w a nd "after_join ?t k ?m" l m1 sys env] Cons.prems(2) first_ptr[OF q] nd k l by (simp add: get_node_def)
  have same: "threads_of m1 as = threads_of ?m as" using r(4) an by (intro threads_of_cong) auto
  have "\<exists>m' tr. release_all_thread (finished (w\<lparr>list_mem := m1\<rparr>)) i 0 (list_mem (w\<lparr>list_mem := m1\<rparr>)) = Inr (Some m') \<and>
     stop_server (finished (w\<lparr>list_mem := m1\<rparr>)) i sys (list_mem (w\<lparr>list_mem := m1\<rparr>)) (actions (w\<lparr>list_mem := m1\<rparr>)) = Inr tr \<and>
     (process_step sys env)\<^sup>*\<^sup>* (w\<lparr>list_mem := m1\<rparr>) (w\<lparr>list_mem := m1\<rparr>\<lparr>list_mem := m', actions := tr, main_at := Main_ended (Exits 0)\<rparr>)"
    by (rule Cons.IH[OF _ _ _ _ i(2)]) (use r(2,3) Cons.prems(2-4) th same in auto)
  then show ?case using i(1) r(1) s by (auto simp: stop_server_def intro: converse_rtranclp_into_rtranclp)
qed

section \<open>Properties\<close>

text \<open>
  A process with an empty list after the setup of \<open>sample_server\<close>. Task \<open>0\<close> is the client of
  \<open>sample_round\<close>, the others are timer threads.
\<close>

definition sample_client :: thread_data where
  "sample_client = sample_td\<lparr>client_address := [49, 50, 55] @ replicate 13 NUL\<rparr>"

definition sample_process :: process where
  "sample_process = \<lparr>server = \<lparr>io = sample_io, signals = \<lparr>EXIT_SIGNAL = False, syslog_lines = []\<rparr>, tasks = (\<lambda>t. \<lparr>pc = (if t = 0 then Started else Timer_ready),
       buf = replicate 130 1, data = sample_client, flushed = False, written = [], reply = []\<rparr>), holder = None, order = []\<rparr>,
     list_mem = sample_threads, main_at = Loop_test, main_ret = 0,
     actions = setup_actions sample_server \<lparr>tv_sec = 5, tv_nsec = 0\<rparr>, clients = []\<rparr>"

lemma sample_process_start: "process_start sample_server sample_process"
proof -
  have "tailq (links_mem sample_threads) 0 []" using init_empty by (simp add: sample_threads_def)
  moreover have "server_setup sample_server = Inr (0, setup_actions sample_server \<lparr>tv_sec = 5, tv_nsec = 0\<rparr>)" by code_simp
  ultimately show ?thesis
    by (simp add: process_start_def sample_process_def thread_list_def sample_threads_def
      initial_def sample_io_def)
qed

lemma sample_accept:
  assumes "insert_node (sample_block 1) 0 11 (pthread_create 11 m) = Inr m1"
  shows "accept_client sample_server sample_round 0 m tr = Inr (0, m1, tr @ [Starts_thread 11 sample_client])"
proof -
  have "get_client_info (ntop sample_server) (peer sample_round) (peer_len sample_round) (address_stack sample_round) =
      Inr ([49, 50, 55, 0] @ replicate 12 1)" by code_simp
  moreover have "c_strncpy ([49, 50, 55, 0] @ replicate 12 1) INET_ADDRSTRLEN = [49, 50, 55] @ replicate 13 NUL" by code_simp
  ultimately show ?thesis using assms
    by (simp add: accept_client_def sample_round_def sample_client_def sample_td_def)
qed

text \<open>The client is started, loses its connection and ends, and the main thread joins it.\<close>

lemma sample_client_joined:
  "\<exists>w. (process_step sample_server env)\<^sup>*\<^sup>* sample_process w \<and> main_at w = Loop_test \<and> clients w = [0] \<and>
     joined (list_mem w) = [0]"
proof -
  have t: "thread_list sample_threads 0 []" "node_at sample_threads 1 = None" "created sample_threads = 0"
    "joinable sample_threads = Map.empty" "joined sample_threads = []"
    using sample_process_start by (simp_all add: process_start_def sample_process_def sample_threads_def)
  obtain m nd where m: "insert_node (sample_block 1) 0 11 (pthread_create 11 sample_threads) = Inr m" "thread_list m 0 [1]"
    "joinable m = [11 \<mapsto> 0]" "joined m = []" "node_at m 1 = Some nd" "node_thread nd = 11" "node_thread_exit nd"
    using insert_node_ok[of "pthread_create 11 sample_threads" 0 "[]" 1] t by (fastforce simp: sample_block_def)
  let ?tr = "setup_actions sample_server \<lparr>tv_sec = 5, tv_nsec = 0\<rparr> @ [Starts_thread 11 sample_client]"
  let ?w1 = "sample_process\<lparr>list_mem := m, main_ret := 0, actions := ?tr, clients := [0], main_at := Checking (Some 1)\<rparr>"
  let ?a = "sample_process\<lparr>main_at := Accepting\<rparr>"
  have a: "process_step sample_server env sample_process ?a"
    by (rule enters_accept) (simp_all add: sample_process_def)
  have "process_step sample_server env ?a (?a\<lparr>list_mem := m, main_ret := 0, actions := ?tr,
      clients := clients ?a @ [0], main_at := Checking (TAILQ_FIRST (links_mem m) 0)\<rparr>)"
    by (rule start_client[where r = sample_round])
      (use sample_accept[OF m(1)] t(2,3) in \<open>auto simp: sample_process_def sample_round_def sample_block_def\<close>)
  then have s1: "process_step sample_server env ?a ?w1"
    using first_ptr[of "links_mem m" 0 "[1]"] m(2) by (simp add: thread_list_def sample_process_def)
  obtain s where s: "(server_step env)\<^sup>*\<^sup>* (server sample_process) s" "pc (tasks s 0) = Finished"
    using failed_client_run[of "server sample_process" 0 "[49, 50, 55]" "(replicate 130 1)[BUFLEN := NUL]" env]
    by (auto simp: sample_process_def sample_client_def sample_io_def c_str_def arr_set_def BUFLEN_def)
  let ?w2 = "?w1\<lparr>server := s\<rparr>" and ?m2 = "after_join 11 0 m"
  have s2: "(process_step sample_server env)\<^sup>*\<^sup>* ?w1 ?w2"
    by (rule threads_run) (use s(1) in \<open>auto simp: sample_process_def split: if_splits\<close>)
  have "foldE (check_node (finished ?w2)) [1] m = Inr ?m2"
    using m(3-7) s(2) by (simp add: check_node_def get_node_def finished_def)
  then have s3: "(process_step sample_server env)\<^sup>*\<^sup>* ?w2 (?w2\<lparr>list_mem := ?m2, main_at := Checking None\<rparr>)"
    using m(2,5) by (intro check_steps[of _ "[]" "[1]"]) (auto simp: thread_list_def)
  let ?w3 = "?w2\<lparr>list_mem := ?m2, main_at := Checking None\<rparr>"
  have s4: "process_step sample_server env ?w3 (?w3\<lparr>main_at := Loop_test\<rparr>)" by (rule check_ends) simp
  have "(process_step sample_server env)\<^sup>*\<^sup>* sample_process (?w3\<lparr>main_at := Loop_test\<rparr>)"
    using a s1 s2 s3 s4 by (meson converse_rtranclp_into_rtranclp rtranclp.rtrancl_into_rtrancl rtranclp_trans)
  then show ?thesis by (rule exI[of _ "?w3\<lparr>main_at := Loop_test\<rparr>", OF conjI]) (simp add: m(4))
qed

text \<open>
  (C4) The server handles one client at a time, whatever the interleaving and whatever identifiers
  \<open>pthread_create\<close> returns: of the clients it ever started at most one has not finished, and at most
  one client was started and has finished when the main thread is at its loop condition, in
  \<open>accept\<close> or shutting down. Up to undefined behaviour, at which the run ends here, it starts at
  most two clients: after the second it is in the walk over the list, from which it does not come
  back, since the walk joins an identifier that names no thread, and that is undefined. A server
  that started a client does not return from \<open>main\<close> with status zero either, because the shutdown joins
  its identifier again.
\<close>

theorem clients_one_at_a_time:
  assumes "process_start sys w0" "(process_step sys env)\<^sup>*\<^sup>* w0 w"
  shows "length (clients w) \<le> 2 \<and>
    (\<forall>t\<in>set (clients w). \<forall>u\<in>set (clients w). \<not> finished w t \<and> \<not> finished w u \<longrightarrow> t = u) \<and>
    (main_at w \<in> {Loop_test, Accepting, Releasing} \<longrightarrow> length (clients w) \<le> 1 \<and> (\<forall>t\<in>set (clients w). finished w t)) \<and>
    (length (clients w) = 2 \<longrightarrow> (\<exists>a. main_at w = Checking (Some a)) \<or> main_at w = Main_ended (Undefined Invalid_join)) \<and>
    (main_at w = Main_ended (Exits 0) \<longrightarrow> clients w = []) \<and>
    (main_at w = Main_ended (Undefined Invalid_join) \<longrightarrow> clients w \<noteq> [])"
proof -
  obtain xs where xs: "list_inv w xs" "place_ok (finished w) (list_mem w) xs (main_at w)"
    using run_main_inv[OF assms(2) start_inv[OF assms(1)]] by (auto simp: main_inv_def)
  then have c: "clients w = [0..<length xs]" "created (list_mem w) = length xs" by (simp_all add: list_inv_def)
  have open_one: "settled (finished w) (list_mem w) \<Longrightarrow> \<forall>t<length xs. finished w t"
    "one_open (finished w) (list_mem w) u \<Longrightarrow> \<forall>t<length xs - 1. finished w t" for u
    using c(2) by (auto simp: settled_def one_open_def)
  have two: "\<exists>a b. xs = [a, b]" if "length xs = 2" using that by (auto simp: numeral_2_eq_2 length_Suc_conv)
  have f: "\<forall>t<length xs - 1. finished w t" using xs(2) open_one by (cases "main_at w") (auto split: if_splits)
  have "length xs \<le> 2" using xs(2) by (cases "main_at w") (auto split: if_splits)
  moreover have "main_at w \<in> {Loop_test, Accepting, Releasing} \<longrightarrow> length xs \<le> 1 \<and> (\<forall>t<length xs. finished w t)"
    using xs(2) open_one(1) by auto
  moreover have "length xs = 2 \<longrightarrow> (\<exists>a. main_at w = Checking (Some a)) \<or> main_at w = Main_ended (Undefined Invalid_join)"
    using xs(2) two by (cases "main_at w") (auto split: if_splits)
  moreover have "t = u" if "t < length xs" "u < length xs" "\<not> finished w t" "\<not> finished w u" for t u
    using f that by (metis Suc_pred' gr_implies_not0 less_SucE neq0_conv)
  moreover have "main_at w = Main_ended (Exits 0) \<longrightarrow> xs = []" "main_at w = Main_ended (Undefined Invalid_join) \<longrightarrow> xs \<noteq> []"
    using xs(2) by auto
  moreover have "clients w = [] \<longleftrightarrow> xs = []" "length (clients w) = length xs" "set (clients w) = {..<length xs}"
    using c(1) by auto
  ultimately show ?thesis by (simp only: Ball_def lessThan_iff) blast
qed

theorem clients_one_at_a_time_witness:
  "\<exists>w. (process_step sample_server sample_env)\<^sup>*\<^sup>* sample_process w \<and> main_at w = Loop_test \<and> clients w = [0] \<and> finished w 0"
proof -
  obtain w where w: "(process_step sample_server sample_env)\<^sup>*\<^sup>* sample_process w" "main_at w = Loop_test" "clients w = [0]"
    using sample_client_joined by blast
  from clients_one_at_a_time[OF sample_process_start w(1)] w show ?thesis by auto
qed

text \<open>
  (C28) What the main thread relies on when it joins: in every state of the process the file holds the
  bytes of each thread as one block in the order of the lock, and each connection received the
  replies of the threads that have its descriptor, in that order; a joined client has finished,
  does not hold the mutex and, if its request ended with a newline, its reply is the file up to
  and including its own block, less the bytes whose \<open>send\<close> was refused.
\<close>

theorem joined_clients_are_served:
  assumes "process_start sys w0" "(process_step sys env)\<^sup>*\<^sup>* w0 w"
  shows "contents (fp (io (server w))) =
      contents (fp (io (server w0))) @ concat (map (\<lambda>t. written (tasks (server w) t)) (order (server w))) \<and>
    (\<forall>fd. delivered (io (server w)) fd = delivered (io (server w0)) fd @
       concat (map (\<lambda>t. reply (tasks (server w) t)) (filter (\<lambda>t. fd_accept (data (tasks (server w) t)) = fd) (order (server w))))) \<and>
    (\<forall>t\<in>set (joined (list_mem w)). finished w t \<and> holder (server w) \<noteq> Some t \<and> t \<in> set (order (server w)) \<and>
       (flushed (tasks (server w) t) \<longrightarrow> reply (tasks (server w) t) =
          send_bytes (send_ok env) 0 (contents (fp (io (server w0))) @ written_until (server w) t)))"
proof -
  have i: "initial (server w0)" using assms(1) by (simp add: process_start_def)
  have inv: "lock_inv (server w)" "output_inv (send_ok env) (contents (fp (io (server w0)))) (server w)"
    "delivery_inv (delivered (io (server w0))) (server w)"
    using run_inv[OF run_server[OF assms(2)]] run_delivery[OF run_server[OF assms(2)]] initial_inv[OF i] initial_delivery[OF i] by blast+
  obtain xs where xs: "list_inv w xs" "place_ok (finished w) (list_mem w) xs (main_at w)"
    using run_main_inv[OF assms(2) start_inv[OF assms(1)]] by (auto simp: main_inv_def)
  have f: "finished w t" if "t \<in> set (joined (list_mem w))" for t
    using xs(2) that by (cases "main_at w") (auto simp: settled_def one_open_def split: if_splits)
  show ?thesis
  proof (intro conjI ballI allI impI)
    show "contents (fp (io (server w))) =
        contents (fp (io (server w0))) @ concat (map (\<lambda>t. written (tasks (server w) t)) (order (server w)))"
      using inv(2) by (simp add: output_inv_def)
    show "delivered (io (server w)) fd = delivered (io (server w0)) fd @
       concat (map (\<lambda>t. reply (tasks (server w) t)) (filter (\<lambda>t. fd_accept (data (tasks (server w) t)) = fd) (order (server w))))" for fd
      using inv(3) by (simp add: delivery_inv_def replies_on_def)
  qed (use f finished_task[OF inv(1,2)] in \<open>simp_all add: finished_def\<close>)
qed

theorem joined_clients_are_served_witness:
  "\<exists>w. (process_step sample_server sample_env)\<^sup>*\<^sup>* sample_process w \<and> joined (list_mem w) = [0] \<and> finished w 0 \<and> holder (server w) \<noteq> Some 0"
proof -
  obtain w where w: "(process_step sample_server sample_env)\<^sup>*\<^sup>* sample_process w" "joined (list_mem w) = [0]"
    using sample_client_joined by blast
  from joined_clients_are_served[OF sample_process_start w(1)] w show ?thesis by auto
qed

text \<open>
  The steps of the main thread are those of its functions: a result of \<open>check_thread_exit\<close>, where the
  finished threads are those that end, is reached by steps from the first node on; and if the list
  has different identifiers of finished threads, \<open>release_all_thread\<close> ends, and its result and the end
  of the process with the actions of \<open>stop_server\<close> are reached by steps as well.
\<close>

theorem main_functions_run_as_steps:
  assumes "thread_list (list_mem w) 0 xs" "length xs \<le> n"
  shows "(\<forall>m'. check_thread_exit (finished w) n 0 (list_mem w) = Inr (Some m') \<longrightarrow>
      (process_step sys env)\<^sup>*\<^sup>* (w\<lparr>main_at := Checking (TAILQ_FIRST (links_mem (list_mem w)) 0)\<rparr>)
        (w\<lparr>list_mem := m', main_at := Loop_test\<rparr>)) \<and>
    (distinct (threads_of (list_mem w) xs) \<and>
     (\<forall>t\<in>set (threads_of (list_mem w) xs). \<exists>k. joinable (list_mem w) t = Some k \<and> finished w k) \<longrightarrow>
      (\<exists>m' tr. release_all_thread (finished w) n 0 (list_mem w) = Inr (Some m') \<and>
        stop_server (finished w) n sys (list_mem w) (actions w) = Inr tr \<and>
        (process_step sys env)\<^sup>*\<^sup>* (w\<lparr>main_at := Releasing\<rparr>)
          (w\<lparr>list_mem := m', actions := tr, main_at := Main_ended (Exits 0)\<rparr>)))"
proof (intro conjI allI impI)
  fix m' assume "check_thread_exit (finished w) n 0 (list_mem w) = Inr (Some m')"
  then have "foldE (check_node (finished w)) xs (list_mem w) = Inr m'"
    using check_all[OF assms, of "finished w"] by (cases "foldE (check_node (finished w)) xs (list_mem w)") auto
  then have "(process_step sys env)\<^sup>*\<^sup>* (w\<lparr>main_at := Checking (ptr_to xs)\<rparr>) (w\<lparr>list_mem := m', main_at := Checking None\<rparr>)"
    using check_steps[of "w\<lparr>main_at := Checking (ptr_to xs)\<rparr>" "[]" xs m' sys env] assms(1)
    by (simp add: thread_list_def)
  moreover have "process_step sys env (w\<lparr>list_mem := m', main_at := Checking None\<rparr>) (w\<lparr>list_mem := m', main_at := Loop_test\<rparr>)"
    using check_ends[of "w\<lparr>list_mem := m', main_at := Checking None\<rparr>" sys env] by simp
  moreover have "TAILQ_FIRST (links_mem (list_mem w)) 0 = ptr_to xs"
    using assms(1) by (simp add: thread_list_def first_ptr)
  ultimately show "(process_step sys env)\<^sup>*\<^sup>* (w\<lparr>main_at := Checking (TAILQ_FIRST (links_mem (list_mem w)) 0)\<rparr>)
      (w\<lparr>list_mem := m', main_at := Loop_test\<rparr>)" by simp
qed (use release_steps[of "w\<lparr>main_at := Releasing\<rparr>" xs n sys env] assms in simp)

theorem main_functions_run_as_steps_witness:
  "\<exists>m' tr. (process_step sample_server sample_env)\<^sup>*\<^sup>* (sample_process\<lparr>main_at := Releasing\<rparr>)
     (sample_process\<lparr>list_mem := m', actions := tr, main_at := Main_ended (Exits 0)\<rparr>) \<and> last tr = Prints ''Exit...''"
proof -
  have l: "thread_list (list_mem sample_process) 0 []" using sample_process_start by (simp add: process_start_def)
  then obtain m' tr where "stop_server (finished sample_process) 0 sample_server (list_mem sample_process) (actions sample_process) = Inr tr"
    "(process_step sample_server sample_env)\<^sup>*\<^sup>* (sample_process\<lparr>main_at := Releasing\<rparr>)
       (sample_process\<lparr>list_mem := m', actions := tr, main_at := Main_ended (Exits 0)\<rparr>)"
    using main_functions_run_as_steps[OF l, of 0 sample_server sample_env] by (auto simp: threads_of_def)
  moreover from this(1) have "last tr = Prints ''Exit...''"
    by (auto simp: stop_server_def or_undefined_def sample_server_def bindE_def split: sum.splits option.splits)
  ultimately show ?thesis by blast
qed

end
