(* ===== verification/Server_Progress.thy ===== *)
theory Server_Progress
  imports Server_Interleaving
begin

text \<open>
  No thread of the server gets stuck. A task is well-formed when its buffers satisfy what the code at
  its place relies on: a terminated client address and a stack frame that reaches behind the buffer
  when the thread starts, a NUL behind the buffer once it was stored. Every step keeps the tasks
  well-formed, a well-formed task has a next step unless it waits for the mutex, and the thread
  that holds the mutex can always go on, so that every thread can still be brought to its end.
\<close>

section \<open>Well-formed tasks\<close>

fun frame_wf :: "task_pc \<Rightarrow> byte list \<Rightarrow> byte list \<Rightarrow> bool" where
  "frame_wf Started address frame \<longleftrightarrow> NUL \<in> set address \<and> BUFLEN < length frame"
| "frame_wf Before_lock address frame \<longleftrightarrow> terminated frame"
| "frame_wf In_loop address frame \<longleftrightarrow> terminated frame"
| "frame_wf Receiving address frame \<longleftrightarrow> terminated frame"
| "frame_wf Timer_ready address frame \<longleftrightarrow> BUFLEN < length frame"
| "frame_wf Timer_locked address frame \<longleftrightarrow> BUFLEN < length frame"
| "frame_wf _ address frame \<longleftrightarrow> True"

definition task_wf :: "task \<Rightarrow> bool" where
  "task_wf k \<longleftrightarrow> frame_wf (pc k) (client_address (data k)) (buf k)"

definition tasks_wf :: "server_state \<Rightarrow> bool" where
  "tasks_wf s \<longleftrightarrow> (\<forall>t. task_wf (tasks s t))"

lemma recv_into_terminated: "recv_into b0 bs = Inr b \<Longrightarrow> terminated b0 \<Longrightarrow> terminated b"
  using recv_into_fits(2)[of b0 bs] by (auto simp: recv_into_def BUFLEN_def split: if_splits)

lemma arr_set_terminated: "arr_set b0 BUFLEN NUL = Inr b \<Longrightarrow> terminated b"
  by (auto simp: arr_set_def terminated_def split: if_splits)

text \<open>Only the task that takes a step changes.\<close>

lemma step_one_task: "server_step env s s' \<Longrightarrow> \<exists>t. \<forall>u. u \<noteq> t \<longrightarrow> tasks s' u = tasks s u"
  by (cases rule: server_step.cases) (auto simp: step_defs)

lemma step_wf: "server_step env s s' \<Longrightarrow> tasks_wf s \<Longrightarrow> tasks_wf s'"
proof (induction rule: server_step.induct)
  case (begin_thread s t adr b)
  then show ?case by (auto simp: tasks_wf_def task_wf_def dest: arr_set_terminated)
next
  case (recv_packet s t bs b)
  then have "terminated b" by (metis frame_wf.simps(4) recv_into_terminated task_wf_def tasks_wf_def)
  then show ?case using recv_packet by (auto simp: tasks_wf_def task_wf_def step_defs)
next
  case (lock_thread s t)
  then have "terminated (buf (tasks s t))" by (metis frame_wf.simps(2) task_wf_def tasks_wf_def)
  then show ?case using lock_thread by (auto simp: tasks_wf_def task_wf_def step_defs)
next
  case (enters_recv s t)
  then have "terminated (buf (tasks s t))" by (metis frame_wf.simps(3) task_wf_def tasks_wf_def)
  then show ?case using enters_recv by (auto simp: tasks_wf_def task_wf_def)
next
  case (lock_timer s t)
  then have "BUFLEN < length (buf (tasks s t))" by (metis frame_wf.simps(5) task_wf_def tasks_wf_def)
  then show ?case using lock_timer by (auto simp: tasks_wf_def task_wf_def step_defs)
qed (auto simp: tasks_wf_def task_wf_def step_defs)

lemma run_wf: "(server_step env)\<^sup>*\<^sup>* s s' \<Longrightarrow> tasks_wf s \<Longrightarrow> tasks_wf s'"
  by (induction rule: rtranclp_induct) (auto intro: step_wf)

lemma run_lock_inv: "(server_step env)\<^sup>*\<^sup>* s s' \<Longrightarrow> lock_inv s \<Longrightarrow> lock_inv s'"
  by (induction rule: rtranclp_induct) (auto intro: step_lock_inv)

section \<open>The next step of a task\<close>

fun rank :: "task_pc \<Rightarrow> nat" where
  "rank Started = 9" | "rank Before_lock = 8" | "rank In_loop = 7" | "rank Receiving = 6" | "rank Sending = 5" | "rank Closing = 4"
| "rank Unlocking = 3" | "rank Exiting = 2" | "rank Failed = 1" | "rank Timer_ready = 3" | "rank Timer_locked = 2"
| "rank Timer_written = 1" | "rank Finished = 0"

definition waits :: "task_pc \<Rightarrow> bool" where
  "waits p \<longleftrightarrow> p = Before_lock \<or> p = Timer_ready"

definition advances :: "libc_env \<Rightarrow> nat \<Rightarrow> server_state \<Rightarrow> server_state \<Rightarrow> bool" where
  "advances env t s s' \<longleftrightarrow> server_step env s s' \<and> rank (pc (tasks s' t)) < rank (pc (tasks s t)) \<and>
     (\<forall>u. u \<noteq> t \<longrightarrow> tasks s' u = tasks s u) \<and> holder s' \<in> {holder s, None, Some t} \<and> signals s' = signals s"

lemma task_advances:
  assumes "tasks_wf s" "reopen_ok env" "pc (tasks s t) \<noteq> Finished" "waits (pc (tasks s t)) \<Longrightarrow> \<not> locked (io s)"
  shows "\<exists>s'. advances env t s s'"
proof -
  have wf: "frame_wf (pc (tasks s t)) (client_address (data (tasks s t))) (buf (tasks s t))"
    using assms(1) by (simp add: tasks_wf_def task_wf_def)
  show ?thesis
  proof (cases "pc (tasks s t)")
    case Started
    then show ?thesis using wf begin_thread[OF Started, of _ _ env] by (fastforce simp: advances_def)
  next
    case Before_lock
    then show ?thesis using assms(4) lock_thread[OF Before_lock, of env] by (fastforce simp: advances_def waits_def take_mutex_def)
  next
    case In_loop
    then show ?thesis using enters_recv[OF In_loop, of env] sees_exit_signal[OF In_loop, of env]
      by (cases "EXIT_SIGNAL (signals s)") (fastforce simp: advances_def)+
  next
    case Receiving
    then show ?thesis using recv_fails[OF Receiving, of env] by (fastforce simp: advances_def)
  next
    case Failed
    then show ?thesis using exit_after_failure[OF Failed, of env] by (fastforce simp: advances_def release_mutex_def)
  next
    case Sending
    then show ?thesis using assms(2) send_file[OF Sending refl, of env] by (fastforce simp: advances_def send_file_to_client_def)
  next
    case Closing
    then show ?thesis using close_connection[OF Closing, of env] by (fastforce simp: advances_def)
  next
    case Unlocking
    then show ?thesis using unlock_thread[OF Unlocking, of env] by (fastforce simp: advances_def release_mutex_def)
  next
    case Exiting
    then show ?thesis using finish_thread[OF Exiting, of env] by (fastforce simp: advances_def)
  next
    case Timer_ready
    then show ?thesis using assms(4) lock_timer[OF Timer_ready, of env] by (fastforce simp: advances_def waits_def take_mutex_def)
  next
    case Timer_locked
    let ?b = "(buf (tasks s t))[BUFLEN := NUL]"
    have b: "arr_set (buf (tasks s t)) BUFLEN NUL = Inr ?b" "strftime ?b BUFLEN [] = Inr (0, NUL # drop 1 ?b)"
      using wf Timer_locked by (auto simp: strftime_def BUFLEN_def)
    show ?thesis using write_stamp[OF Timer_locked b refl, of env] Timer_locked by (fastforce simp: advances_def task_writes_def)
  next
    case Timer_written
    then show ?thesis using unlock_timer[OF Timer_written, of env] by (fastforce simp: advances_def release_mutex_def)
  qed (use assms(3) in simp)
qed

lemma mutex_free:
  assumes "lock_inv s" "\<not> critical (pc (tasks s t))" "holder s = None \<or> holder s = Some t"
  shows "holder s = None" "\<not> locked (io s)"
proof -
  show "holder s = None" using assms by (metis lock_inv_def)
  then show "\<not> locked (io s)" using assms(1) by (simp add: lock_inv_def)
qed

text \<open>Runs in which one thread takes all steps.\<close>

definition own_step :: "libc_env \<Rightarrow> nat \<Rightarrow> server_state \<Rightarrow> server_state \<Rightarrow> bool" where
  "own_step env t s s' \<longleftrightarrow> server_step env s s' \<and> (\<forall>u. u \<noteq> t \<longrightarrow> tasks s' u = tasks s u) \<and> signals s' = signals s"

lemma own_run:
  "(own_step env t)\<^sup>*\<^sup>* s s' \<Longrightarrow>
   (server_step env)\<^sup>*\<^sup>* s s' \<and> (\<forall>u. u \<noteq> t \<longrightarrow> tasks s' u = tasks s u) \<and> signals s' = signals s"
  by (induction rule: rtranclp_induct) (auto simp: own_step_def intro: rtranclp.rtrancl_into_rtrancl)

lemma task_finishes:
  assumes "lock_inv s" "tasks_wf s" "reopen_ok env" "holder s = None \<or> holder s = Some t"
  shows "\<exists>s'. (own_step env t)\<^sup>*\<^sup>* s s' \<and> pc (tasks s' t) = Finished \<and> holder s' = None"
  using assms
proof (induction "rank (pc (tasks s t))" arbitrary: s rule: less_induct)
  case less
  show ?case
  proof (cases "pc (tasks s t) = Finished")
    case True
    then have "holder s = None" using mutex_free[OF less.prems(1) _ less.prems(4)] by simp
    then show ?thesis using True by auto
  next
    case False
    have "\<not> locked (io s)" if "waits (pc (tasks s t))"
      using that mutex_free[OF less.prems(1) _ less.prems(4)] by (auto simp: waits_def)
    then obtain s1 where s1: "advances env t s s1" using task_advances[OF less.prems(2,3) False] by blast
    have step: "server_step env s s1" and r: "rank (pc (tasks s1 t)) < rank (pc (tasks s t))"
      and other: "\<forall>u. u \<noteq> t \<longrightarrow> tasks s1 u = tasks s u" "signals s1 = signals s" using s1 by (simp_all add: advances_def)
    have h: "holder s1 = None \<or> holder s1 = Some t" using s1 less.prems(4) unfolding advances_def by auto
    obtain s' where "(own_step env t)\<^sup>*\<^sup>* s1 s'" "pc (tasks s' t) = Finished" "holder s' = None"
      using less.hyps[OF r step_lock_inv[OF step less.prems(1)] step_wf[OF step less.prems(2)] less.prems(3) h] by blast
    moreover have "own_step env t s s1" using step other by (simp add: own_step_def)
    ultimately show ?thesis by (metis converse_rtranclp_into_rtranclp)
  qed
qed

section \<open>Properties\<close>

lemma sample_initial: "initial sample_state"
  by (simp add: initial_def sample_state_def sample_io_def)

lemma sample_wf: "tasks_wf sample_state"
  by (simp add: tasks_wf_def task_wf_def sample_state_def sample_td_def BUFLEN_def)

text \<open>
  (C7) Type soundness of the threads: in every state of a run that starts with well-formed tasks, and as
  long as the output file can be opened for reading, every task is well-formed, and a thread that
  has not finished either has a next step, or waits for the mutex and another thread that
  holds it has one. A thread in \<open>recv\<close> can go on with every answer: any number of bytes below
  \<open>BUFLEN\<close> is appended to the file. No signal is needed for any of this.
\<close>

theorem threads_never_stuck:
  assumes "initial s0" "tasks_wf s0" "reopen_ok env" "(server_step env)\<^sup>*\<^sup>* s0 s"
  shows "tasks_wf s \<and>
    (\<forall>t. pc (tasks s t) \<noteq> Finished \<longrightarrow> (\<exists>s'. advances env t s s') \<or>
       waits (pc (tasks s t)) \<and> (\<exists>u s'. u \<noteq> t \<and> holder s = Some u \<and> advances env u s s')) \<and>
    (\<forall>t bs. pc (tasks s t) = Receiving \<and> length bs < BUFLEN \<longrightarrow>
       (\<exists>s'. server_step env s s' \<and> contents (fp (io s')) = contents (fp (io s)) @ bs))"
proof (intro conjI allI impI)
  have inv: "lock_inv s" using run_inv[OF assms(4)] initial_inv[OF assms(1)] by blast
  show wf: "tasks_wf s" using run_wf[OF assms(4,2)] .
  show "(\<exists>s'. advances env t s s') \<or> waits (pc (tasks s t)) \<and> (\<exists>u s'. u \<noteq> t \<and> holder s = Some u \<and> advances env u s s')"
    if "pc (tasks s t) \<noteq> Finished" for t
  proof (cases "waits (pc (tasks s t)) \<and> locked (io s)")
    case False
    then show ?thesis using task_advances[OF wf assms(3) that] by blast
  next
    case True
    then obtain u where u: "holder s = Some u" "critical (pc (tasks s u))" using inv by (auto simp: lock_inv_def)
    then have "pc (tasks s u) \<noteq> Finished" "\<not> waits (pc (tasks s u))" "u \<noteq> t" using True by (auto simp: waits_def)
    then show ?thesis using task_advances[OF wf assms(3), of u] u(1) True by blast
  qed
  show "\<exists>s'. server_step env s s' \<and> contents (fp (io s')) = contents (fp (io s)) @ bs"
    if t: "pc (tasks s t) = Receiving \<and> length bs < BUFLEN" for t bs
  proof -
    have "terminated (buf (tasks s t))" using wf t by (metis frame_wf.simps(4) task_wf_def tasks_wf_def)
    note r = recv_into_fits[OF this] and pc = conjunct1[OF t]
    let ?b = "bs @ drop (length bs) (buf (tasks s t))"
    obtain found where f: "c_strchr ?b newline = Inr found" using terminated_strchr[OF r(2)] t by blast
    show ?thesis
    proof (cases found)
      case True
      then show ?thesis using recv_last[OF pc r(1) _ refl, of bs env] f t
        by (intro exI conjI) (assumption | simp add: task_writes_def)+
    next
      case False
      then show ?thesis using recv_packet[OF pc r(1), of bs env] f t
        by (intro exI conjI) (assumption | simp add: task_writes_def)+
    qed
  qed
qed

theorem threads_never_stuck_witness:
  "tasks_wf sample_state \<and> (\<exists>s'. advances sample_env 0 sample_state s')"
  using threads_never_stuck[OF sample_initial sample_wf _ rtranclp.rtrancl_refl, of sample_env]
  by (auto simp: sample_env_def sample_state_def waits_def split: if_splits)

text \<open>
  (C8) Every thread can finish: from every state of such a run, and for every thread, there is a
  continuation in which the thread ends and the mutex is free, in which at most the thread that
  held the mutex and the thread itself take steps and no signal arrives.
\<close>

theorem every_thread_can_finish:
  assumes "initial s0" "tasks_wf s0" "reopen_ok env" "(server_step env)\<^sup>*\<^sup>* s0 s"
  shows "\<exists>s'. (server_step env)\<^sup>*\<^sup>* s s' \<and> pc (tasks s' t) = Finished \<and> \<not> locked (io s') \<and>
    (\<forall>u. u \<noteq> t \<and> holder s \<noteq> Some u \<longrightarrow> tasks s' u = tasks s u) \<and> signals s' = signals s"
proof -
  have inv: "lock_inv s" using run_inv[OF assms(4)] initial_inv[OF assms(1)] by blast
  have wf: "tasks_wf s" using run_wf[OF assms(4,2)] .
  obtain s1 where s1: "(server_step env)\<^sup>*\<^sup>* s s1" "holder s1 = None \<or> holder s1 = Some t"
    "\<forall>u. holder s \<noteq> Some u \<longrightarrow> tasks s1 u = tasks s u" "signals s1 = signals s"
  proof (cases "holder s")
    case None
    then show thesis using that[of s] by simp
  next
    case (Some u)
    then obtain s1 where "(own_step env u)\<^sup>*\<^sup>* s s1" "holder s1 = None" using task_finishes[OF inv wf assms(3), of u] by blast
    then show thesis using that[of s1] own_run[of env u s s1] Some by auto
  qed
  have i1: "lock_inv s1" "tasks_wf s1" using run_lock_inv[OF s1(1) inv] run_wf[OF s1(1) wf] by simp_all
  obtain s' where s': "(server_step env)\<^sup>*\<^sup>* s1 s'" "pc (tasks s' t) = Finished" "holder s' = None" "\<forall>u. u \<noteq> t \<longrightarrow> tasks s' u = tasks s1 u"
    "signals s' = signals s1"
    using task_finishes[OF i1 assms(3) s1(2)] own_run by blast
  have "lock_inv s'" using run_lock_inv[OF s'(1) i1(1)] .
  then have "\<not> locked (io s')" using s'(3) by (simp add: lock_inv_def)
  then show ?thesis using rtranclp_trans[OF s1(1) s'(1)] s' s1(3,4) by (intro exI[of _ s']) auto
qed

theorem every_thread_can_finish_witness:
  "\<exists>s'. (server_step sample_env)\<^sup>*\<^sup>* sample_state s' \<and> pc (tasks s' 0) = Finished \<and> \<not> locked (io s') \<and>
     tasks s' 1 = tasks sample_state 1"
  using every_thread_can_finish[OF sample_initial sample_wf _ rtranclp.rtrancl_refl, of sample_env 0]
  by (auto simp: sample_env_def sample_state_def)

end
