(* ===== verification/Server_Runs.thy ===== *)
theory Server_Runs
  imports Whole_Server Server_Progress
begin

text \<open>
  The sequential main function of the server and the process it starts. \<open>server_main\<close> is told which
  clients come to their end, and stops at a join of one that does not; here its result is shown to
  be one that the process, with its client and timer threads, reaches by steps, and the bound on
  the traversals of the list of threads is shown to be enough.
\<close>

section \<open>Answers of the system\<close>

text \<open>The data of the thread that a round of the accept loop starts.\<close>

definition client_data :: "server_env \<Rightarrow> accept_round \<Rightarrow> thread_data option" where
  "client_data sys r =
     (case (get_client_info (ntop sys) (peer r) (peer_len r) (address_stack r), data_block r) of
        (Inr address, Some uninitialised) \<Rightarrow> Some (uninitialised\<lparr>fd_accept := accepted_fd r, client_address := c_strncpy address INET_ADDRSTRLEN\<rparr>)
      | _ \<Rightarrow> None)"

text \<open>\<open>malloc\<close> answers fresh blocks; nothing is asked of the identifiers that \<open>pthread_create\<close> answers.\<close>

definition node_addrs :: "accept_round list \<Rightarrow> addr list" where
  "node_addrs rs = concat (map (\<lambda>r. case node_block r of None \<Rightarrow> [] | Some (a, _) \<Rightarrow> [a]) rs)"

definition rounds_ok :: "thread_mem \<Rightarrow> accept_round list \<Rightarrow> bool" where
  "rounds_ok m rs \<longleftrightarrow> distinct (node_addrs rs) \<and> (\<forall>a\<in>set (node_addrs rs). node_at m a = None)"

lemma accept_client_cases:
  assumes "accept_client sys r ret m tr = Inr (ret1, m1, tr1)"
  obtains a nd e td where "node_block r = Some (a, nd, e)"
    "insert_node (Some (a, nd, e)) 0 (new_thread r) (pthread_create (new_thread r) m) = Inr m1"
    "client_data sys r = Some td" "tr1 = tr @ [Starts_thread (new_thread r) td]"
proof -
  obtain address where ad: "get_client_info (ntop sys) (peer r) (peer_len r) (address_stack r) = Inr address"
    using assms by (auto simp: accept_client_def or_undefined_def Let_def bindE_def split: if_splits sum.splits)
  obtain u where u: "data_block r = Some u"
    using assms ad by (auto simp: accept_client_def Let_def split: if_splits option.splits)
  obtain a nd e where n: "node_block r = Some (a, nd, e)"
    "insert_node (Some (a, nd, e)) 0 (new_thread r) (pthread_create (new_thread r) m) = Inr m1"
    using accept_client_Inr[OF assms] by metis
  have "tr1 = tr @ [Starts_thread (new_thread r) (u\<lparr>fd_accept := accepted_fd r, client_address := c_strncpy address INET_ADDRSTRLEN\<rparr>)]"
    using assms ad u n by (auto simp: accept_client_def Let_def split: if_splits)
  then show ?thesis using that[OF n(1,2)] ad u by (simp add: client_data_def)
qed

lemma setup_stops: "server_setup sys = Inl (stop, tr) \<Longrightarrow> stop \<noteq> Runs_forever \<and> stop \<noteq> Waits_in_join"
  by (cases "clock_start sys")
    (auto simp: server_setup_def setup_phases bindE_eq_Inl read_options_Inr read_options_Inl Let_def split: if_splits)

section \<open>The rounds of the main function\<close>

definition rest_of_main ::
  "nat \<Rightarrow> server_env \<Rightarrow> accept_round list \<Rightarrow> int \<Rightarrow> thread_mem \<Rightarrow> action list \<Rightarrow> main_stop \<times> action list" where
  "rest_of_main n sys rs ret m tr =
     (case bindE (accept_loop n sys rs ret m tr) (\<lambda>(m1, tr1). stop_server (client_ends sys) n sys m1 tr1)
      of Inl stop \<Rightarrow> stop | Inr tr1 \<Rightarrow> (Exits 0, tr1))"

lemma server_main_rest:
  "server_main sys m = (case server_setup sys of Inl stop \<Rightarrow> stop
     | Inr (ret, tr) \<Rightarrow> rest_of_main (length (rounds sys)) sys (rounds sys) ret (m\<lparr>links_mem := TAILQ_INIT (links_mem m) 0\<rparr>) tr)"
  by (simp add: server_main_def rest_of_main_def bindE_def split: sum.splits prod.splits)

lemma rest_simps:
  "rest_of_main n sys [] ret m tr = (Waits_in_accept, tr)"
  "exit_signal r \<Longrightarrow> rest_of_main n sys (r # rs) ret m tr =
     (case stop_server (client_ends sys) n sys m tr of Inl stop \<Rightarrow> stop | Inr tr1 \<Rightarrow> (Exits 0, tr1))"
  "\<not> exit_signal r \<Longrightarrow> accept_client sys r ret m tr = Inl (stop, tr1) \<Longrightarrow> rest_of_main n sys (r # rs) ret m tr = (stop, tr1)"
  "\<not> exit_signal r \<Longrightarrow> accept_client sys r ret m tr = Inr (ret1, m1, tr1) \<Longrightarrow> 
     check_thread_exit (client_ends sys) n 0 m1 = Inl e \<Longrightarrow>
     rest_of_main n sys (r # rs) ret m tr = (if e = Blocks then Waits_in_join else Undefined e, tr1)"
  "\<not> exit_signal r \<Longrightarrow> accept_client sys r ret m tr = Inr (ret1, m1, tr1) \<Longrightarrow> 
     check_thread_exit (client_ends sys) n 0 m1 = Inr (Some m2) \<Longrightarrow>
     rest_of_main n sys (r # rs) ret m tr = rest_of_main n sys rs ret1 m2 tr1"
  by (simp_all add: rest_of_main_def accept_body_def split: sum.splits)

lemma list_first: "thread_list m 0 (a # as) \<Longrightarrow> TAILQ_FIRST (links_mem m) 0 = Some a"
  using first_ptr[of "links_mem m" 0 "a # as"] by (simp add: thread_list_def)

text \<open>
  A list of one joined client, whose identifier names no thread any more: the release joins it
  again, and so does the walk after a second client, unless that client got the same identifier;
  then the walk joins the second client in place of the first and fails at the second node.
\<close>

definition one_joined :: "thread_mem \<Rightarrow> addr \<Rightarrow> node \<Rightarrow> bool" where
  "one_joined m a nd \<longleftrightarrow> thread_list m 0 [a] \<and> node_at m a = Some nd \<and> node_thread_exit nd \<and>
     joinable m = Map.empty \<and> created m = 1"

lemma first_client:
  assumes "thread_list m 0 []" "joinable m = Map.empty" "created m = 0" "0 < n"
    and "insert_node (Some (a, nd, e)) 0 t (pthread_create t m) = Inr m1"
  shows "thread_list m1 0 [a]" "joinable m1 = [t \<mapsto> 0]"
    "node_at m1 = (node_at m)(a \<mapsto> nd\<lparr>node_thread := t, node_thread_exit := True\<rparr>)"
    "one_joined (after_join t 0 m1) a (nd\<lparr>node_thread := t, node_thread_exit := True\<rparr>)"
    "check_thread_exit ended n 0 m1 = (if ended 0 then Inr (Some (after_join t 0 m1)) else Inl Blocks)"
proof -
  show m1: "thread_list m1 0 [a]" "joinable m1 = [t \<mapsto> 0]"
    "node_at m1 = (node_at m)(a \<mapsto> nd\<lparr>node_thread := t, node_thread_exit := True\<rparr>)"
    and "one_joined (after_join t 0 m1) a (nd\<lparr>node_thread := t, node_thread_exit := True\<rparr>)"
    using insert_node_ok[of "pthread_create t m" 0 "[]" a nd e t] assms by (auto simp: one_joined_def)
  show "check_thread_exit ended n 0 m1 = (if ended 0 then Inr (Some (after_join t 0 m1)) else Inl Blocks)"
    using check_all[OF m1(1), of n ended] assms(4) m1(2,3) by (simp add: check_node_def get_node_def)
qed

lemma second_client:
  assumes "one_joined m a nd1" "node_at m b = None" "1 < n"
    and "insert_node (Some (b, nd, e)) 0 t (pthread_create t m) = Inr m1"
  shows "thread_list m1 0 [a, b]" "joinable m1 = [t \<mapsto> 1]" "node_at m1 a = Some nd1"
    "node_at m1 b = Some (nd\<lparr>node_thread := t, node_thread_exit := True\<rparr>)"
    "check_thread_exit ended n 0 m1 = Inl (if t = node_thread nd1 \<and> \<not> ended 1 then Blocks else Invalid_join)"
proof -
  have a: "thread_list m 0 [a]" "node_at m a = Some nd1" "node_thread_exit nd1" "joinable m = Map.empty" "created m = 1"
    using assms(1) by (auto simp: one_joined_def)
  have ab: "b \<noteq> a" using assms(2) a(2) by auto
  then show m1: "thread_list m1 0 [a, b]" "joinable m1 = [t \<mapsto> 1]" "node_at m1 a = Some nd1"
    "node_at m1 b = Some (nd\<lparr>node_thread := t, node_thread_exit := True\<rparr>)"
    using insert_node_ok[of "pthread_create t m" 0 "[a]" b nd e t] assms(4) a by auto
  show "check_thread_exit ended n 0 m1 = Inl (if t = node_thread nd1 \<and> \<not> ended 1 then Blocks else Invalid_join)"
    using check_all[OF m1(1), of n ended] assms(3) a(3) m1(2-4)
    by (cases "t = node_thread nd1"; cases "ended 1") (simp_all add: check_node_def get_node_def)
qed

lemma one_joined_release:
  assumes "one_joined m a nd"
  shows "stop_server ended (Suc n) sys m tr = Inl (Undefined Invalid_join, tr)"
  using joined_first_blocks_release[of m a "[]" nd ended n] assms by (auto simp: one_joined_def stop_server_def)

lemma empty_release:
  assumes "thread_list m 0 []"
  obtains tr1 where "\<And>ended n. stop_server ended n sys m tr = Inr tr1" "TAILQ_EMPTY (links_mem m) 0"
proof -
  have e: "TAILQ_EMPTY (links_mem m) 0" using assms empty_spec by (auto simp: thread_list_def)
  then have "release_all_thread ended n 0 m = Inr (Some m)" for ended n by (subst release_all_thread.simps) simp
  then show ?thesis using that e by (simp add: stop_server_def)
qed

lemma rounds_ok_rest:
  assumes "rounds_ok m (r # rs)" "node_block r = Some (a, nd, e)" "node_at m' = (node_at m)(a \<mapsto> v)"
  shows "rounds_ok m' rs" "node_at m a = None"
  using assms by (auto simp: rounds_ok_def node_addrs_def)

text \<open>The three ways a round goes: a signal was handled, the round ends the process, a client starts.\<close>

lemma round_cases:
  fixes r :: accept_round and sys :: server_env
  obtains "exit_signal r"
  | stop tr1 where "\<not> exit_signal r" "accept_client sys r ret m tr = Inl (stop, tr1)"
  | ret1 m1 tr1 a nd e where "\<not> exit_signal r" "accept_client sys r ret m tr = Inr (ret1, m1, tr1)" "node_block r = Some (a, nd, e)"
      "insert_node (Some (a, nd, e)) 0 (new_thread r) (pthread_create (new_thread r) m) = Inr m1"
proof (cases "accept_client sys r ret m tr")
  case (Inl st)
  then show ?thesis using that(1) that(2)[of "fst st" "snd st"] by fastforce
next
  case (Inr x)
  then obtain ret1 m1 tr1 where x: "accept_client sys r ret m tr = Inr (ret1, m1, tr1)" by (cases x) auto
  then show ?thesis using that(1) that(3)[OF _ x] by (cases rule: accept_client_cases) blast
qed

text \<open>The results of the main function; it waits in a join only for a client that does not end.\<close>

definition result_ok :: "server_env \<Rightarrow> main_stop \<Rightarrow> bool" where
  "result_ok sys stop \<longleftrightarrow> stop \<noteq> Runs_forever \<and> (stop = Waits_in_join \<longrightarrow> \<not> client_ends sys 0 \<or> \<not> client_ends sys 1)"

lemma accept_client_result: "accept_client sys r ret m tr = Inl (stop, tr1) \<Longrightarrow> result_ok sys' stop"
  using accept_client_Inl by (auto simp: result_ok_def)

lemma served_end:
  assumes "one_joined m a nd" "rounds_ok m rs" "length rs < n"
  shows "result_ok sys (fst (rest_of_main n sys rs ret m tr))"
proof (cases rs)
  case (Cons r rs')
  obtain k where n: "n = Suc k" using assms(3) by (cases n) auto
  show ?thesis
  proof (cases rule: round_cases[where r = r and sys = sys and ret = ret and m = m and tr = tr])
    case 1
    then show ?thesis using one_joined_release[OF assms(1)] Cons n by (simp add: rest_simps result_ok_def)
  next
    case (2 stop tr1)
    then show ?thesis using accept_client_result[OF 2(2)] Cons by (simp add: rest_simps)
  next
    case (3 ret1 m1 tr1 b nd' e)
    have "node_at m b = None" "1 < n" using assms(2,3) Cons 3(3) by (auto simp: rounds_ok_def node_addrs_def)
    from second_client(5)[OF assms(1) this 3(4)] show ?thesis using rest_simps(4)[OF 3(1,2)] Cons by (simp add: result_ok_def)
  qed
qed (simp add: rest_simps result_ok_def)

lemma fresh_end:
  assumes "thread_list m 0 []" "joinable m = Map.empty" "created m = 0" "rounds_ok m rs" "length rs \<le> n"
  shows "result_ok sys (fst (rest_of_main n sys rs ret m tr))"
proof (cases rs)
  case (Cons r rs')
  show ?thesis
  proof (cases rule: round_cases[where r = r and sys = sys and ret = ret and m = m and tr = tr])
    case 1
    obtain tr1 where "stop_server (client_ends sys) n sys m tr = Inr tr1" using empty_release[OF assms(1)] by metis
    then show ?thesis using 1 Cons by (simp add: rest_simps result_ok_def)
  next
    case (2 stop tr1)
    then show ?thesis using accept_client_result[OF 2(2)] Cons by (simp add: rest_simps)
  next
    case (3 ret1 m1 tr1 a nd e)
    have "0 < n" using assms(5) Cons by simp
    note m1 = first_client[OF assms(1-3) this 3(4)]
    show ?thesis
    proof (cases "client_ends sys 0")
      case True
      have "rounds_ok (after_join (new_thread r) 0 m1) rs'"
        using rounds_ok_rest(1)[OF assms(4)[unfolded Cons] 3(3)] m1(3) by simp
      then have "result_ok sys (fst (rest_of_main n sys rs' ret1 (after_join (new_thread r) 0 m1) tr1))"
        by (rule served_end[OF m1(4)]) (use assms(5) Cons in simp)
      then show ?thesis using rest_simps(5)[OF 3(1,2)] m1(5)[of "client_ends sys"] True Cons by simp
    next
      case False
      then show ?thesis using rest_simps(4)[OF 3(1,2)] m1(5)[of "client_ends sys"] Cons by (simp add: result_ok_def)
    qed
  qed
qed (simp add: rest_simps result_ok_def)

section \<open>Runs of the process\<close>

lemma own_steps_run:
  assumes "(own_step env t)\<^sup>*\<^sup>* s s'" "server w = s" "t \<in> set (clients w)"
  shows "(process_step sys env)\<^sup>*\<^sup>* w (w\<lparr>server := s'\<rparr>)"
  using assms(1)
proof (induction rule: rtranclp_induct)
  case base
  then show ?case by (simp flip: assms(2))
next
  case (step s1 s2)
  have "process_step sys env (w\<lparr>server := s1\<rparr>) (w\<lparr>server := s1\<rparr>\<lparr>server := s2\<rparr>)"
    by (rule run_thread) (use step.hyps(2) assms(3) in \<open>auto simp: own_step_def\<close>)
  then show ?case using step.IH by (auto intro: rtranclp.rtrancl_into_rtrancl)
qed

text \<open>
  Where the process stands when the main function has the given result: in \<open>accept\<close>, at a node whose
  thread it cannot join yet, or at its end.
\<close>

fun stands_at :: "process \<Rightarrow> main_stop \<Rightarrow> bool" where
  "stands_at w Waits_in_accept \<longleftrightarrow> main_at w = Accepting"
| "stands_at w Waits_in_join \<longleftrightarrow> (\<exists>a nd. main_at w = Checking (Some a) \<and> get_node (list_mem w) a = Inr nd \<and>
     node_thread_exit nd \<and> pthread_join (finished w) (node_thread nd) (list_mem w) = Inl Blocks)"
| "stands_at w stop \<longleftrightarrow> main_at w = Main_ended stop"

definition reaches :: "server_env \<Rightarrow> libc_env \<Rightarrow> process \<Rightarrow> main_stop \<times> action list \<Rightarrow> bool" where
  "reaches sys env w r \<longleftrightarrow> fst r \<noteq> Runs_forever \<and>
     (\<exists>w'. (process_step sys env)\<^sup>*\<^sup>* w w' \<and> stands_at w' (fst r) \<and> actions w' = snd r)"

lemma reaches_step: "process_step sys env w w1 \<Longrightarrow> reaches sys env w1 r \<Longrightarrow> reaches sys env w r"
  unfolding reaches_def by (metis converse_rtranclp_into_rtranclp)

lemma reaches_run: "(process_step sys env)\<^sup>*\<^sup>* w w1 \<Longrightarrow> reaches sys env w1 r \<Longrightarrow> reaches sys env w r"
  unfolding reaches_def by (metis rtranclp_trans)

lemma reaches_here: "stands_at w stop \<Longrightarrow> stop \<noteq> Runs_forever \<Longrightarrow> actions w = tr \<Longrightarrow> reaches sys env w (stop, tr)"
  unfolding reaches_def by auto

text \<open>The tasks of the rounds to come have not begun and hold the data of their client.\<close>

definition tasks_ready :: "server_env \<Rightarrow> server_state \<Rightarrow> nat \<Rightarrow> accept_round list \<Rightarrow> bool" where
  "tasks_ready sys s k rs \<longleftrightarrow> (\<forall>i<length rs. pc (tasks s (k + i)) = Started \<and>
     (\<forall>td. client_data sys (rs ! i) = Some td \<longrightarrow> data (tasks s (k + i)) = td))"

lemma tasks_ready_first:
  assumes "tasks_ready sys s k (r # rs)"
  shows "pc (tasks s k) = Started" "client_data sys r = Some td \<Longrightarrow> data (tasks s k) = td"
  using assms by (auto simp: tasks_ready_def)

lemma tasks_ready_rest:
  assumes "tasks_ready sys s k (r # rs)" "\<And>t. k < t \<Longrightarrow> tasks s' t = tasks s t"
  shows "tasks_ready sys s' (Suc k) rs"
  using assms(1) unfolding tasks_ready_def by (auto simp: assms(2) dest: spec[of _ "Suc _"])

text \<open>The condition of the accept loop without a signal, and with one that arrives just before.\<close>

lemma waiting_round:
  assumes "main_at w = Loop_test" "\<not> EXIT_SIGNAL (signals (server w))" "reaches sys env (w\<lparr>main_at := Accepting\<rparr>) r"
  shows "reaches sys env w r"
  using reaches_step[OF enters_accept[OF assms(1,2)] assms(3)] .

lemma leaving_round:
  assumes "main_at w = Loop_test" "\<And>g. reaches sys env (w\<lparr>server := (server w)\<lparr>signals := g\<rparr>, main_at := Releasing\<rparr>) r"
  shows "reaches sys env w r"
proof -
  obtain g where g: "sigint_handler SIGINT (signals (server w)) = Handler_returns g" "EXIT_SIGNAL g"
    using interrupt_returns by blast
  let ?w = "w\<lparr>server := (server w)\<lparr>signals := g\<rparr>\<rparr>"
  have "process_step sys env w ?w" by (rule run_thread[OF signal_arrives[OF g(1)]]) simp
  moreover have "process_step sys env ?w (?w\<lparr>main_at := Releasing\<rparr>)"
    by (rule leave_loop) (use assms(1) g(2) in simp_all)
  ultimately show ?thesis using reaches_step assms(2)[of g] by simp
qed

lemma failing_round:
  assumes "main_at w = Loop_test" "\<not> EXIT_SIGNAL (signals (server w))"
    and "accept_client sys r (main_ret w) (list_mem w) (actions w) = Inl (stop, tr)"
  shows "reaches sys env w (stop, tr)"
proof (rule waiting_round[OF assms(1,2)])
  have "process_step sys env (w\<lparr>main_at := Accepting\<rparr>) (w\<lparr>main_at := Accepting\<rparr>\<lparr>actions := tr, main_at := Main_ended stop\<rparr>)"
    by (rule start_fails[where r = r]) (use assms(3) in simp_all)
  moreover have "stands_at (w\<lparr>main_at := Accepting\<rparr>\<lparr>actions := tr, main_at := Main_ended stop\<rparr>) stop"
    using accept_client_Inl[OF assms(3)] by (cases stop) simp_all
  ultimately show "reaches sys env (w\<lparr>main_at := Accepting\<rparr>) (stop, tr)"
    using accept_client_Inl(4)[OF assms(3)] by (rule reaches_step[OF _ reaches_here]) simp
qed

text \<open>A client is started, the list begins with the node \<open>b\<close> then, and the walk stands there.\<close>

lemma starting_round:
  assumes "main_at w = Loop_test" "\<not> EXIT_SIGNAL (signals (server w))"
    and "accept_client sys r (main_ret w) (list_mem w) (actions w) = Inr (ret, m, tr)"
    and "tasks_ready sys (server w) (created (list_mem w)) (r # rs)"
    and "node_block r = Some (a, nd, e)" "node_at (list_mem w) a = None" "thread_list m 0 (b # bs)"
    and "reaches sys env (w\<lparr>list_mem := m, main_ret := ret, actions := tr, clients := clients w @ [created (list_mem w)],
       main_at := Checking (Some b)\<rparr>) res"
  shows "reaches sys env w res"
proof (rule waiting_round[OF assms(1,2)])
  let ?w = "w\<lparr>main_at := Accepting\<rparr>" and ?k = "created (list_mem w)"
  obtain td where td: "client_data sys r = Some td" "tr = actions w @ [Starts_thread (new_thread r) td]"
    using accept_client_cases[OF assms(3)] by metis
  have "process_step sys env ?w (?w\<lparr>list_mem := m, main_ret := ret, actions := tr, clients := clients ?w @ [?k],
      main_at := Checking (TAILQ_FIRST (links_mem m) 0)\<rparr>)"
    by (rule start_client[where r = r])
      (use assms(3,5,6) tasks_ready_first[OF assms(4)] td in simp_all)
  then show "reaches sys env ?w res" using reaches_step assms(8) list_first[OF assms(7)] by simp
qed

text \<open>A client that ends runs to its end before the main thread joins it.\<close>

lemma client_runs:
  assumes "lock_inv (server w)" "tasks_wf (server w)" "reopen_ok env" "holder (server w) = None" "t \<in> set (clients w)"
  obtains s where "(process_step sys env)\<^sup>*\<^sup>* w (w\<lparr>server := s\<rparr>)" "finished (w\<lparr>server := s\<rparr>) t"
    "lock_inv s" "tasks_wf s" "holder s = None" "signals s = signals (server w)" "\<And>u. u \<noteq> t \<Longrightarrow> tasks s u = tasks (server w) u"
proof -
  obtain s where s: "(own_step env t)\<^sup>*\<^sup>* (server w) s" "pc (tasks s t) = Finished" "holder s = None"
    using task_finishes[OF assms(1-3), of t] assms(4) by blast
  have r: "(server_step env)\<^sup>*\<^sup>* (server w) s" using own_run[OF s(1)] by blast
  have "lock_inv s" "tasks_wf s" using run_lock_inv[OF r assms(1)] run_wf[OF r assms(2)] .
  then show ?thesis using that[of s] own_steps_run[OF s(1) refl assms(5)] own_run[OF s(1)] s(2,3) by (simp add: finished_def)
qed

text \<open>The walk over two nodes after the second client.\<close>

lemma second_walk:
  assumes "main_at w = Checking (Some a)" "list_mem w = m" "thread_list m 0 [a, b]" "joinable m = [t \<mapsto> 1]"
    and "node_at m a = Some nd1" "node_thread_exit nd1" "node_at m b = Some nd2" "node_thread_exit nd2" "node_thread nd2 = t"
    and "lock_inv (server w)" "tasks_wf (server w)" "reopen_ok env" "holder (server w) = None"
    and "1 \<in> set (clients w)" "pc (tasks (server w) 1) = Started"
  shows "reaches sys env w (if t = node_thread nd1 \<and> \<not> client_ends sys 1 then Waits_in_join else Undefined Invalid_join, actions w)"
proof (cases "t = node_thread nd1")
  case False
  have "process_step sys env w (w\<lparr>main_at := Main_ended (Undefined Invalid_join)\<rparr>)"
    by (rule check_fails[of _ a nd1]) (use assms(1-6) False in \<open>simp_all add: get_node_def\<close>)
  then show ?thesis using False by (simp add: reaches_step reaches_here)
next
  case True
  show ?thesis
  proof (cases "client_ends sys 1")
    case False
    have "\<not> finished w 1" using assms(15) by (simp add: finished_def)
    then have "stands_at w Waits_in_join" using assms(1-6) True by (simp add: get_node_def)
    then show ?thesis using True False by (simp add: reaches_here)
  next
    case e: True
    obtain s where s: "(process_step sys env)\<^sup>*\<^sup>* w (w\<lparr>server := s\<rparr>)" "finished (w\<lparr>server := s\<rparr>) 1"
      using client_runs[OF assms(10-14)] by metis
    let ?w2 = "w\<lparr>server := s\<rparr>\<lparr>list_mem := after_join t 1 m, main_at := Checking (Some b)\<rparr>"
    have "TAILQ_NEXT (links_mem m) (Some a) = Inr (Some b)"
      using next_ptr[of "links_mem m" 0 "[]" a "[b]"] assms(3) by (simp add: thread_list_def)
    then have s2: "process_step sys env (w\<lparr>server := s\<rparr>) ?w2"
      by (intro check_joins[of _ a nd1]) (use assms(1,2,4-6) s(2) True in \<open>simp_all add: get_node_def\<close>)
    have "process_step sys env ?w2 (?w2\<lparr>main_at := Main_ended (Undefined Invalid_join)\<rparr>)"
      by (rule check_fails[of _ b nd2]) (use assms(4,7-9) in \<open>simp_all add: get_node_def\<close>)
    then have "reaches sys env ?w2 (Undefined Invalid_join, actions w)" by (simp add: reaches_step reaches_here)
    then show ?thesis using e reaches_run[OF s(1) reaches_step[OF s2]] by simp
  qed
qed

text \<open>The rounds after the first client has been served and joined.\<close>

lemma served_rounds:
  assumes "main_at w = Loop_test" "\<not> EXIT_SIGNAL (signals (server w))" "list_mem w = m" "one_joined m a nd" "clients w = [0]"
    and "rounds_ok m rs" "tasks_ready sys (server w) 1 rs" "length rs < n"
    and "lock_inv (server w)" "tasks_wf (server w)" "reopen_ok env" "holder (server w) = None"
  shows "reaches sys env w (rest_of_main n sys rs (main_ret w) m (actions w))"
proof (cases rs)
  case Nil
  then show ?thesis by (intro waiting_round[OF assms(1,2)]) (simp add: rest_simps reaches_here)
next
  case (Cons r rs')
  obtain k where n: "n = Suc k" using assms(8) by (cases n) auto
  have l: "thread_list m 0 [a]" "node_at m a = Some nd" "node_thread_exit nd" "joinable m = Map.empty" "created m = 1"
    using assms(4) by (auto simp: one_joined_def)
  show ?thesis
  proof (cases rule: round_cases[where r = r and sys = sys and ret = "main_ret w" and m = m and tr = "actions w"])
    case 1
    have "reaches sys env (w\<lparr>server := (server w)\<lparr>signals := g\<rparr>, main_at := Releasing\<rparr>) (Undefined Invalid_join, actions w)" for g
      by (rule reaches_step[OF release_fails[of _ a nd]])
        (use list_first[OF l(1)] l assms(3) in \<open>simp_all add: get_node_def\<close>, auto intro!: reaches_here)
    then have "reaches sys env w (Undefined Invalid_join, actions w)" by (rule leaving_round[OF assms(1)])
    then show ?thesis using one_joined_release[OF assms(4)] 1 Cons n by (simp add: rest_simps)
  next
    case (2 stop tr)
    then show ?thesis using failing_round[OF assms(1,2)] Cons assms(3) by (simp add: rest_simps)
  next
    case (3 ret m1 tr b nd' e)
    have f: "node_at m b = None" "1 < n" using assms(6,8) Cons 3(3) by (auto simp: rounds_ok_def node_addrs_def)
    note sc = second_client[OF assms(4) f 3(4)]
    let ?w = "w\<lparr>list_mem := m1, main_ret := ret, actions := tr, clients := clients w @ [created (list_mem w)], main_at := Checking (Some a)\<rparr>"
    have "pc (tasks (server w) 1) = Started" using tasks_ready_first(1) assms(7) Cons by blast
    then have "reaches sys env ?w (if new_thread r = node_thread nd \<and> \<not> client_ends sys 1 then Waits_in_join else Undefined Invalid_join, actions ?w)"
      by (intro second_walk[OF _ _ sc(1-3) l(3) sc(4)]) (use assms(3,9-12) l(5) in simp_all)
    then have "reaches sys env w (if new_thread r = node_thread nd \<and> \<not> client_ends sys 1 then Waits_in_join else Undefined Invalid_join, tr)"
      by (intro starting_round[OF assms(1,2) _ _ 3(3) _ sc(1)]) (use 3(2) assms(3,7) l(5) Cons f(1) in simp_all)
    then show ?thesis using rest_simps(4)[OF 3(1,2) sc(5)] Cons by (cases "new_thread r = node_thread nd \<and> \<not> client_ends sys 1") auto
  qed
qed

text \<open>The walk over one node after the first client.\<close>

lemma first_walk:
  assumes "main_at w = Checking (Some a)" "list_mem w = m" "thread_list m 0 [a]" "joinable m = [t \<mapsto> 0]"
    and "node_at m a = Some nd" "node_thread_exit nd" "node_thread nd = t" "finished w 0"
  shows "(process_step sys env)\<^sup>*\<^sup>* w (w\<lparr>list_mem := after_join t 0 m, main_at := Loop_test\<rparr>)"
proof -
  have "TAILQ_NEXT (links_mem m) (Some a) = Inr None"
    using next_ptr[of "links_mem m" 0 "[]" a "[]"] assms(3) by (simp add: thread_list_def)
  then have "process_step sys env w (w\<lparr>list_mem := after_join t 0 m, main_at := Checking None\<rparr>)"
    by (intro check_joins[of _ a nd]) (use assms in \<open>simp_all add: get_node_def\<close>)
  moreover have "process_step sys env (w\<lparr>list_mem := after_join t 0 m, main_at := Checking None\<rparr>)
      (w\<lparr>list_mem := after_join t 0 m, main_at := Loop_test\<rparr>)"
    using check_ends[of "w\<lparr>list_mem := after_join t 0 m, main_at := Checking None\<rparr>" sys env] by simp
  ultimately show ?thesis by (meson converse_rtranclp_into_rtranclp r_into_rtranclp)
qed

text \<open>All rounds, from an empty list on.\<close>

lemma fresh_rounds:
  assumes "main_at w = Loop_test" "\<not> EXIT_SIGNAL (signals (server w))" "list_mem w = m" "clients w = []"
    and "thread_list m 0 []" "joinable m = Map.empty" "created m = 0"
    and "rounds_ok m rs" "tasks_ready sys (server w) 0 rs" "length rs \<le> n"
    and "lock_inv (server w)" "tasks_wf (server w)" "reopen_ok env" "holder (server w) = None"
  shows "reaches sys env w (rest_of_main n sys rs (main_ret w) m (actions w))"
proof (cases rs)
  case Nil
  then show ?thesis by (intro waiting_round[OF assms(1,2)]) (simp add: rest_simps reaches_here)
next
  case (Cons r rs')
  show ?thesis
  proof (cases rule: round_cases[where r = r and sys = sys and ret = "main_ret w" and m = m and tr = "actions w"])
    case 1
    obtain tr where e: "\<And>ended k. stop_server ended k sys m (actions w) = Inr tr" "TAILQ_EMPTY (links_mem m) 0"
      using empty_release[OF assms(5), of sys "actions w"] by metis
    have "reaches sys env (w\<lparr>server := (server w)\<lparr>signals := g\<rparr>, main_at := Releasing\<rparr>) (Exits 0, tr)" for g
      by (rule reaches_step[OF release_ends]) (use e assms(3) in simp_all, auto intro!: reaches_here)
    then have "reaches sys env w (Exits 0, tr)" by (rule leaving_round[OF assms(1)])
    then show ?thesis using e 1 Cons by (simp add: rest_simps)
  next
    case (2 stop tr)
    then show ?thesis using failing_round[OF assms(1,2)] Cons assms(3) by (simp add: rest_simps)
  next
    case (3 ret m1 tr a nd e)
    let ?t = "new_thread r" and ?nd = "nd\<lparr>node_thread := new_thread r, node_thread_exit := True\<rparr>"
    have "0 < n" using assms(10) Cons by simp
    note m1 = first_client[OF assms(5-7) this 3(4)]
    have ok: "rounds_ok (after_join ?t 0 m1) rs'" "node_at m a = None"
      using rounds_ok_rest[OF assms(8)[unfolded Cons] 3(3)] m1(3) by auto
    let ?w = "w\<lparr>list_mem := m1, main_ret := ret, actions := tr, clients := clients w @ [created (list_mem w)], main_at := Checking (Some a)\<rparr>"
    have start: "reaches sys env w res" if "reaches sys env ?w res" for res
      by (rule starting_round[OF assms(1,2) _ _ 3(3) _ m1(1) that]) (use 3(2) assms(3,7,9) Cons ok(2) in simp_all)
    show ?thesis
    proof (cases "client_ends sys 0")
      case False
      have "pc (tasks (server w) 0) = Started" using tasks_ready_first(1) assms(9) Cons by blast
      then have "stands_at ?w Waits_in_join" using m1(2,3) by (simp add: get_node_def finished_def)
      then have "reaches sys env ?w (Waits_in_join, tr)" by (simp add: reaches_here)
      then show ?thesis using start rest_simps(4)[OF 3(1,2)] m1(5)[of "client_ends sys"] False Cons by simp
    next
      case True
      obtain s where s: "(process_step sys env)\<^sup>*\<^sup>* ?w (?w\<lparr>server := s\<rparr>)" "finished (?w\<lparr>server := s\<rparr>) 0"
        "lock_inv s" "tasks_wf s" "holder s = None" "signals s = signals (server w)" "\<And>u. u \<noteq> 0 \<Longrightarrow> tasks s u = tasks (server w) u"
        using client_runs[of ?w env 0 sys] assms(3,7,11-14) by auto
      let ?w4 = "?w\<lparr>server := s\<rparr>\<lparr>list_mem := after_join ?t 0 m1, main_at := Loop_test\<rparr>"
      have walk: "(process_step sys env)\<^sup>*\<^sup>* (?w\<lparr>server := s\<rparr>) ?w4"
        by (rule first_walk[OF _ _ m1(1,2), where nd = ?nd]) (use m1(3) s(2) in simp_all)
      have ready: "tasks_ready sys s 1 rs'" using tasks_ready_rest[of sys "server w" 0 r rs' s] s(7) assms(9) Cons by simp
      have "reaches sys env ?w4 (rest_of_main n sys rs' (main_ret ?w4) (after_join ?t 0 m1) (actions ?w4))"
        by (rule served_rounds[OF _ _ _ m1(4)]) (use ok(1) ready s(3-6) assms(2-4,7,10,13) Cons in simp_all)
      then have "reaches sys env w (rest_of_main n sys rs' ret (after_join ?t 0 m1) tr)"
        using start[OF reaches_run[OF s(1) reaches_run[OF walk]]] by simp
      then show ?thesis using rest_simps(5)[OF 3(1,2)] m1(5)[of "client_ends sys"] True Cons by simp
    qed
  qed
qed

section \<open>Properties\<close>

text \<open>
  A process after the setup: the threads of the rounds are ready to begin, in the order of the rounds
  and with the data of their client, and everything else is a timer thread that was not scheduled
  yet.
\<close>

definition started_process :: "server_env \<Rightarrow> server_io \<Rightarrow> byte list \<Rightarrow> thread_mem \<Rightarrow> int \<Rightarrow> action list \<Rightarrow> process" where
  "started_process sys i frame m ret tr =
     \<lparr>server = \<lparr>io = i, signals = \<lparr>EXIT_SIGNAL = False, syslog_lines = []\<rparr>,
        tasks = (\<lambda>t. \<lparr>pc = (if t < length (rounds sys) then Started else Timer_ready), buf = frame,
          data = (case if t < length (rounds sys) then client_data sys (rounds sys ! t) else None of
            None \<Rightarrow> \<lparr>thread_exit = False, fd_accept = 0, client_address = [NUL]\<rparr> | Some td \<Rightarrow> td),
          flushed = False, written = [], reply = []\<rparr>), holder = None, order = []\<rparr>,
      list_mem = m, main_at = Loop_test, main_ret = ret, actions = tr, clients = []\<rparr>"

definition addresses_terminated :: "server_env \<Rightarrow> bool" where
  "addresses_terminated sys \<longleftrightarrow> (\<forall>r\<in>set (rounds sys).
     case client_data sys r of None \<Rightarrow> True | Some td \<Rightarrow> NUL \<in> set (client_address td))"

lemma started_process_ready:
  assumes "\<not> locked i" "BUFLEN < length frame" "addresses_terminated sys"
    and s_def: "s = server (started_process sys i frame m ret tr)"
  shows "initial s" "tasks_wf s" "tasks_ready sys s 0 (rounds sys)"
proof -
  show "initial s" using assms(1) by (simp add: s_def started_process_def initial_def)
  show "tasks_ready sys s 0 (rounds sys)" by (simp add: tasks_ready_def s_def started_process_def)
  have "NUL \<in> set (client_address (data (tasks s t)))" for t
    using assms(3) nth_mem[of t "rounds sys"] unfolding addresses_terminated_def s_def started_process_def
    by (fastforce split: option.split)
  moreover have "BUFLEN < length (buf (tasks s t))" "pc (tasks s t) = Started \<or> pc (tasks s t) = Timer_ready" for t
    using assms(2) by (simp_all add: s_def started_process_def)
  ultimately have "task_wf (tasks s t)" for t unfolding task_wf_def by (metis frame_wf.simps)
  then show "tasks_wf s" by (simp add: tasks_wf_def)
qed

text \<open>
  (C21) The bound on the traversals is enough: for answers of \<open>malloc\<close> that are fresh blocks and whatever
  identifiers \<open>pthread_create\<close> answers, no walk over the list of threads runs out of the number of
  rounds, so the main function ends with a status, waits in \<open>accept\<close>, waits in a join or has
  undefined behaviour, but does not loop. It waits in a join only if one of the first two
  clients does not come to its end; the result for a first client that does not is exactly that.
\<close>

theorem server_main_ends:
  assumes "rounds_ok m (rounds sys)" "joinable m = Map.empty" "created m = 0"
  shows "fst (server_main sys m) \<noteq> Runs_forever \<and>
    (fst (server_main sys m) = Waits_in_join \<longrightarrow> \<not> client_ends sys 0 \<or> \<not> client_ends sys 1) \<and>
    (\<forall>ret tr r rs x. server_setup sys = Inr (ret, tr) \<and> rounds sys = r # rs \<and> \<not> exit_signal r \<and> \<not> client_ends sys 0 \<and>
       accept_client sys r ret (m\<lparr>links_mem := TAILQ_INIT (links_mem m) 0\<rparr>) tr = Inr x \<longrightarrow>
         server_main sys m = (Waits_in_join, snd (snd x)))"
proof -
  let ?m = "m\<lparr>links_mem := TAILQ_INIT (links_mem m) 0\<rparr>"
  have l: "thread_list ?m 0 []" "joinable ?m = Map.empty" "created ?m = 0" using init_empty assms(2,3) by (simp_all add: thread_list_def)
  have "result_ok sys (fst (server_main sys m))"
  proof (cases "server_setup sys")
    case (Inl st)
    then show ?thesis using setup_stops[of sys "fst st" "snd st"] by (simp add: server_main_rest result_ok_def)
  next
    case (Inr rt)
    have "result_ok sys (fst (rest_of_main (length (rounds sys)) sys (rounds sys) ret ?m tr))" for ret tr
      by (rule fresh_end[OF l]) (use assms in \<open>simp_all add: rounds_ok_def\<close>)
    then show ?thesis using Inr by (cases rt) (simp add: server_main_rest)
  qed
  moreover have "server_main sys m = (Waits_in_join, snd (snd x))"
    if h: "server_setup sys = Inr (ret, tr)" "rounds sys = r # rs" "\<not> exit_signal r" "\<not> client_ends sys 0" "accept_client sys r ret ?m tr = Inr x"
    for ret tr r rs x
  proof -
    have x: "accept_client sys r ret ?m tr = Inr (fst x, fst (snd x), snd (snd x))" using h(5) by simp
    obtain a nd e where a: "insert_node (Some (a, nd, e)) 0 (new_thread r) (pthread_create (new_thread r) ?m) = Inr (fst (snd x))"
      using accept_client_cases[OF x] by metis
    have "check_thread_exit (client_ends sys) (length (rounds sys)) 0 (fst (snd x)) = Inl Blocks"
      using first_client(5)[OF l _ a] h(2,4) by simp
    from rest_simps(4)[OF h(3) x this] show ?thesis using h(1,2) by (simp add: server_main_rest)
  qed
  ultimately show ?thesis unfolding result_ok_def by blast
qed

text \<open>
  A server that serves one client and is then told to stop, one whose two clients get the same
  identifier, and one whose client does not end.
\<close>

definition two_rounds :: server_env where
  "two_rounds = sample_server\<lparr>rounds := [sample_round, sample_round\<lparr>exit_signal := True, node_block := sample_block 2\<rparr>]\<rparr>"

definition two_clients :: server_env where
  "two_clients = sample_server\<lparr>rounds := [sample_round, sample_round\<lparr>node_block := sample_block 2\<rparr>]\<rparr>"

lemma sample_memory: "joinable sample_threads = Map.empty" "created sample_threads = 0" "joined sample_threads = []"
  by (simp_all add: sample_threads_def)

lemma two_rounds_answers:
  "rounds_ok sample_threads (rounds two_rounds)" "addresses_terminated two_rounds"
  "server_setup two_rounds = Inr (0, setup_actions sample_server \<lparr>tv_sec = 5, tv_nsec = 0\<rparr>)"
  by code_simp+

lemma two_clients_answers:
  "rounds_ok sample_threads (rounds (two_clients\<lparr>client_ends := (\<lambda>k. k = 0)\<rparr>))"
  "addresses_terminated (two_clients\<lparr>client_ends := (\<lambda>k. k = 0)\<rparr>)"
  "server_setup (two_clients\<lparr>client_ends := (\<lambda>k. k = 0)\<rparr>) = Inr (0, setup_actions sample_server \<lparr>tv_sec = 5, tv_nsec = 0\<rparr>)"
  "fst (server_main (two_clients\<lparr>client_ends := (\<lambda>k. k = 0)\<rparr>) sample_threads) = Waits_in_join"
  by code_simp+

theorem server_main_ends_witness:
  "fst (server_main two_rounds sample_threads) = Undefined Invalid_join \<and>
   fst (server_main (two_rounds\<lparr>client_ends := (\<lambda>_. False)\<rparr>) sample_threads) = Waits_in_join \<and>
   fst (server_main two_rounds sample_threads) \<noteq> Runs_forever"
proof -
  have "fst (server_main two_rounds sample_threads) = Undefined Invalid_join"
    "fst (server_main (two_rounds\<lparr>client_ends := (\<lambda>_. False)\<rparr>) sample_threads) = Waits_in_join" by code_simp+
  then show ?thesis using server_main_ends[OF two_rounds_answers(1) sample_memory(1,2)] by blast
qed

text \<open>
  (C6) The main function is a run of the process: for a successful setup, an empty memory of threads,
  fresh node blocks, terminated client addresses and a successful reopening of the file, and whatever
  identifiers \<open>pthread_create\<close> answers, the process reaches, by steps of the main thread, the clients
  and the timers, a state in which the main thread has done exactly the actions of \<open>server_main\<close> and
  stands where it does: it has ended with its status or undefined behaviour, is back in \<open>accept\<close>,
  or waits in a join for a client that has not finished.
\<close>

theorem server_main_is_a_run:
  assumes "server_setup sys = Inr (ret, tr)" "rounds_ok m (rounds sys)" "joinable m = Map.empty" "created m = 0" "joined m = []"
    and "addresses_terminated sys" "reopen_ok env"
  shows "\<exists>w w'. process_start sys w \<and> (process_step sys env)\<^sup>*\<^sup>* w w' \<and>
    stands_at w' (fst (server_main sys m)) \<and> actions w' = snd (server_main sys m)"
proof -
  let ?m = "m\<lparr>links_mem := TAILQ_INIT (links_mem m) 0\<rparr>"
  let ?w = "started_process sys \<lparr>locked = False, fp = \<lparr>on_disk = [], pending = []\<rparr>, delivered = (\<lambda>_. []), fd_open = (\<lambda>_. True), messages = []\<rparr>
    (replicate 130 NUL) ?m ret tr"
  have s: "initial (server ?w)" "tasks_wf (server ?w)" "tasks_ready sys (server ?w) 0 (rounds sys)"
    using started_process_ready[OF _ _ assms(6) refl] by (simp_all add: BUFLEN_def)
  have l: "thread_list ?m 0 []" using init_empty by (simp add: thread_list_def)
  have w: "main_at ?w = Loop_test" "\<not> EXIT_SIGNAL (signals (server ?w))" "list_mem ?w = ?m" "clients ?w = []"
    "main_ret ?w = ret" "actions ?w = tr"
    by (simp_all add: started_process_def)
  have "process_start sys ?w" using s(1) assms(1,3-5) l w by (simp add: process_start_def)
  moreover have "reaches sys env ?w (rest_of_main (length (rounds sys)) sys (rounds sys) ret ?m tr)"
  proof -
    have inv: "lock_inv (server ?w)" "holder (server ?w) = None" using initial_inv[OF s(1)] by (simp_all add: started_process_def)
    have m: "joinable ?m = Map.empty" "created ?m = 0" "rounds_ok ?m (rounds sys)" using assms(2-4) by (simp_all add: rounds_ok_def)
    from fresh_rounds[OF w(1-4) l m s(3) order.refl inv(1) s(2) assms(7) inv(2)] w(5,6) show ?thesis by simp
  qed
  moreover have "server_main sys m = rest_of_main (length (rounds sys)) sys (rounds sys) ret ?m tr"
    using assms(1) by (simp add: server_main_rest)
  ultimately show ?thesis unfolding reaches_def by metis
qed

text \<open>Both for a shutdown and for a second client that got the identifier of the first and does not end.\<close>

theorem server_main_is_a_run_witness:
  "(\<exists>w w'. process_start two_rounds w \<and> (process_step two_rounds sample_env)\<^sup>*\<^sup>* w w' \<and>
      main_at w' = Main_ended (Undefined Invalid_join)) \<and>
   (\<exists>w w' a. process_start (two_clients\<lparr>client_ends := (\<lambda>k. k = 0)\<rparr>) w \<and>
      (process_step (two_clients\<lparr>client_ends := (\<lambda>k. k = 0)\<rparr>) sample_env)\<^sup>*\<^sup>* w w' \<and> main_at w' = Checking (Some a))"
proof (rule conjI)
  have e: "reopen_ok sample_env" by (simp add: sample_env_def)
  have "fst (server_main two_rounds sample_threads) = Undefined Invalid_join" by code_simp
  then show "\<exists>w w'. process_start two_rounds w \<and> (process_step two_rounds sample_env)\<^sup>*\<^sup>* w w' \<and>
      main_at w' = Main_ended (Undefined Invalid_join)"
    using server_main_is_a_run[OF two_rounds_answers(3,1) sample_memory two_rounds_answers(2) e] by auto
  show "\<exists>w w' a. process_start (two_clients\<lparr>client_ends := (\<lambda>k. k = 0)\<rparr>) w \<and>
      (process_step (two_clients\<lparr>client_ends := (\<lambda>k. k = 0)\<rparr>) sample_env)\<^sup>*\<^sup>* w w' \<and> main_at w' = Checking (Some a)"
    using server_main_is_a_run[OF two_clients_answers(3,1) sample_memory two_clients_answers(2) e] two_clients_answers(4) by auto
qed

end
