(* ===== verification/Server_Shutdown.thy ===== *)
theory Server_Shutdown
  imports Server_Runs
begin

text \<open>
  What a signal does to a running server. Its handler sets \<open>EXIT_SIGNAL\<close>, which nothing resets; from
  then on the receive loops are left at their next condition and the main thread leaves its accept
  loop. The bounds are on runs as lists of states: every step of a run that is counted as a move
  decreases a measure, and no step increases it.
\<close>

section \<open>Moves of a run\<close>

fun is_run :: "('s \<Rightarrow> 's \<Rightarrow> bool) \<Rightarrow> 's list \<Rightarrow> bool" where
  "is_run step (s # s' # ss) \<longleftrightarrow> step s s' \<and> is_run step (s' # ss)"
| "is_run step ss \<longleftrightarrow> ss \<noteq> []"

fun moves :: "('s \<Rightarrow> 's \<Rightarrow> bool) \<Rightarrow> 's list \<Rightarrow> nat" where
  "moves mv (s # s' # ss) = (if mv s s' then 1 else 0) + moves mv (s' # ss)"
| "moves mv ss = 0"

lemma run_reaches: "is_run step ss \<Longrightarrow> step\<^sup>*\<^sup>* (hd ss) (last ss)"
  by (induction ss rule: induct_list012) (auto intro: converse_rtranclp_into_rtranclp)

locale bounded_moves =
  fixes step :: "'s \<Rightarrow> 's \<Rightarrow> bool" and mv :: "'s \<Rightarrow> 's \<Rightarrow> bool" and inv :: "'s \<Rightarrow> bool" and left :: "'s \<Rightarrow> nat"
  assumes step_inv: "step s s' \<Longrightarrow> inv s \<Longrightarrow> inv s'"
    and step_left: "step s s' \<Longrightarrow> inv s \<Longrightarrow> left s' \<le> left s"
    and move_left: "step s s' \<Longrightarrow> inv s \<Longrightarrow> mv s s' \<Longrightarrow> left s' < left s"
begin

lemma run_bound: "is_run step ss \<Longrightarrow> inv (hd ss) \<Longrightarrow> moves mv ss + left (last ss) \<le> left (hd ss)"
proof (induction ss rule: induct_list012)
  case (3 s s' ss)
  then have st: "step s s'" "inv s" by simp_all
  then have "moves mv (s' # ss) + left (last (s' # ss)) \<le> left s'" using 3 step_inv by simp
  then show ?case using step_left[OF st] move_left[OF st] by (cases "mv s s'") auto
qed simp_all

end

section \<open>Threads after a signal\<close>

text \<open>The steps a thread can still take; a thread in \<open>recv\<close> has one more loop condition before it.\<close>

fun steps_left :: "task_pc \<Rightarrow> nat" where
  "steps_left Started = 7" | "steps_left Before_lock = 6" | "steps_left Receiving = 6" | "steps_left In_loop = 5"
| "steps_left Sending = 4" | "steps_left Closing = 3" | "steps_left Unlocking = 2" | "steps_left Exiting = 1"
| "steps_left Failed = 1" | "steps_left Timer_ready = 3" | "steps_left Timer_locked = 2" | "steps_left Timer_written = 1"
| "steps_left Finished = 0"

definition thread_moves :: "nat \<Rightarrow> server_state \<Rightarrow> server_state \<Rightarrow> bool" where
  "thread_moves t s s' \<longleftrightarrow> tasks s' t \<noteq> tasks s t"

lemma signal_stays: "server_step env s s' \<Longrightarrow> EXIT_SIGNAL (signals s) \<Longrightarrow> EXIT_SIGNAL (signals s')"
  by (induction rule: server_step.induct) (auto simp: step_defs dest: handler_sets)

lemma signal_stays_run: "(server_step env)\<^sup>*\<^sup>* s s' \<Longrightarrow> EXIT_SIGNAL (signals s) \<Longrightarrow> EXIT_SIGNAL (signals s')"
  by (induction rule: rtranclp_induct) (auto intro: signal_stays)

lemma step_steps_left:
  "server_step env s s' \<Longrightarrow> EXIT_SIGNAL (signals s) \<Longrightarrow>
   tasks s' t = tasks s t \<or> steps_left (pc (tasks s' t)) < steps_left (pc (tasks s t))"
  by (induction rule: server_step.induct) (auto simp: step_defs)

interpretation tm: bounded_moves "server_step env" "thread_moves t" "\<lambda>s. EXIT_SIGNAL (signals s)"
  "\<lambda>s. steps_left (pc (tasks s t))" for env t
proof
  show "server_step env s s' \<Longrightarrow> EXIT_SIGNAL (signals s) \<Longrightarrow> steps_left (pc (tasks s' t)) \<le> steps_left (pc (tasks s t))" for s s'
    using step_steps_left[of env s s' t] by auto
  show "server_step env s s' \<Longrightarrow> EXIT_SIGNAL (signals s) \<Longrightarrow> thread_moves t s s' \<Longrightarrow>
      steps_left (pc (tasks s' t)) < steps_left (pc (tasks s t))" for s s'
    using step_steps_left[of env s s' t] by (auto simp: thread_moves_def)
qed (rule signal_stays)

lemma steps_left_bound: "steps_left p \<le> 7"
  by (cases p) simp_all

section \<open>The main thread after a signal\<close>

text \<open>The walk over the list takes one more step while there is a client to join.\<close>

definition main_left :: "process \<Rightarrow> nat" where
  "main_left w = (case main_at w of Accepting \<Rightarrow> 5
     | Checking p \<Rightarrow> (if joinable (list_mem w) = Map.empty then 3 else 4)
     | Loop_test \<Rightarrow> 2 | Releasing \<Rightarrow> 1 | Main_ended stop \<Rightarrow> 0)"

definition main_moves :: "process \<Rightarrow> process \<Rightarrow> bool" where
  "main_moves w w' \<longleftrightarrow> main_at w' \<noteq> main_at w \<or> list_mem w' \<noteq> list_mem w \<or> actions w' \<noteq> actions w \<or> clients w' \<noteq> clients w"

definition signalled :: "process \<Rightarrow> bool" where
  "signalled w \<longleftrightarrow> EXIT_SIGNAL (signals (server w)) \<and> main_inv w"

lemma signalled_settled:
  assumes "signalled w" "main_at w = Releasing"
  shows "pthread_join (finished w) t (list_mem w) = Inl Invalid_join"
  using assms settled_joins by (auto simp: signalled_def main_inv_def)

text \<open>A thread that is not joined yet is one of the clients.\<close>

lemma open_client:
  assumes "main_inv w" "joinable (list_mem w) t = Some k" "main_at w = Checking p"
  shows "k \<in> set (clients w)"
  using assms by (auto simp: main_inv_def list_inv_def one_open_def settled_def split: if_splits)

lemma step_signalled: "process_step sys env w w' \<Longrightarrow> signalled w \<Longrightarrow> signalled w'"
proof -
  assume s: "process_step sys env w w'" "signalled w"
  have "server w' = server w \<or> server_step env (server w) (server w')"
    using s(1) by (cases rule: process_step.cases) auto
  then show "signalled w'" using s(2) step_main_inv[OF s(1)] signal_stays by (auto simp: signalled_def)
qed

lemma same_left: "main_at w' = main_at w \<Longrightarrow> list_mem w' = list_mem w \<Longrightarrow> main_left w' = main_left w"
  by (simp add: main_left_def)

text \<open>A step either is one of the threads or a signal, or the main thread comes closer to its end.\<close>

lemma step_main_left:
  assumes "process_step sys env w w'" "signalled w"
  shows "main_at w' = main_at w \<and> list_mem w' = list_mem w \<and> actions w' = actions w \<and> clients w' = clients w \<or>
    main_left w' < main_left w"
  using assms
proof (induction rule: process_step.induct)
  case (check_joins w a nd m nx)
  then have "joinable (list_mem w) \<noteq> Map.empty" "joinable m = Map.empty" using join_inv(2,3) unfolding signalled_def by blast+
  then show ?case using check_joins.hyps(1) by (simp add: main_left_def)
next
  case (check_skips w a nd nx)
  then show ?case using checked_node unfolding signalled_def by blast
next
  case (release_joins w a nd m l m')
  then show ?case using signalled_settled by simp
qed (auto simp: signalled_def main_left_def)

interpretation mm: bounded_moves "process_step sys env" main_moves signalled main_left for sys env
proof
  show "process_step sys env w w' \<Longrightarrow> signalled w \<Longrightarrow> main_left w' \<le> main_left w" for w w'
    using step_main_left[of sys env w w'] same_left[of w' w] by auto
  show "process_step sys env w w' \<Longrightarrow> signalled w \<Longrightarrow> main_moves w w' \<Longrightarrow> main_left w' < main_left w" for w w'
    using step_main_left[of sys env w w'] by (auto simp: main_moves_def)
qed (rule step_signalled)

text \<open>A client can only be started by a main thread that was already waiting in \<open>accept\<close>.\<close>

definition start_moves :: "process \<Rightarrow> process \<Rightarrow> bool" where
  "start_moves w w' \<longleftrightarrow> clients w' \<noteq> clients w"

lemma step_starts:
  assumes "process_step sys env w w'" "signalled w"
  shows "main_at w' = Accepting \<longrightarrow> main_at w = Accepting" "clients w' \<noteq> clients w \<longrightarrow> main_at w = Accepting \<and> main_at w' \<noteq> Accepting"
  using assms by (induction rule: process_step.induct) (auto simp: signalled_def)

interpretation sm: bounded_moves "process_step sys env" start_moves signalled "\<lambda>w. if main_at w = Accepting then 1 else 0" for sys env
proof
  show "process_step sys env w w' \<Longrightarrow> signalled w \<Longrightarrow> (if main_at w' = Accepting then 1 else 0 :: nat) \<le> (if main_at w = Accepting then 1 else 0)" for w w'
    using step_starts(1)[of sys env w w'] by simp
  show "process_step sys env w w' \<Longrightarrow> signalled w \<Longrightarrow> start_moves w w' \<Longrightarrow>
      (if main_at w' = Accepting then 1 else 0 :: nat) < (if main_at w = Accepting then 1 else 0)" for w w'
    using step_starts(2)[of sys env w w'] by (simp add: start_moves_def)
qed (rule step_signalled)

text \<open>When the clients have finished, the main thread goes on unless it waits in \<open>accept\<close>.\<close>

lemma walk_progress:
  assumes "main_inv w" "main_at w = Checking (Some a)" "\<forall>t\<in>set (clients w). finished w t"
  shows "\<exists>w'. process_step sys env w w' \<and> main_moves w w'"
proof -
  obtain xs where xs: "list_inv w xs" "Some a = ptr_to xs \<or> Some a = ptr_to (tl xs)"
    using assms(1,2) by (auto simp: main_inv_def)
  have "a \<in> set xs" using xs(2) by (cases xs; cases "tl xs") auto
  then obtain ys zs where a: "xs = ys @ a # zs" by (meson split_list)
  have q: "tailq (links_mem (list_mem w)) 0 (ys @ a # zs)" "node_at (list_mem w) a \<noteq> None"
    using xs(1) a by (auto simp: list_inv_def thread_list_def)
  then obtain nd where nd: "get_node (list_mem w) a = Inr nd" by (auto simp: get_node_def)
  note ex = checked_node[OF assms(1,2) nd]
  show ?thesis
  proof (cases "pthread_join (finished w) (node_thread nd) (list_mem w)")
    case (Inl e)
    then have "e = Invalid_join" using open_client[OF assms(1) _ assms(2)] assms(3) by (auto simp: pthread_join_cases)
    then show ?thesis using check_fails[OF assms(2) nd ex] Inl assms(2) by (fastforce simp: main_moves_def)
  next
    case (Inr m)
    then have m: "links_mem m = links_mem (list_mem w)" "joined m \<noteq> joined (list_mem w)" by (auto simp: pthread_join_cases)
    then have "TAILQ_NEXT (links_mem m) (Some a) = Inr (ptr_to zs)" using next_ptr[OF q(1)] by simp
    moreover have "main_moves w (w\<lparr>list_mem := m, main_at := Checking (ptr_to zs)\<rparr>)" using m(2) by (auto simp: main_moves_def)
    ultimately show ?thesis using check_joins[OF assms(2) nd ex Inr] by blast
  qed
qed

lemma release_progress:
  assumes "signalled w" "main_at w = Releasing"
  shows "\<exists>w'. process_step sys env w w' \<and> main_moves w w'"
proof -
  obtain xs where xs: "list_inv w xs" using assms(1) by (auto simp: signalled_def main_inv_def)
  then have q: "thread_list (list_mem w) 0 xs" by (simp add: list_inv_def)
  show ?thesis
  proof (cases xs)
    case Nil
    then obtain tr where "stop_server (finished w) 0 sys (list_mem w) (actions w) = Inr tr" "TAILQ_EMPTY (links_mem (list_mem w)) 0"
      using empty_release q by metis
    then show ?thesis using release_ends[OF assms(2)] assms(2) by (fastforce simp: main_moves_def)
  next
    case (Cons a as)
    then obtain nd where nd: "get_node (list_mem w) a = Inr nd" using q by (fastforce simp: thread_list_def get_node_def)
    have f: "TAILQ_FIRST (links_mem (list_mem w)) 0 = Some a" using list_inv_first[OF xs] Cons by simp
    show ?thesis using release_fails[OF assms(2) f nd] signalled_settled[OF assms] assms(2) by (fastforce simp: main_moves_def)
  qed
qed

lemma main_progress:
  assumes "signalled w" "\<forall>t\<in>set (clients w). finished w t" "main_at w \<noteq> Accepting" "\<And>stop. main_at w \<noteq> Main_ended stop"
  shows "\<exists>w'. process_step sys env w w' \<and> main_moves w w'"
proof (cases "main_at w")
  case Loop_test
  then show ?thesis using leave_loop[OF Loop_test] assms(1) by (fastforce simp: signalled_def main_moves_def)
next
  case (Checking p)
  show ?thesis
  proof (cases p)
    case None
    then show ?thesis using check_ends[of w sys env] Checking by (fastforce simp: main_moves_def)
  next
    case (Some a)
    then show ?thesis using walk_progress assms(1,2) Checking unfolding signalled_def by blast
  qed
next
  case Releasing
  then show ?thesis by (rule release_progress[OF assms(1)])
qed (use assms(3,4) in auto)

section \<open>Properties\<close>

text \<open>
  (C9) A signal ends the threads: from any state of the server in which a signal was handled, and in every
  run from there, each thread takes at most seven more steps, whatever its peer sends and whatever
  the scheduler does. When a group of threads to which the holder of the mutex belongs can take no
  step any more, all its threads have finished.
\<close>

theorem signal_ends_threads:
  assumes "initial s0" "tasks_wf s0" "reopen_ok env" "(server_step env)\<^sup>*\<^sup>* s0 s" "EXIT_SIGNAL (signals s)"
    and "is_run (server_step env) ss" "hd ss = s"
  shows "moves (thread_moves t) ss \<le> 7 \<and>
    ((\<forall>u. holder (last ss) = Some u \<longrightarrow> u \<in> ts) \<and>
     (\<forall>u\<in>ts. \<forall>s'. server_step env (last ss) s' \<longrightarrow> \<not> thread_moves u (last ss) s') \<longrightarrow>
       (\<forall>u\<in>ts. pc (tasks (last ss) u) = Finished))"
proof (intro conjI impI ballI)
  show "moves (thread_moves t) ss \<le> 7"
    using tm.run_bound[OF assms(6), of t] assms(5,7) steps_left_bound[of "pc (tasks s t)"] by simp
  fix u
  assume stuck: "(\<forall>u. holder (last ss) = Some u \<longrightarrow> u \<in> ts) \<and>
     (\<forall>u\<in>ts. \<forall>s'. server_step env (last ss) s' \<longrightarrow> \<not> thread_moves u (last ss) s')" and u: "u \<in> ts"
  have run: "(server_step env)\<^sup>*\<^sup>* s0 (last ss)" using assms(4,7) run_reaches[OF assms(6)] by simp
  have inv: "lock_inv (last ss)" "tasks_wf (last ss)"
    using run_inv[OF run] initial_inv[OF assms(1)] run_wf[OF run assms(2)] by blast+
  have no: "\<not> advances env v (last ss) s'" if "v \<in> ts" for v s'
    using stuck that unfolding advances_def thread_moves_def by fastforce
  show "pc (tasks (last ss) u) = Finished"
  proof (rule ccontr)
    assume nf: "pc (tasks (last ss) u) \<noteq> Finished"
    then have w: "waits (pc (tasks (last ss) u))" "locked (io (last ss))"
      using task_advances[OF inv(2) assms(3) nf] no[OF u] by blast+
    then obtain v where v: "holder (last ss) = Some v" "critical (pc (tasks (last ss) v))" using inv(1) by (auto simp: lock_inv_def)
    then have "pc (tasks (last ss) v) \<noteq> Finished" "\<not> waits (pc (tasks (last ss) v))" by (auto simp: waits_def)
    then show False using task_advances[OF inv(2) assms(3), of v] no[of v] stuck v(1) by blast
  qed
qed

text \<open>A signal and the end of a client that has not begun, in the sample state.\<close>

definition signalled_state :: server_state where
  "signalled_state = sample_state\<lparr>signals := \<lparr>EXIT_SIGNAL = True, syslog_lines = [''Caught signal, exiting'']\<rparr>\<rparr>"

lemma sample_signal: "server_step env sample_state signalled_state"
  unfolding signalled_state_def
  by (rule signal_arrives[of SIGINT]) (simp add: sigint_handler_def sample_state_def)

theorem signal_ends_threads_witness:
  "\<exists>s1. is_run (server_step sample_env) [signalled_state, s1] \<and> thread_moves 0 signalled_state s1 \<and>
     moves (thread_moves 0) [signalled_state, s1] \<le> 7"
proof -
  have wf: "tasks_wf signalled_state" using sample_wf by (simp add: tasks_wf_def signalled_state_def)
  obtain s1 where s1: "advances sample_env 0 signalled_state s1"
    using task_advances[OF wf, of sample_env 0]
    by (auto simp: sample_env_def signalled_state_def sample_state_def waits_def)
  then have r: "is_run (server_step sample_env) [signalled_state, s1]" by (simp add: advances_def)
  have e: "EXIT_SIGNAL (signals signalled_state)" by (simp add: signalled_state_def)
  have "reopen_ok sample_env" by (simp add: sample_env_def)
  from signal_ends_threads[OF sample_initial sample_wf this single_step[OF sample_signal] e r, of 0] s1 r
  show ?thesis by (auto simp: advances_def thread_moves_def)
qed

text \<open>
  (C10) A signal stops the main thread: from any state of the process in which a signal was handled, and in
  every run from there, the main thread takes at most five more steps before it ends or its
  behaviour is undefined, and it starts at most one more client, and none if it was not already
  waiting in \<open>accept\<close>. The walk and the release end early, at the join of an identifier that names no
  thread, when a client was served: a run is followed up to that undefined behaviour only. Before
  it the main thread never gets stuck: unless it waits in \<open>accept\<close> or has ended, it can go on as soon
  as the clients have finished.
\<close>

theorem signal_stops_main:
  assumes "process_start sys w0" "(process_step sys env)\<^sup>*\<^sup>* w0 w" "EXIT_SIGNAL (signals (server w))"
    and "is_run (process_step sys env) ws" "hd ws = w"
  shows "moves main_moves ws \<le> 5 \<and> moves start_moves ws \<le> (if main_at w = Accepting then 1 else 0) \<and>
    (main_at (last ws) \<noteq> Accepting \<and> (\<forall>stop. main_at (last ws) \<noteq> Main_ended stop) \<and>
     (\<forall>t\<in>set (clients (last ws)). finished (last ws) t) \<longrightarrow>
       (\<exists>w'. process_step sys env (last ws) w' \<and> main_moves (last ws) w'))"
proof (intro conjI impI)
  have s: "signalled (hd ws)" using run_main_inv[OF assms(2) start_inv[OF assms(1)]] assms(3,5) by (simp add: signalled_def)
  have "main_left w \<le> 5" by (simp add: main_left_def split: main_pc.split)
  then show "moves main_moves ws \<le> 5" using mm.run_bound[OF assms(4) s] assms(5) by simp
  show "moves start_moves ws \<le> (if main_at w = Accepting then 1 else 0)" using sm.run_bound[OF assms(4) s] assms(5) by simp
  have "signalled (last ws)" using run_reaches[OF assms(4)] s
    by (induction rule: rtranclp_induct) (auto intro: step_signalled)
  then show "\<exists>w'. process_step sys env (last ws) w' \<and> main_moves (last ws) w'"
    if "main_at (last ws) \<noteq> Accepting \<and> (\<forall>stop. main_at (last ws) \<noteq> Main_ended stop) \<and>
      (\<forall>t\<in>set (clients (last ws)). finished (last ws) t)"
    using main_progress that by blast
qed

theorem signal_stops_main_witness:
  "\<exists>w w'. is_run (process_step sample_server sample_env) [w, w'] \<and> main_moves w w' \<and> main_at w' = Releasing \<and>
     moves main_moves [w, w'] \<le> 5 \<and> moves start_moves [w, w'] = 0"
proof -
  let ?w = "sample_process\<lparr>server := (server sample_process)\<lparr>signals := \<lparr>EXIT_SIGNAL = True, syslog_lines = [''Caught signal, exiting'']\<rparr>\<rparr>\<rparr>"
  let ?w' = "?w\<lparr>main_at := Releasing\<rparr>"
  have "process_step sample_server sample_env sample_process ?w"
    by (rule run_thread[OF signal_arrives[of SIGINT]]) (simp_all add: sigint_handler_def sample_process_def)
  then have s: "(process_step sample_server sample_env)\<^sup>*\<^sup>* sample_process ?w" by (rule r_into_rtranclp)
  have l: "main_at ?w = Loop_test" by (simp add: sample_process_def)
  have r: "is_run (process_step sample_server sample_env) [?w, ?w']" using leave_loop[OF l] by simp
  have e: "EXIT_SIGNAL (signals (server ?w))" by simp
  from signal_stops_main[OF sample_process_start s e r] l r
  show ?thesis by (intro exI[of _ ?w] exI[of _ ?w']) (simp add: main_moves_def)
qed

end
