(* ===== verification/Singly_List.thy ===== *)
theory Singly_List
  imports Link_Chains
begin

text \<open>
  The singly linked lists of \<open>server/src/queue.h\<close> (the macros with prefix \<open>SLIST\<close>). A head and an
  entry have one pointer each. Removing an arbitrary element and joining two lists search from
  the front; these loops have fuel and give \<open>None\<close> when it is spent.
\<close>

section \<open>Heads and entries\<close>

record slist_head =
  slh_first :: ptr

record slist_entry =
  sle_next :: ptr

type_synonym sl_mem = "(slist_head, slist_entry) qmem"

abbreviation sl_load :: "sl_mem \<Rightarrow> slot \<Rightarrow> ptr res" where
  "sl_load \<equiv> load_at slh_first sle_next"

abbreviation sl_store :: "sl_mem \<Rightarrow> slot \<Rightarrow> ptr \<Rightarrow> sl_mem res" where
  "sl_store \<equiv> store_at (\<lambda>p v. v\<lparr>slh_first := p\<rparr>) (\<lambda>p e. e\<lparr>sle_next := p\<rparr>)"

abbreviation sl_stored :: "sl_mem \<Rightarrow> slot \<Rightarrow> ptr \<Rightarrow> sl_mem" where
  "sl_stored \<equiv> stored_at (\<lambda>p v. v\<lparr>slh_first := p\<rparr>) (\<lambda>p e. e\<lparr>sle_next := p\<rparr>)"

interpretation slf: link_fields slh_first "\<lambda>p v. v\<lparr>slh_first := p\<rparr>" sle_next "\<lambda>p e. e\<lparr>sle_next := p\<rparr>"
  by unfold_locales simp_all

section \<open>The macros\<close>

definition SLIST_HEAD_INITIALIZER :: slist_head where
  "SLIST_HEAD_INITIALIZER = \<lparr>slh_first = None\<rparr>"

definition SLIST_EMPTY :: "sl_mem \<Rightarrow> head_id \<Rightarrow> bool" where
  "SLIST_EMPTY s h = (slh_first (heads s h) = None)"

definition SLIST_FIRST :: "sl_mem \<Rightarrow> head_id \<Rightarrow> ptr" where
  "SLIST_FIRST s h = slh_first (heads s h)"

definition SLIST_NEXT :: "sl_mem \<Rightarrow> ptr \<Rightarrow> ptr res" where
  "SLIST_NEXT s elm = bindE (link_of s elm) (\<lambda>e. Inr (sle_next e))"

definition SLIST_INIT :: "sl_mem \<Rightarrow> head_id \<Rightarrow> sl_mem" where
  "SLIST_INIT s h = set_head s h ((heads s h)\<lparr>slh_first := None\<rparr>)"

definition SLIST_INSERT_AFTER :: "sl_mem \<Rightarrow> addr \<Rightarrow> addr \<Rightarrow> sl_mem res" where
  "SLIST_INSERT_AFTER s slistelm elm =
     bindE (SLIST_NEXT s (Some slistelm)) (\<lambda>nx.
     bindE (sl_store s (Next_of elm) nx) (\<lambda>s1.
       sl_store s1 (Next_of slistelm) (Some elm)))"

definition SLIST_INSERT_HEAD :: "sl_mem \<Rightarrow> head_id \<Rightarrow> addr \<Rightarrow> sl_mem res" where
  "SLIST_INSERT_HEAD s h elm =
     bindE (sl_store s (Next_of elm) (SLIST_FIRST s h)) (\<lambda>s1. sl_store s1 (First_of h) (Some elm))"

definition SLIST_REMOVE_AFTER :: "sl_mem \<Rightarrow> ptr \<Rightarrow> sl_mem res" where
  "SLIST_REMOVE_AFTER s elm =
     bindE (SLIST_NEXT s elm) (\<lambda>p. bindE (SLIST_NEXT s p) (\<lambda>nx.
     bindE (next_slot elm) (\<lambda>sl. sl_store s sl nx)))"

definition SLIST_REMOVE_HEAD :: "sl_mem \<Rightarrow> head_id \<Rightarrow> sl_mem res" where
  "SLIST_REMOVE_HEAD s h = bindE (SLIST_NEXT s (SLIST_FIRST s h)) (\<lambda>nx. sl_store s (First_of h) nx)"

definition SLIST_REMOVE :: "nat \<Rightarrow> sl_mem \<Rightarrow> head_id \<Rightarrow> addr \<Rightarrow> sl_mem option res" where
  "SLIST_REMOVE n s h elm =
     (if SLIST_FIRST s h = Some elm then bindE (SLIST_REMOVE_HEAD s h) (\<lambda>s1. Inr (Some s1))
      else bindE (find_before n (SLIST_NEXT s) (Some elm) (SLIST_FIRST s h)) (\<lambda>found.
        case found of None \<Rightarrow> Inr None
        | Some curelm \<Rightarrow> bindE (SLIST_REMOVE_AFTER s curelm) (\<lambda>s1. Inr (Some s1))))"

definition SLIST_CONCAT :: "nat \<Rightarrow> sl_mem \<Rightarrow> head_id \<Rightarrow> head_id \<Rightarrow> sl_mem option res" where
  "SLIST_CONCAT n s head1 head2 =
     (if SLIST_FIRST s head1 = None then
        bindE (sl_store s (First_of head1) (SLIST_FIRST s head2)) (\<lambda>s1.
          Inr (Some (if SLIST_FIRST s1 head1 \<noteq> None then SLIST_INIT s1 head2 else s1)))
      else if SLIST_FIRST s head2 \<noteq> None then
        bindE (find_before n (SLIST_NEXT s) None (SLIST_FIRST s head1)) (\<lambda>found.
          case found of None \<Rightarrow> Inr None
          | Some curelm \<Rightarrow>
              bindE (next_slot curelm) (\<lambda>sl.
              bindE (sl_store s sl (SLIST_FIRST s head2)) (\<lambda>s1.
                Inr (Some (SLIST_INIT s1 head2)))))
      else Inr (Some s))"

definition SLIST_SWAP :: "sl_mem \<Rightarrow> head_id \<Rightarrow> head_id \<Rightarrow> sl_mem res" where
  "SLIST_SWAP s head1 head2 =
     (let swap_first = SLIST_FIRST s head1 in
      bindE (sl_store s (First_of head1) (SLIST_FIRST s head2)) (\<lambda>s1. sl_store s1 (First_of head2) swap_first))"

text \<open>Traversals; \<open>mem\<close> is where the state of the loop has the links.\<close>

definition SLIST_FOREACH ::
  "nat \<Rightarrow> ('m \<Rightarrow> sl_mem) \<Rightarrow> head_id \<Rightarrow> (addr \<Rightarrow> 'm \<Rightarrow> 'm res) \<Rightarrow> 'm \<Rightarrow> 'm option res" where
  "SLIST_FOREACH n mem h body m = foreach_loop_from n (\<lambda>m. SLIST_NEXT (mem m)) body (SLIST_FIRST (mem m) h) m"

definition SLIST_FOREACH_FROM ::
  "nat \<Rightarrow> ('m \<Rightarrow> sl_mem) \<Rightarrow> ptr \<Rightarrow> head_id \<Rightarrow> (addr \<Rightarrow> 'm \<Rightarrow> 'm res) \<Rightarrow> 'm \<Rightarrow> 'm option res" where
  "SLIST_FOREACH_FROM n mem var h body m =
     foreach_loop_from n (\<lambda>m. SLIST_NEXT (mem m)) body (start_from var (SLIST_FIRST (mem m) h)) m"

definition SLIST_FOREACH_SAFE ::
  "nat \<Rightarrow> ('m \<Rightarrow> sl_mem) \<Rightarrow> head_id \<Rightarrow> (addr \<Rightarrow> 'm \<Rightarrow> 'm res) \<Rightarrow> 'm \<Rightarrow> 'm option res" where
  "SLIST_FOREACH_SAFE n mem h body m = foreach_safe_from n (\<lambda>m. SLIST_NEXT (mem m)) body (SLIST_FIRST (mem m) h) m"

definition SLIST_FOREACH_FROM_SAFE ::
  "nat \<Rightarrow> ('m \<Rightarrow> sl_mem) \<Rightarrow> ptr \<Rightarrow> head_id \<Rightarrow> (addr \<Rightarrow> 'm \<Rightarrow> 'm res) \<Rightarrow> 'm \<Rightarrow> 'm option res" where
  "SLIST_FOREACH_FROM_SAFE n mem var h body m =
     foreach_safe_from n (\<lambda>m. SLIST_NEXT (mem m)) body (start_from var (SLIST_FIRST (mem m) h)) m"

text \<open>
  The traversal that hands its body, beside the element, the address \<open>varp\<close> of the pointer to it.
\<close>

fun prevptr_loop ::
  "nat \<Rightarrow> ('m \<Rightarrow> sl_mem) \<Rightarrow> (addr \<Rightarrow> slot \<Rightarrow> 'm \<Rightarrow> 'm res) \<Rightarrow> slot \<Rightarrow> 'm \<Rightarrow> 'm option res" where
  "prevptr_loop n mem body varp m =
     bindE (sl_load (mem m) varp) (\<lambda>var.
       case var of None \<Rightarrow> Inr (Some m)
       | Some a \<Rightarrow> (case n of 0 \<Rightarrow> Inr None
           | Suc k \<Rightarrow> bindE (body a varp m) (prevptr_loop k mem body (Next_of a))))"

declare prevptr_loop.simps [simp del]

definition SLIST_FOREACH_PREVPTR ::
  "nat \<Rightarrow> ('m \<Rightarrow> sl_mem) \<Rightarrow> head_id \<Rightarrow> (addr \<Rightarrow> slot \<Rightarrow> 'm \<Rightarrow> 'm res) \<Rightarrow> 'm \<Rightarrow> 'm option res" where
  "SLIST_FOREACH_PREVPTR n mem h body m = prevptr_loop n mem body (First_of h) m"

section \<open>What the macros do to the list of elements\<close>

text \<open>\<open>slist s h xs\<close>: the list with head \<open>h\<close> holds the elements \<open>xs\<close>.\<close>

definition slist :: "sl_mem \<Rightarrow> head_id \<Rightarrow> addr list \<Rightarrow> bool" where
  "slist s h xs = chain (sl_load s) (First_of h) xs"

lemma slist_distinct: "slist s h xs \<Longrightarrow> distinct xs"
  by (simp add: slist_def chain_distinct)

lemma slist_views:
  assumes "slist s h (ys @ a # zs)"
  shows "sl_load s (Next_of a) = Inr (ptr_to zs)" "alloc s a" "sle_next (the (links s a)) = ptr_to zs"
    "SLIST_NEXT s (Some a) = Inr (ptr_to zs)"
proof -
  show l: "sl_load s (Next_of a) = Inr (ptr_to zs)" using assms chain_member by (simp add: slist_def)
  show al: "alloc s a" using load_valid[OF l] by simp
  show "sle_next (the (links s a)) = ptr_to zs" using entry_views(2)[OF l] .
  then show "SLIST_NEXT s (Some a) = Inr (ptr_to zs)" using al by (simp add: SLIST_NEXT_def)
qed

lemma slist_alloc: "slist s h xs \<Longrightarrow> a \<in> set xs \<Longrightarrow> alloc s a"
  using slist_views(2) split_list by metis

lemma slist_first: "slist s h xs \<Longrightarrow> SLIST_FIRST s h = ptr_to xs"
  using chain_first[of "sl_load s" h xs] by (simp add: slist_def SLIST_FIRST_def load_at.simps)

lemma slist_empty: "slist s h xs \<Longrightarrow> SLIST_EMPTY s h = (xs = [])"
  using slist_first[of s h xs] by (simp add: SLIST_EMPTY_def SLIST_FIRST_def)

lemma slist_elsewhere:
  "only_touches s s' H A \<Longrightarrow> h \<notin> H \<Longrightarrow> set xs \<inter> A = {} \<Longrightarrow> slist s h xs \<Longrightarrow> slist s' h xs"
  unfolding slist_def by (rule chain_touches)

interpretation slw: walkable "\<lambda>s. slist s h" SLIST_NEXT for h
  by unfold_locales (rule slist_views(4))

lemma slist_init: "slist (SLIST_INIT s h) h [] \<and> only_touches s (SLIST_INIT s h) {h} {}"
  by (auto simp: SLIST_INIT_def slist_def intro!: touches_intros)

lemma slist_insert_head:
  assumes "slist s h xs" "alloc s n" "n \<notin> set xs"
  shows "\<exists>s'. SLIST_INSERT_HEAD s h n = Inr s' \<and> slist s' h (n # xs) \<and> only_touches s s' {h} {n}"
proof -
  define s' where "s' = sl_stored (sl_stored s (Next_of n) (SLIST_FIRST s h)) (First_of h) (Some n)"
  have "chain (sl_load s') (First_of h) ([] @ n # xs)"
    by (rule chain_insert[of "sl_load s"])
      (use assms in \<open>auto simp: s'_def slist_def SLIST_FIRST_def load_at.simps(1)[of _ _ s]\<close>)
  moreover have "only_touches s s' {h} {n}" unfolding s'_def using assms(2) by (intro touches_intros) auto
  ultimately show ?thesis using assms(2) by (simp add: SLIST_INSERT_HEAD_def slist_def s'_def)
qed

lemma slist_insert_after:
  assumes "slist s h (ys @ b # zs)" "alloc s n" "n \<notin> set (ys @ b # zs)"
  shows "\<exists>s'. SLIST_INSERT_AFTER s b n = Inr s' \<and> slist s' h (ys @ b # n # zs) \<and> only_touches s s' {} {b, n}"
proof -
  define s' where "s' = sl_stored (sl_stored s (Next_of n) (ptr_to zs)) (Next_of b) (Some n)"
  note v = slist_views[OF assms(1)]
  have "chain (sl_load s') (First_of h) ((ys @ [b]) @ n # zs)"
    by (rule chain_insert[of "sl_load s"]) (use assms v in \<open>auto simp: s'_def slist_def\<close>)
  moreover have "only_touches s s' {} {b, n}" unfolding s'_def using assms(2) v(2) by (intro touches_intros) auto
  ultimately show ?thesis using assms(2) v by (simp add: SLIST_INSERT_AFTER_def slist_def s'_def)
qed

lemma slist_remove_head:
  assumes "slist s h (a # xs)"
  shows "\<exists>s'. SLIST_REMOVE_HEAD s h = Inr s' \<and> slist s' h xs \<and> only_touches s s' {h} {}"
proof -
  define s' where "s' = sl_stored s (First_of h) (ptr_to xs)"
  note v = slist_views[of s h "[]" a xs]
  have "chain (sl_load s') (First_of h) ([] @ xs)"
    by (rule chain_remove[of "sl_load s" h "[]" a]) (use assms v in \<open>auto simp: s'_def slist_def\<close>)
  moreover have "only_touches s s' {h} {}" unfolding s'_def by (intro touches_intros) auto
  ultimately show ?thesis
    using assms v slist_first[OF assms] by (simp add: SLIST_REMOVE_HEAD_def slist_def s'_def)
qed

lemma slist_remove_after:
  assumes "slist s h (ys @ b # a # zs)"
  shows "\<exists>s'. SLIST_REMOVE_AFTER s (Some b) = Inr s' \<and> slist s' h (ys @ b # zs) \<and> only_touches s s' {} {b}"
proof -
  define s' where "s' = sl_stored s (Next_of b) (ptr_to zs)"
  note v = slist_views[OF assms] and w = slist_views[of s h "ys @ [b]" a zs]
  have "chain (sl_load s') (First_of h) ((ys @ [b]) @ zs)"
    by (rule chain_remove[of "sl_load s" h _ a]) (use assms v w in \<open>auto simp: s'_def slist_def\<close>)
  moreover have "only_touches s s' {} {b}" unfolding s'_def using v(2) by (intro touches_intros) auto
  ultimately show ?thesis
    using assms v w by (simp add: SLIST_REMOVE_AFTER_def slist_def s'_def)
qed

lemma slist_remove:
  assumes "slist s h (ys @ a # zs)" "length ys \<le> n"
  shows "\<exists>s'. SLIST_REMOVE n s h a = Inr (Some s') \<and> slist s' h (ys @ zs) \<and> only_touches s s' {h} (set ys)"
proof (cases ys rule: rev_cases)
  case Nil
  then show ?thesis using assms(1) slist_first[OF assms(1)] slist_remove_head[of s h a zs]
    by (auto simp: SLIST_REMOVE_def)
next
  case (snoc ws b)
  then have w: "slist s h (ws @ b # a # zs)" using assms(1) by simp
  note d = slist_distinct[OF assms(1)]
  have ne: "SLIST_FIRST s h \<noteq> Some a" using slist_first[OF w] d snoc by (cases ws) auto
  obtain s' where s': "SLIST_REMOVE_AFTER s (Some b) = Inr s'" "slist s' h (ws @ b # zs)" "only_touches s s' {} {b}"
    using slist_remove_after[OF w] by blast
  have "find_before n (SLIST_NEXT s) (Some a) (SLIST_FIRST s h) = Inr (Some (Some b))"
    using slw.find_before_member[of s h "[]" ws b "a # zs" n] w d snoc assms(2) slist_first[OF w] by simp
  moreover have "only_touches s s' {h} (set ys)" using s'(3) snoc by (auto simp: only_touches_def)
  ultimately show ?thesis using ne s' snoc by (simp add: SLIST_REMOVE_def)
qed

text \<open>Removing an element that is not in the list runs off its end.\<close>

lemma slist_remove_absent:
  assumes "slist s h xs" "a \<notin> set xs" "length xs \<le> n"
  shows "SLIST_REMOVE n s h a = Inl Null_deref"
proof -
  have "find_before n (SLIST_NEXT s) (Some a) (ptr_to xs) = Inl Null_deref"
    using slw.find_before_absent[of s h "[]" xs a n] assms by (simp add: SLIST_NEXT_def)
  moreover have "SLIST_FIRST s h \<noteq> Some a" using slist_first[OF assms(1)] assms(2) by (cases xs) auto
  ultimately show ?thesis using slist_first[OF assms(1)] by (simp add: SLIST_REMOVE_def)
qed

lemma slist_concat:
  assumes x: "slist s h xs" and y: "slist s k ys" and d: "set xs \<inter> set ys = {}" "h \<noteq> k" and n: "length xs \<le> n"
  shows "\<exists>s'. SLIST_CONCAT n s h k = Inr (Some s') \<and> slist s' h (xs @ ys) \<and> slist s' k [] \<and>
    only_touches s s' {h, k} (set xs)"
proof (cases "ys = []")
  case True
  then have "SLIST_CONCAT n s h k = Inr (Some (if xs = [] then sl_stored s (First_of h) None else s))"
    using slist_first[OF x] slist_first[OF y] d(2)
    by (auto simp: SLIST_CONCAT_def SLIST_FIRST_def stored_at.simps)
  moreover have "slist (sl_stored s (First_of h) None) h []" "slist (sl_stored s (First_of h) None) k []"
    "only_touches s (sl_stored s (First_of h) None) {h, k} (set xs)"
    using y True d(2) by (auto simp: slist_def intro!: touches_intros)
  ultimately show ?thesis using x y True by auto
next
  case False
  define e where "e = end_slot h xs"
  define s' where "s' = SLIST_INIT (sl_stored s e (ptr_to ys)) k"
  have e: "valid s e" "e \<noteq> First_of k"
    using end_slot_cases[of h xs] slist_alloc[OF x] d(2) by (auto simp: e_def)
  have "chain (sl_load s') (First_of h) (xs @ ys) \<and> chain (sl_load s') (First_of k) []"
    by (rule chain_join[of "sl_load s"])
      (use x y d False e in \<open>auto simp: slist_def s'_def SLIST_INIT_def e_def\<close>)
  moreover have "only_touches s s' {h, k} (set xs)"
    unfolding s'_def SLIST_INIT_def using e end_slot_cases[of h xs] by (intro touches_intros) (auto simp: e_def)
  moreover have "SLIST_CONCAT n s h k = Inr (Some s')"
  proof (cases xs rule: rev_cases)
    case Nil
    then show ?thesis using slist_first[OF x] slist_first[OF y] False e d(2)
      by (auto simp: SLIST_CONCAT_def SLIST_FIRST_def s'_def e_def stored_at.simps)
  next
    case (snoc ws b)
    have "find_before n (SLIST_NEXT s) None (ptr_to xs) = Inr (Some (Some b))"
      using slw.find_before_member[of s h "[]" ws b "[]" n] x slist_distinct[OF x] snoc n by simp
    then show ?thesis using slist_first[OF x] slist_first[OF y] False e snoc
      by (simp add: SLIST_CONCAT_def s'_def e_def)
  qed
  ultimately show ?thesis by (auto simp: slist_def)
qed

lemma slist_swap:
  assumes x: "slist s h xs" and y: "slist s k ys" and d: "h \<noteq> k"
  shows "\<exists>s'. SLIST_SWAP s h k = Inr s' \<and> slist s' h ys \<and> slist s' k xs \<and> only_touches s s' {h, k} {}"
proof -
  define s' where "s' = sl_stored (sl_stored s (First_of h) (ptr_to ys)) (First_of k) (ptr_to xs)"
  have f: "sl_load s (First_of h) = Inr (ptr_to xs)" "sl_load s (First_of k) = Inr (ptr_to ys)"
    using slist_first[OF x] slist_first[OF y] by (simp_all add: SLIST_FIRST_def load_at.simps)
  have "chain (sl_load s') (First_of h) ys"
    by (rule chain_rehead[of "sl_load s" k]) (use y f d in \<open>auto simp: s'_def slist_def\<close>)
  moreover have "chain (sl_load s') (First_of k) xs"
    by (rule chain_rehead[of "sl_load s" h]) (use x f d in \<open>auto simp: s'_def slist_def\<close>)
  moreover have "only_touches s s' {h, k} {}" unfolding s'_def by (intro touches_intros) auto
  ultimately show ?thesis using slist_first[OF x] slist_first[OF y] by (simp add: SLIST_SWAP_def slist_def s'_def)
qed

text \<open>The body of \<open>SLIST_FOREACH_PREVPTR\<close> gets each element together with the pointer that leads to it.\<close>

lemma prevptr_walk:
  "slist (mem m) h (ys @ zs) \<Longrightarrow> length zs \<le> n \<Longrightarrow>
   (\<And>a q m m'. a \<in> set zs \<Longrightarrow> slist (mem m) h (ys @ zs) \<Longrightarrow> body a q m = Inr m' \<Longrightarrow> slist (mem m') h (ys @ zs)) \<Longrightarrow>
   prevptr_loop n mem body (end_slot h ys) m =
     bindE (foldE (\<lambda>(a, q). body a q) (zip zs (end_slot h ys # map Next_of zs)) m) (\<lambda>m'. Inr (Some m'))"
proof (induction zs arbitrary: ys n m)
  case Nil
  then show ?case using chain_at[of "sl_load (mem m)" h ys "[]"]
    by (subst prevptr_loop.simps) (simp add: slist_def)
next
  case (Cons a as)
  obtain k where k: "n = Suc k" "length as \<le> k" using Cons.prems(2) by (cases n) auto
  have l: "sl_load (mem m) (end_slot h ys) = Inr (Some a)"
    using chain_at[of "sl_load (mem m)" h ys "a # as"] Cons.prems(1) by (simp add: slist_def)
  show ?case
  proof (cases "body a (end_slot h ys) m")
    case (Inr m1)
    have "slist (mem m1) h ((ys @ [a]) @ as)" using Cons.prems(3)[OF _ Cons.prems(1) Inr] by simp
    then have "prevptr_loop k mem body (end_slot h (ys @ [a])) m1 =
        bindE (foldE (\<lambda>(a, q). body a q) (zip as (end_slot h (ys @ [a]) # map Next_of as)) m1) (\<lambda>m'. Inr (Some m'))"
      using k(2) Cons.prems(3) by (intro Cons.IH) (simp, simp, metis append.assoc append_Cons append_Nil list.set_intros(2))
    then show ?thesis using k(1) l Inr by (subst prevptr_loop.simps) simp
  qed (use k(1) l in \<open>subst prevptr_loop.simps; simp\<close>)
qed

section \<open>Properties\<close>

text \<open>The list \<open>1, 2, 3\<close> at head \<open>0\<close> and \<open>5\<close> at head \<open>1\<close>; element \<open>4\<close> is free.\<close>

definition sample_slist :: sl_mem where
  "sample_slist = \<lparr>heads = (\<lambda>h. \<lparr>slh_first = Some (if h = 0 then 1 else 5)\<rparr>),
     links = (\<lambda>a. if 1 \<le> a \<and> a \<le> 5 then Some \<lparr>sle_next = (if a \<le> 2 then Some (a + 1) else None)\<rparr> else None)\<rparr>"

lemma sample_slists: "slist sample_slist 0 [1, 2, 3]" "slist sample_slist 1 [5]" "alloc sample_slist 4"
  by code_simp+

text \<open>
  (C33) The operations of a singly linked list: insertion at the head and after a member, removal of
  the head, of the element after a member and of any member. Each succeeds, changes the list
  at that place only, and leaves a list at another head that shares no element with it as it was.
\<close>

theorem slist_operations:
  assumes "slist s h (ys @ b # zs)" "alloc s n" "n \<notin> set (ys @ b # zs)" "k = length ys"
    and "slist s h' os" "h' \<noteq> h" "set os \<inter> insert n (set (ys @ b # zs)) = {}"
  shows "(\<exists>t. SLIST_INSERT_HEAD s h n = Inr t \<and> slist t h (n # ys @ b # zs) \<and> slist t h' os) \<and>
    (\<exists>t. SLIST_INSERT_AFTER s b n = Inr t \<and> slist t h (ys @ b # n # zs) \<and> slist t h' os) \<and>
    (\<exists>t. SLIST_REMOVE_HEAD s h = Inr t \<and> slist t h (tl (ys @ b # zs)) \<and> slist t h' os) \<and>
    (zs \<noteq> [] \<longrightarrow> (\<exists>t. SLIST_REMOVE_AFTER s (Some b) = Inr t \<and> slist t h (ys @ b # tl zs) \<and> slist t h' os)) \<and>
    (\<exists>t. SLIST_REMOVE k s h b = Inr (Some t) \<and> slist t h (ys @ zs) \<and> slist t h' os)"
proof -
  have keep: "slist t h' os" if "only_touches s t H A" "H \<subseteq> {h}" "A \<subseteq> insert n (set (ys @ b # zs))" for t H A
    using slist_elsewhere[OF that(1) _ _ assms(5)] that(2,3) assms(6,7) by blast
  obtain c cs where c: "ys @ b # zs = c # cs" by (cases "ys @ b # zs") auto
  have "slist s h (c # cs)" using assms(1) c by simp
  from slist_remove_head[OF this] have "\<exists>t. SLIST_REMOVE_HEAD s h = Inr t \<and> slist t h (tl (ys @ b # zs)) \<and> slist t h' os"
    using keep c by fastforce
  moreover have "\<exists>t. SLIST_INSERT_HEAD s h n = Inr t \<and> slist t h (n # ys @ b # zs) \<and> slist t h' os"
    using slist_insert_head[OF assms(1-3)] keep by blast
  moreover have "\<exists>t. SLIST_INSERT_AFTER s b n = Inr t \<and> slist t h (ys @ b # n # zs) \<and> slist t h' os"
    using slist_insert_after[OF assms(1-3)] keep by fastforce
  moreover have "\<exists>t. SLIST_REMOVE_AFTER s (Some b) = Inr t \<and> slist t h (ys @ b # tl zs) \<and> slist t h' os" if "zs \<noteq> []"
    using slist_remove_after[of s h ys b "hd zs" "tl zs"] assms(1) that keep by fastforce
  moreover have "\<exists>t. SLIST_REMOVE k s h b = Inr (Some t) \<and> slist t h (ys @ zs) \<and> slist t h' os"
    using slist_remove[OF assms(1), of k] assms(4) keep by fastforce
  ultimately show ?thesis by blast
qed

theorem slist_operations_witness:
  "(\<exists>t. SLIST_INSERT_AFTER sample_slist 2 4 = Inr t \<and> slist t 0 [1, 2, 4, 3] \<and> slist t 1 [5]) \<and>
   (\<exists>t. SLIST_REMOVE 1 sample_slist 0 2 = Inr (Some t) \<and> slist t 0 [1, 3] \<and> slist t 1 [5])"
  using slist_operations[of sample_slist 0 "[1]" 2 "[3]" 4 1 1 "[5]"] sample_slists by auto

text \<open>
  \<open>SLIST_FOREACH_PREVPTR\<close> visits all elements in order and hands the body, with each element,
  the address of the pointer that leads to it: the head for the first element, the next pointer
  of its predecessor for the others.
\<close>

theorem prevptr_gives_leading_pointer:
  fixes body :: "addr \<Rightarrow> slot \<Rightarrow> 'm \<Rightarrow> 'm res"
  assumes "slist s h xs" "length xs \<le> n"
  shows "SLIST_FOREACH_PREVPTR n (\<lambda>_. s) h body m =
      bindE (foldE (\<lambda>(a, varp). body a varp) (zip xs (First_of h # map Next_of xs)) m) (\<lambda>m'. Inr (Some m')) \<and>
    (\<forall>i < length xs. sl_load s ((First_of h # map Next_of xs) ! i) = Inr (Some (xs ! i)))"
proof (intro conjI allI impI)
  show "SLIST_FOREACH_PREVPTR n (\<lambda>_. s) h body m =
      bindE (foldE (\<lambda>(a, varp). body a varp) (zip xs (First_of h # map Next_of xs)) m) (\<lambda>m'. Inr (Some m'))"
    using prevptr_walk[of "\<lambda>_. s" m h "[]" xs n body] assms by (simp add: SLIST_FOREACH_PREVPTR_def)
  fix i assume i: "i < length xs"
  have "xs = take i xs @ xs ! i # drop (Suc i) xs" using i by (simp add: id_take_nth_drop)
  then have "sl_load s (end_slot h (take i xs)) = Inr (Some (xs ! i))"
    using chain_at[of "sl_load s" h "take i xs" "xs ! i # drop (Suc i) xs"] assms(1) by (simp add: slist_def)
  moreover have "end_slot h (take i xs) = (First_of h # map Next_of xs) ! i"
    using i by (cases i) (simp_all add: take_Suc_conv_app_nth)
  ultimately show "sl_load s ((First_of h # map Next_of xs) ! i) = Inr (Some (xs ! i))" by simp
qed

theorem prevptr_gives_leading_pointer_witness:
  "SLIST_FOREACH_PREVPTR 3 (\<lambda>_. sample_slist) 0 (\<lambda>a q seen. Inr (seen @ [(a, q)])) [] =
     Inr (Some [(1, First_of 0), (2, Next_of 1), (3, Next_of 2)])"
  using prevptr_gives_leading_pointer[OF sample_slists(1), of 3 "\<lambda>a q seen. Inr (seen @ [(a, q)])" "[]"] by simp

end
