(* ===== verification/Singly_Tail_Queue.thy ===== *)
theory Singly_Tail_Queue
  imports Link_Chains
begin

text \<open>
  The singly linked tail queues of \<open>server/src/queue.h\<close> (the macros with prefix \<open>STAILQ\<close>). The head
  has, beside the pointer to the first element, the address of the last next pointer. Removing an
  arbitrary element searches from the front; the loop has fuel and gives \<open>None\<close> when it is spent.
\<close>

section \<open>Heads and entries\<close>

record stailq_head =
  stqh_first :: ptr
  stqh_last :: slot

record stailq_entry =
  stqe_next :: ptr

type_synonym stq_mem = "(stailq_head, stailq_entry) qmem"

abbreviation stq_load :: "stq_mem \<Rightarrow> slot \<Rightarrow> ptr res" where
  "stq_load \<equiv> load_at stqh_first stqe_next"

abbreviation stq_store :: "stq_mem \<Rightarrow> slot \<Rightarrow> ptr \<Rightarrow> stq_mem res" where
  "stq_store \<equiv> store_at (\<lambda>p v. v\<lparr>stqh_first := p\<rparr>) (\<lambda>p e. e\<lparr>stqe_next := p\<rparr>)"

abbreviation stq_set_last :: "stq_mem \<Rightarrow> head_id \<Rightarrow> slot \<Rightarrow> stq_mem" where
  "stq_set_last \<equiv> store_last (\<lambda>sl v. v\<lparr>stqh_last := sl\<rparr>)"

abbreviation stq_stored :: "stq_mem \<Rightarrow> slot \<Rightarrow> ptr \<Rightarrow> stq_mem" where
  "stq_stored \<equiv> stored_at (\<lambda>p v. v\<lparr>stqh_first := p\<rparr>) (\<lambda>p e. e\<lparr>stqe_next := p\<rparr>)"

interpretation stqf: link_fields stqh_first "\<lambda>p v. v\<lparr>stqh_first := p\<rparr>" stqe_next "\<lambda>p e. e\<lparr>stqe_next := p\<rparr>"
  by unfold_locales simp_all

interpretation stql: last_fields stqh_first "\<lambda>p v. v\<lparr>stqh_first := p\<rparr>" stqh_last "\<lambda>sl v. v\<lparr>stqh_last := sl\<rparr>"
  by unfold_locales simp_all

section \<open>The macros\<close>

definition STAILQ_HEAD_INITIALIZER :: "head_id \<Rightarrow> stailq_head" where
  "STAILQ_HEAD_INITIALIZER h = \<lparr>stqh_first = None, stqh_last = First_of h\<rparr>"

definition STAILQ_EMPTY :: "stq_mem \<Rightarrow> head_id \<Rightarrow> bool" where
  "STAILQ_EMPTY s h = (stqh_first (heads s h) = None)"

definition STAILQ_FIRST :: "stq_mem \<Rightarrow> head_id \<Rightarrow> ptr" where
  "STAILQ_FIRST s h = stqh_first (heads s h)"

definition STAILQ_NEXT :: "stq_mem \<Rightarrow> ptr \<Rightarrow> ptr res" where
  "STAILQ_NEXT s elm = bindE (link_of s elm) (\<lambda>e. Inr (stqe_next e))"

definition STAILQ_LAST :: "stq_mem \<Rightarrow> head_id \<Rightarrow> ptr res" where
  "STAILQ_LAST s h = (if STAILQ_EMPTY s h then Inr None else containerof (stqh_last (heads s h)))"

definition STAILQ_INIT :: "stq_mem \<Rightarrow> head_id \<Rightarrow> stq_mem" where
  "STAILQ_INIT s h = set_head s h \<lparr>stqh_first = None, stqh_last = First_of h\<rparr>"

definition STAILQ_CONCAT :: "stq_mem \<Rightarrow> head_id \<Rightarrow> head_id \<Rightarrow> stq_mem res" where
  "STAILQ_CONCAT s head1 head2 =
     (if STAILQ_EMPTY s head2 then Inr s
      else bindE (stq_store s (stqh_last (heads s head1)) (stqh_first (heads s head2))) (\<lambda>s1.
        Inr (STAILQ_INIT (stq_set_last s1 head1 (stqh_last (heads s1 head2))) head2)))"

definition STAILQ_INSERT_AFTER :: "stq_mem \<Rightarrow> head_id \<Rightarrow> addr \<Rightarrow> addr \<Rightarrow> stq_mem res" where
  "STAILQ_INSERT_AFTER s h tqelm elm =
     bindE (STAILQ_NEXT s (Some tqelm)) (\<lambda>nx.
     bindE (stq_store s (Next_of elm) nx) (\<lambda>s1.
       let s2 = (if nx = None then stq_set_last s1 h (Next_of elm) else s1) in
       stq_store s2 (Next_of tqelm) (Some elm)))"

definition STAILQ_INSERT_HEAD :: "stq_mem \<Rightarrow> head_id \<Rightarrow> addr \<Rightarrow> stq_mem res" where
  "STAILQ_INSERT_HEAD s h elm =
     bindE (stq_store s (Next_of elm) (STAILQ_FIRST s h)) (\<lambda>s1.
       let s2 = (if STAILQ_FIRST s h = None then stq_set_last s1 h (Next_of elm) else s1) in
       stq_store s2 (First_of h) (Some elm))"

definition STAILQ_INSERT_TAIL :: "stq_mem \<Rightarrow> head_id \<Rightarrow> addr \<Rightarrow> stq_mem res" where
  "STAILQ_INSERT_TAIL s h elm =
     bindE (stq_store s (Next_of elm) None) (\<lambda>s1.
     bindE (stq_store s1 (stqh_last (heads s1 h)) (Some elm)) (\<lambda>s2.
       Inr (stq_set_last s2 h (Next_of elm))))"

definition STAILQ_REMOVE_AFTER :: "stq_mem \<Rightarrow> head_id \<Rightarrow> ptr \<Rightarrow> stq_mem res" where
  "STAILQ_REMOVE_AFTER s h elm =
     bindE (STAILQ_NEXT s elm) (\<lambda>p. bindE (STAILQ_NEXT s p) (\<lambda>nx.
     bindE (next_slot elm) (\<lambda>sl. bindE (stq_store s sl nx) (\<lambda>s1.
       Inr (if nx = None then stq_set_last s1 h sl else s1)))))"

definition STAILQ_REMOVE_HEAD :: "stq_mem \<Rightarrow> head_id \<Rightarrow> stq_mem res" where
  "STAILQ_REMOVE_HEAD s h =
     bindE (STAILQ_NEXT s (STAILQ_FIRST s h)) (\<lambda>nx. bindE (stq_store s (First_of h) nx) (\<lambda>s1.
       Inr (if nx = None then stq_set_last s1 h (First_of h) else s1)))"

definition STAILQ_REMOVE :: "nat \<Rightarrow> stq_mem \<Rightarrow> head_id \<Rightarrow> addr \<Rightarrow> stq_mem option res" where
  "STAILQ_REMOVE n s h elm =
     (if STAILQ_FIRST s h = Some elm then bindE (STAILQ_REMOVE_HEAD s h) (\<lambda>s1. Inr (Some s1))
      else bindE (find_before n (STAILQ_NEXT s) (Some elm) (STAILQ_FIRST s h)) (\<lambda>found.
        case found of None \<Rightarrow> Inr None
        | Some curelm \<Rightarrow> bindE (STAILQ_REMOVE_AFTER s h curelm) (\<lambda>s1. Inr (Some s1))))"

definition STAILQ_SWAP :: "stq_mem \<Rightarrow> head_id \<Rightarrow> head_id \<Rightarrow> stq_mem" where
  "STAILQ_SWAP s head1 head2 =
     (let swap_first = STAILQ_FIRST s head1; swap_last = stqh_last (heads s head1);
          s1 = set_head s head1 \<lparr>stqh_first = STAILQ_FIRST s head2, stqh_last = stqh_last (heads s head2)\<rparr>;
          s2 = set_head s1 head2 \<lparr>stqh_first = swap_first, stqh_last = swap_last\<rparr>;
          s3 = (if STAILQ_EMPTY s2 head1 then stq_set_last s2 head1 (First_of head1) else s2) in
      if STAILQ_EMPTY s3 head2 then stq_set_last s3 head2 (First_of head2) else s3)"

text \<open>Traversals; \<open>mem\<close> is where the state of the loop has the links.\<close>

definition STAILQ_FOREACH ::
  "nat \<Rightarrow> ('m \<Rightarrow> stq_mem) \<Rightarrow> head_id \<Rightarrow> (addr \<Rightarrow> 'm \<Rightarrow> 'm res) \<Rightarrow> 'm \<Rightarrow> 'm option res" where
  "STAILQ_FOREACH n mem h body m = foreach_loop_from n (\<lambda>m. STAILQ_NEXT (mem m)) body (STAILQ_FIRST (mem m) h) m"

definition STAILQ_FOREACH_FROM ::
  "nat \<Rightarrow> ('m \<Rightarrow> stq_mem) \<Rightarrow> ptr \<Rightarrow> head_id \<Rightarrow> (addr \<Rightarrow> 'm \<Rightarrow> 'm res) \<Rightarrow> 'm \<Rightarrow> 'm option res" where
  "STAILQ_FOREACH_FROM n mem var h body m =
     foreach_loop_from n (\<lambda>m. STAILQ_NEXT (mem m)) body (start_from var (STAILQ_FIRST (mem m) h)) m"

definition STAILQ_FOREACH_SAFE ::
  "nat \<Rightarrow> ('m \<Rightarrow> stq_mem) \<Rightarrow> head_id \<Rightarrow> (addr \<Rightarrow> 'm \<Rightarrow> 'm res) \<Rightarrow> 'm \<Rightarrow> 'm option res" where
  "STAILQ_FOREACH_SAFE n mem h body m =
     foreach_safe_from n (\<lambda>m. STAILQ_NEXT (mem m)) body (STAILQ_FIRST (mem m) h) m"

definition STAILQ_FOREACH_FROM_SAFE ::
  "nat \<Rightarrow> ('m \<Rightarrow> stq_mem) \<Rightarrow> ptr \<Rightarrow> head_id \<Rightarrow> (addr \<Rightarrow> 'm \<Rightarrow> 'm res) \<Rightarrow> 'm \<Rightarrow> 'm option res" where
  "STAILQ_FOREACH_FROM_SAFE n mem var h body m =
     foreach_safe_from n (\<lambda>m. STAILQ_NEXT (mem m)) body (start_from var (STAILQ_FIRST (mem m) h)) m"

section \<open>What the macros do to the list of elements\<close>

text \<open>\<open>stailq s h xs\<close>: the queue with head \<open>h\<close> holds the elements \<open>xs\<close>, first to last.\<close>

definition stailq :: "stq_mem \<Rightarrow> head_id \<Rightarrow> addr list \<Rightarrow> bool" where
  "stailq s h xs \<longleftrightarrow> chain (stq_load s) (First_of h) xs \<and> stqh_last (heads s h) = end_slot h xs"

lemma stailq_chain: "stailq s h xs \<Longrightarrow> chain (stq_load s) (First_of h) xs"
  by (simp add: stailq_def)

lemma stailq_end: "stailq s h xs \<Longrightarrow> stqh_last (heads s h) = end_slot h xs"
  by (simp add: stailq_def)

lemma stailq_distinct: "stailq s h xs \<Longrightarrow> distinct xs"
  using stailq_chain chain_distinct by blast

lemma stailq_views:
  assumes "stailq s h (ys @ a # zs)"
  shows "stq_load s (Next_of a) = Inr (ptr_to zs)" "alloc s a" "stqe_next (the (links s a)) = ptr_to zs"
    "STAILQ_NEXT s (Some a) = Inr (ptr_to zs)"
proof -
  show l: "stq_load s (Next_of a) = Inr (ptr_to zs)" using assms chain_member stailq_chain by blast
  show al: "alloc s a" using load_valid[OF l] by simp
  show "stqe_next (the (links s a)) = ptr_to zs" using entry_views(2)[OF l] .
  then show "STAILQ_NEXT s (Some a) = Inr (ptr_to zs)" using al by (simp add: STAILQ_NEXT_def)
qed

lemma stailq_alloc: "stailq s h xs \<Longrightarrow> a \<in> set xs \<Longrightarrow> alloc s a"
  using stailq_views(2) split_list by metis

lemma stailq_first: "stailq s h xs \<Longrightarrow> STAILQ_FIRST s h = ptr_to xs"
  using chain_first[OF stailq_chain[of s h xs]] by (simp add: STAILQ_FIRST_def load_at.simps)

lemma stailq_empty: "stailq s h xs \<Longrightarrow> STAILQ_EMPTY s h = (xs = [])"
  using stailq_first[of s h xs] by (simp add: STAILQ_EMPTY_def STAILQ_FIRST_def)

lemma stailq_last:
  assumes "stailq s h xs"
  shows "STAILQ_LAST s h = Inr (if xs = [] then None else Some (last xs))"
  using stailq_empty[OF assms] stailq_end[OF assms] by (simp add: STAILQ_LAST_def)

lemma stailq_elsewhere:
  "only_touches s s' H A \<Longrightarrow> h \<notin> H \<Longrightarrow> set xs \<inter> A = {} \<Longrightarrow> stailq s h xs \<Longrightarrow> stailq s' h xs"
  using chain_touches[of s s' H A h xs] touches_views(1)[of s s' H A h] by (simp add: stailq_def)

interpretation stqw: walkable "\<lambda>s. stailq s h" STAILQ_NEXT for h
  by unfold_locales (rule stailq_views(4))

text \<open>A member goes in or out at any place when the last pointer follows.\<close>

lemma stailq_insert:
  assumes "stailq s h (ys @ zs)" "n \<notin> set (ys @ zs)"
    and "\<And>q. stq_load s' q = (if q = end_slot h ys then Inr (Some n)
                else if q = Next_of n then stq_load s (end_slot h ys) else stq_load s q)"
    and "stqh_last (heads s' h) = (if zs = [] then Next_of n else stqh_last (heads s h))"
  shows "stailq s' h (ys @ n # zs)"
  using chain_insert[OF stailq_chain[OF assms(1)] assms(2,3)] assms(1,4) by (auto simp: stailq_def)

lemma stailq_delete:
  assumes "stailq s h (ys @ a # zs)"
    and "\<And>q. q \<noteq> Next_of a \<Longrightarrow> stq_load s' q = (if q = end_slot h ys then stq_load s (Next_of a) else stq_load s q)"
    and "stqh_last (heads s' h) = (if zs = [] then end_slot h ys else stqh_last (heads s h))"
  shows "stailq s' h (ys @ zs)"
  using chain_remove[OF stailq_chain[OF assms(1)] assms(2)] assms(1,3) by (auto simp: stailq_def)

lemma stailq_init: "stailq (STAILQ_INIT s h) h [] \<and> only_touches s (STAILQ_INIT s h) {h} {}"
  by (auto simp: STAILQ_INIT_def stailq_def intro!: touches_intros)

lemma stailq_insert_head:
  assumes "stailq s h xs" "alloc s n" "n \<notin> set xs"
  shows "\<exists>s'. STAILQ_INSERT_HEAD s h n = Inr s' \<and> stailq s' h (n # xs) \<and> only_touches s s' {h} {n}"
proof -
  define s1 where "s1 = stq_stored s (Next_of n) (ptr_to xs)"
  define s2 where "s2 = (if xs = [] then stq_set_last s1 h (Next_of n) else s1)"
  define s' where "s' = stq_stored s2 (First_of h) (Some n)"
  note f = stailq_first[OF assms(1)] chain_first[OF stailq_chain[OF assms(1)]]
  have "stailq s' h ([] @ n # xs)"
    by (rule stailq_insert[of s]) (use assms f in \<open>auto simp: s'_def s2_def s1_def\<close>)
  moreover have "only_touches s s' {h} {n}"
    unfolding s'_def s2_def s1_def using assms(2) by (auto intro!: touches_intros)
  ultimately show ?thesis using assms(2) f by (auto simp: STAILQ_INSERT_HEAD_def Let_def s'_def s2_def s1_def)
qed

lemma stailq_insert_after:
  assumes "stailq s h (ys @ b # zs)" "alloc s n" "n \<notin> set (ys @ b # zs)"
  shows "\<exists>s'. STAILQ_INSERT_AFTER s h b n = Inr s' \<and> stailq s' h (ys @ b # n # zs) \<and> only_touches s s' {h} {b, n}"
proof -
  define s1 where "s1 = stq_stored s (Next_of n) (ptr_to zs)"
  define s2 where "s2 = (if zs = [] then stq_set_last s1 h (Next_of n) else s1)"
  define s' where "s' = stq_stored s2 (Next_of b) (Some n)"
  note v = stailq_views[OF assms(1)]
  have "stailq s' h ((ys @ [b]) @ n # zs)"
    by (rule stailq_insert[of s]) (use assms v in \<open>auto simp: s'_def s2_def s1_def\<close>)
  moreover have "only_touches s s' {h} {b, n}"
    unfolding s'_def s2_def s1_def using assms(2) v(2) by (auto intro!: touches_intros)
  ultimately show ?thesis using assms(2) v by (auto simp: STAILQ_INSERT_AFTER_def Let_def s'_def s2_def s1_def)
qed

lemma stailq_insert_tail:
  assumes "stailq s h xs" "alloc s n" "n \<notin> set xs"
  shows "\<exists>s'. STAILQ_INSERT_TAIL s h n = Inr s' \<and> stailq s' h (xs @ [n]) \<and> only_touches s s' {h} (insert n (set xs))"
proof -
  define e where "e = end_slot h xs"
  define s' where "s' = stq_set_last (stq_stored (stq_stored s (Next_of n) None) e (Some n)) h (Next_of n)"
  have l: "stq_load s e = Inr None" using chain_at[of _ h xs "[]"] stailq_chain[OF assms(1)] by (simp add: e_def)
  have v: "valid s e" "e \<noteq> Next_of n" using load_valid[OF l] assms(3) by (auto simp: e_def)
  have "stailq s' h (xs @ [n])"
    by (rule stailq_insert[of s]) (use assms v l in \<open>auto simp: s'_def e_def\<close>)
  moreover have "only_touches s s' {h} (insert n (set xs))"
    unfolding s'_def using assms v end_slot_cases[of h xs] by (intro touches_intros) (auto simp: e_def)
  ultimately show ?thesis
    using assms v stailq_end[OF assms(1)] by (simp add: STAILQ_INSERT_TAIL_def s'_def e_def)
qed

lemma stailq_remove_head:
  assumes "stailq s h (a # xs)"
  shows "\<exists>s'. STAILQ_REMOVE_HEAD s h = Inr s' \<and> stailq s' h xs \<and> only_touches s s' {h} {}"
proof -
  define s1 where "s1 = stq_stored s (First_of h) (ptr_to xs)"
  define s' where "s' = (if xs = [] then stq_set_last s1 h (First_of h) else s1)"
  note v = stailq_views[of s h "[]" a xs]
  have "stailq s' h ([] @ xs)"
    by (rule stailq_delete[of s h "[]" a]) (use assms v in \<open>auto simp: s'_def s1_def\<close>)
  moreover have "only_touches s s' {h} {}" unfolding s'_def s1_def by (auto intro!: touches_intros)
  ultimately show ?thesis
    using assms v stailq_first[OF assms] by (auto simp: STAILQ_REMOVE_HEAD_def s'_def s1_def)
qed

lemma stailq_remove_after:
  assumes "stailq s h (ys @ b # a # zs)"
  shows "\<exists>s'. STAILQ_REMOVE_AFTER s h (Some b) = Inr s' \<and> stailq s' h (ys @ b # zs) \<and> only_touches s s' {h} {b}"
proof -
  define s1 where "s1 = stq_stored s (Next_of b) (ptr_to zs)"
  define s' where "s' = (if zs = [] then stq_set_last s1 h (Next_of b) else s1)"
  note v = stailq_views[OF assms] and w = stailq_views[of s h "ys @ [b]" a zs]
  have "stailq s' h ((ys @ [b]) @ zs)"
    by (rule stailq_delete[of s h _ a]) (use assms v w in \<open>auto simp: s'_def s1_def\<close>)
  moreover have "only_touches s s' {h} {b}" unfolding s'_def s1_def using v(2) by (auto intro!: touches_intros)
  ultimately show ?thesis
    using assms v w by (auto simp: STAILQ_REMOVE_AFTER_def s'_def s1_def)
qed

lemma stailq_remove:
  assumes "stailq s h (ys @ a # zs)" "length ys \<le> n"
  shows "\<exists>s'. STAILQ_REMOVE n s h a = Inr (Some s') \<and> stailq s' h (ys @ zs) \<and> only_touches s s' {h} (set ys)"
proof (cases ys rule: rev_cases)
  case Nil
  then show ?thesis using assms(1) stailq_first[OF assms(1)] stailq_remove_head[of s h a zs]
    by (auto simp: STAILQ_REMOVE_def)
next
  case (snoc ws b)
  then have w: "stailq s h (ws @ b # a # zs)" using assms(1) by simp
  note d = stailq_distinct[OF assms(1)]
  have ne: "STAILQ_FIRST s h \<noteq> Some a" using stailq_first[OF w] d snoc by (cases ws) auto
  obtain s' where s': "STAILQ_REMOVE_AFTER s h (Some b) = Inr s'" "stailq s' h (ws @ b # zs)" "only_touches s s' {h} {b}"
    using stailq_remove_after[OF w] by blast
  have "find_before n (STAILQ_NEXT s) (Some a) (STAILQ_FIRST s h) = Inr (Some (Some b))"
    using stqw.find_before_member[of s h "[]" ws b "a # zs" n] w d snoc assms(2) stailq_first[OF w] by simp
  moreover have "only_touches s s' {h} (set ys)" using s'(3) snoc by (auto simp: only_touches_def)
  ultimately show ?thesis using ne s' snoc by (simp add: STAILQ_REMOVE_def)
qed

lemma stailq_remove_absent:
  assumes "stailq s h xs" "a \<notin> set xs" "length xs \<le> n"
  shows "STAILQ_REMOVE n s h a = Inl Null_deref"
proof -
  have "find_before n (STAILQ_NEXT s) (Some a) (ptr_to xs) = Inl Null_deref"
    using stqw.find_before_absent[of s h "[]" xs a n] assms by (simp add: STAILQ_NEXT_def)
  moreover have "STAILQ_FIRST s h \<noteq> Some a" using stailq_first[OF assms(1)] assms(2) by (cases xs) auto
  ultimately show ?thesis using stailq_first[OF assms(1)] by (simp add: STAILQ_REMOVE_def)
qed

lemma stailq_concat:
  assumes x: "stailq s h xs" and y: "stailq s k ys" and d: "set xs \<inter> set ys = {}" "h \<noteq> k"
  shows "\<exists>s'. STAILQ_CONCAT s h k = Inr s' \<and> stailq s' h (xs @ ys) \<and> stailq s' k [] \<and> only_touches s s' {h, k} (set xs)"
proof (cases "ys = []")
  case True
  then show ?thesis using x y stailq_empty[OF y] by (simp add: STAILQ_CONCAT_def)
next
  case False
  define e where "e = end_slot h xs"
  define s1 where "s1 = stq_stored s e (ptr_to ys)"
  define s' where "s' = STAILQ_INIT (stq_set_last s1 h (end_slot k ys)) k"
  have e: "valid s e" "e \<noteq> First_of k" "stqh_last (heads s h) = e"
    using end_slot_cases[of h xs] stailq_alloc[OF x] d(2) stailq_end[OF x] by (auto simp: e_def)
  note f = stailq_first[OF y, unfolded STAILQ_FIRST_def] stailq_end[OF y] stailq_empty[OF y]
  have "chain (stq_load s') (First_of h) (xs @ ys) \<and> chain (stq_load s') (First_of k) []"
    by (rule chain_join[OF stailq_chain[OF x] stailq_chain[OF y] d False])
      (use e in \<open>auto simp: s'_def s1_def STAILQ_INIT_def e_def\<close>)
  moreover have "stqh_last (heads s' h) = end_slot h (xs @ ys)" "stqh_last (heads s' k) = First_of k"
    using False d(2) by (simp_all add: s'_def STAILQ_INIT_def)
  moreover have "only_touches s s' {h, k} (set xs)"
    unfolding s'_def s1_def STAILQ_INIT_def using e end_slot_cases[of h xs] by (intro touches_intros) (auto simp: e_def)
  moreover have "STAILQ_CONCAT s h k = Inr s'"
    using f e False by (simp add: STAILQ_CONCAT_def s'_def s1_def)
  ultimately show ?thesis by (auto simp: stailq_def)
qed

lemma stailq_rehead:
  assumes "stailq s h xs" "\<And>a. stq_load s' (Next_of a) = stq_load s (Next_of a)"
    and "stqh_first (heads s' k) = stqh_first (heads s h)"
    and "stqh_last (heads s' k) = (if xs = [] then First_of k else stqh_last (heads s h))"
  shows "stailq s' k xs"
  using chain_rehead[OF stailq_chain[OF assms(1)] assms(2), of k] assms(1,3,4)
  by (simp add: stailq_def load_at.simps(1))

lemma stailq_swap:
  assumes x: "stailq s h xs" and y: "stailq s k ys" and d: "h \<noteq> k"
  shows "stailq (STAILQ_SWAP s h k) h ys \<and> stailq (STAILQ_SWAP s h k) k xs \<and>
    only_touches s (STAILQ_SWAP s h k) {h, k} {}"
proof -
  note f = stailq_first[OF x] stailq_first[OF y]
  have "stailq (STAILQ_SWAP s h k) h ys"
    by (rule stailq_rehead[OF y]) (use f d in \<open>auto simp: STAILQ_SWAP_def Let_def STAILQ_EMPTY_def STAILQ_FIRST_def\<close>)
  moreover have "stailq (STAILQ_SWAP s h k) k xs"
    by (rule stailq_rehead[OF x]) (use f d in \<open>auto simp: STAILQ_SWAP_def Let_def STAILQ_EMPTY_def STAILQ_FIRST_def\<close>)
  moreover have "only_touches s (STAILQ_SWAP s h k) {h, k} {}"
    by (auto simp: STAILQ_SWAP_def Let_def intro!: touches_intros)
  ultimately show ?thesis by simp
qed

section \<open>Properties\<close>

text \<open>The queue \<open>1, 2, 3\<close> at head \<open>0\<close> and \<open>5\<close> at head \<open>1\<close>; element \<open>4\<close> is free.\<close>

definition sample_stailq :: stq_mem where
  "sample_stailq = \<lparr>heads = (\<lambda>h. if h = 0 then \<lparr>stqh_first = Some 1, stqh_last = Next_of 3\<rparr>
       else \<lparr>stqh_first = Some 5, stqh_last = Next_of 5\<rparr>),
     links = (\<lambda>a. if 1 \<le> a \<and> a \<le> 5 then Some \<lparr>stqe_next = (if a \<le> 2 then Some (a + 1) else None)\<rparr> else None)\<rparr>"

lemma sample_stailqs: "stailq sample_stailq 0 [1, 2, 3]" "stailq sample_stailq 1 [5]" "alloc sample_stailq 4"
  by code_simp+

text \<open>
  (C26) The operations of a singly linked tail queue: insertion at the head, at the tail and after a
  member, removal of the head, of the element after a member and of any member. Each succeeds,
  changes the queue at that place only, keeps the last pointer at its end, so that
  \<open>STAILQ_LAST\<close> finds the last element, and leaves a queue at another head that shares no element
  with it as it was.
\<close>

theorem stailq_operations:
  assumes "stailq s h (ys @ b # zs)" "alloc s n" "n \<notin> set (ys @ b # zs)" "k = length ys"
    and "stailq s h' os" "h' \<noteq> h" "set os \<inter> insert n (set (ys @ b # zs)) = {}"
  shows "(\<exists>t. STAILQ_INSERT_HEAD s h n = Inr t \<and> stailq t h (n # ys @ b # zs) \<and> stailq t h' os) \<and>
    (\<exists>t. STAILQ_INSERT_TAIL s h n = Inr t \<and> stailq t h (ys @ b # zs @ [n]) \<and> stailq t h' os \<and>
      STAILQ_LAST t h = Inr (Some n)) \<and>
    (\<exists>t. STAILQ_INSERT_AFTER s h b n = Inr t \<and> stailq t h (ys @ b # n # zs) \<and> stailq t h' os) \<and>
    (\<exists>t. STAILQ_REMOVE_HEAD s h = Inr t \<and> stailq t h (tl (ys @ b # zs)) \<and> stailq t h' os) \<and>
    (zs \<noteq> [] \<longrightarrow> (\<exists>t. STAILQ_REMOVE_AFTER s h (Some b) = Inr t \<and> stailq t h (ys @ b # tl zs) \<and> stailq t h' os)) \<and>
    (\<exists>t. STAILQ_REMOVE k s h b = Inr (Some t) \<and> stailq t h (ys @ zs) \<and> stailq t h' os) \<and>
    STAILQ_FIRST s h = Some (hd (ys @ [b])) \<and> STAILQ_LAST s h = Inr (Some (last (b # zs)))"
proof -
  have keep: "stailq t h' os" if "only_touches s t H A" "H \<subseteq> {h}" "A \<subseteq> insert n (set (ys @ b # zs))" for t H A
    using stailq_elsewhere[OF that(1) _ _ assms(5)] that(2,3) assms(6,7) by blast
  obtain c cs where c: "ys @ b # zs = c # cs" by (cases "ys @ b # zs") auto
  have "stailq s h (c # cs)" using assms(1) c by simp
  from stailq_remove_head[OF this]
  have "\<exists>t. STAILQ_REMOVE_HEAD s h = Inr t \<and> stailq t h (tl (ys @ b # zs)) \<and> stailq t h' os"
    using keep c by fastforce
  moreover have "\<exists>t. STAILQ_INSERT_HEAD s h n = Inr t \<and> stailq t h (n # ys @ b # zs) \<and> stailq t h' os"
    using stailq_insert_head[OF assms(1-3)] keep by blast
  moreover have "\<exists>t. STAILQ_INSERT_TAIL s h n = Inr t \<and> stailq t h (ys @ b # zs @ [n]) \<and> stailq t h' os \<and>
      STAILQ_LAST t h = Inr (Some n)"
    using stailq_insert_tail[OF assms(1-3)] keep stailq_last by fastforce
  moreover have "\<exists>t. STAILQ_INSERT_AFTER s h b n = Inr t \<and> stailq t h (ys @ b # n # zs) \<and> stailq t h' os"
    using stailq_insert_after[OF assms(1-3)] keep by fastforce
  moreover have "\<exists>t. STAILQ_REMOVE_AFTER s h (Some b) = Inr t \<and> stailq t h (ys @ b # tl zs) \<and> stailq t h' os" if "zs \<noteq> []"
    using stailq_remove_after[of s h ys b "hd zs" "tl zs"] assms(1) that keep by fastforce
  moreover have "\<exists>t. STAILQ_REMOVE k s h b = Inr (Some t) \<and> stailq t h (ys @ zs) \<and> stailq t h' os"
    using stailq_remove[OF assms(1), of k] assms(4) keep by fastforce
  moreover have "STAILQ_FIRST s h = Some (hd (ys @ [b]))" "STAILQ_LAST s h = Inr (Some (last (b # zs)))"
    using stailq_first[OF assms(1)] stailq_last[OF assms(1)] by (cases ys, auto)
  ultimately show ?thesis by blast
qed

theorem stailq_operations_witness:
  "(\<exists>t. STAILQ_INSERT_TAIL sample_stailq 0 4 = Inr t \<and> stailq t 0 [1, 2, 3, 4] \<and> STAILQ_LAST t 0 = Inr (Some 4)) \<and>
   (\<exists>t. STAILQ_REMOVE 1 sample_stailq 0 2 = Inr (Some t) \<and> stailq t 0 [1, 3] \<and> stailq t 1 [5])"
  using stailq_operations[of sample_stailq 0 "[1]" 2 "[3]" 4 1 1 "[5]"] sample_stailqs by auto

end
