(* ===== verification/Doubly_List.thy ===== *)
theory Doubly_List
  imports Link_Chains
begin

text \<open>
  The doubly linked lists of \<open>server/src/queue.h\<close> (the macros with prefix \<open>LIST\<close>). A head has one
  pointer; an entry has the address of the pointer that leads to it, so that an element is removed
  without a search. Joining two lists searches the end of the first; the loop has fuel and gives
  \<open>None\<close> when it is spent. The consistency checks are compiled in kernels with \<open>INVARIANTS\<close> only
  and empty in this build; they are definitions of their own here.
\<close>

section \<open>Heads and entries\<close>

record list_head =
  lh_first :: ptr

record list_entry =
  le_next :: ptr
  le_prev :: slot

type_synonym ll_mem = "(list_head, list_entry) qmem"

abbreviation ll_load :: "ll_mem \<Rightarrow> slot \<Rightarrow> ptr res" where
  "ll_load \<equiv> load_at lh_first le_next"

abbreviation ll_store :: "ll_mem \<Rightarrow> slot \<Rightarrow> ptr \<Rightarrow> ll_mem res" where
  "ll_store \<equiv> store_at (\<lambda>p v. v\<lparr>lh_first := p\<rparr>) (\<lambda>p e. e\<lparr>le_next := p\<rparr>)"

abbreviation ll_set_prev :: "ll_mem \<Rightarrow> ptr \<Rightarrow> slot \<Rightarrow> ll_mem res" where
  "ll_set_prev \<equiv> store_back (\<lambda>sl e. e\<lparr>le_prev := sl\<rparr>)"

abbreviation ll_prev_of :: "ll_mem \<Rightarrow> addr \<Rightarrow> slot option" where
  "ll_prev_of \<equiv> back_at le_prev"

abbreviation ll_stored :: "ll_mem \<Rightarrow> slot \<Rightarrow> ptr \<Rightarrow> ll_mem" where
  "ll_stored \<equiv> stored_at (\<lambda>p v. v\<lparr>lh_first := p\<rparr>) (\<lambda>p e. e\<lparr>le_next := p\<rparr>)"

abbreviation ll_with_prev :: "ll_mem \<Rightarrow> addr \<Rightarrow> slot \<Rightarrow> ll_mem" where
  "ll_with_prev \<equiv> back_stored (\<lambda>sl e. e\<lparr>le_prev := sl\<rparr>)"

interpretation llf: back_fields lh_first "\<lambda>p v. v\<lparr>lh_first := p\<rparr>" le_next "\<lambda>p e. e\<lparr>le_next := p\<rparr>"
  le_prev "\<lambda>sl e. e\<lparr>le_prev := sl\<rparr>"
  by unfold_locales simp_all

section \<open>The macros\<close>

definition LIST_HEAD_INITIALIZER :: list_head where
  "LIST_HEAD_INITIALIZER = \<lparr>lh_first = None\<rparr>"

definition LIST_EMPTY :: "ll_mem \<Rightarrow> head_id \<Rightarrow> bool" where
  "LIST_EMPTY s h = (lh_first (heads s h) = None)"

definition LIST_FIRST :: "ll_mem \<Rightarrow> head_id \<Rightarrow> ptr" where
  "LIST_FIRST s h = lh_first (heads s h)"

definition LIST_NEXT :: "ll_mem \<Rightarrow> ptr \<Rightarrow> ptr res" where
  "LIST_NEXT s elm = bindE (link_of s elm) (\<lambda>e. Inr (le_next e))"

definition LIST_PREV :: "ll_mem \<Rightarrow> ptr \<Rightarrow> head_id \<Rightarrow> ptr res" where
  "LIST_PREV s elm h =
     bindE (link_of s elm) (\<lambda>e. if le_prev e = First_of h then Inr None else containerof (le_prev e))"

definition LIST_INIT :: "ll_mem \<Rightarrow> head_id \<Rightarrow> ll_mem" where
  "LIST_INIT s h = set_head s h ((heads s h)\<lparr>lh_first := None\<rparr>)"

definition LIST_INSERT_AFTER :: "ll_mem \<Rightarrow> addr \<Rightarrow> addr \<Rightarrow> ll_mem res" where
  "LIST_INSERT_AFTER s listelm elm =
     bindE (LIST_NEXT s (Some listelm)) (\<lambda>nx.
     bindE (ll_store s (Next_of elm) nx) (\<lambda>s1.
     bindE (if nx \<noteq> None
            then bindE (LIST_NEXT s1 (Some listelm)) (\<lambda>p. ll_set_prev s1 p (Next_of elm))
            else Inr s1) (\<lambda>s2.
     bindE (ll_store s2 (Next_of listelm) (Some elm)) (\<lambda>s3.
       ll_set_prev s3 (Some elm) (Next_of listelm)))))"

definition LIST_INSERT_BEFORE :: "ll_mem \<Rightarrow> addr \<Rightarrow> addr \<Rightarrow> ll_mem res" where
  "LIST_INSERT_BEFORE s listelm elm =
     bindE (link_of s (Some listelm)) (\<lambda>l.
     bindE (ll_set_prev s (Some elm) (le_prev l)) (\<lambda>s1.
     bindE (ll_store s1 (Next_of elm) (Some listelm)) (\<lambda>s2.
     bindE (link_of s2 (Some listelm)) (\<lambda>l2.
     bindE (ll_store s2 (le_prev l2) (Some elm)) (\<lambda>s3.
       ll_set_prev s3 (Some listelm) (Next_of elm))))))"

definition LIST_INSERT_HEAD :: "ll_mem \<Rightarrow> head_id \<Rightarrow> addr \<Rightarrow> ll_mem res" where
  "LIST_INSERT_HEAD s h elm =
     bindE (ll_store s (Next_of elm) (LIST_FIRST s h)) (\<lambda>s1.
     bindE (if LIST_FIRST s h \<noteq> None then ll_set_prev s1 (LIST_FIRST s1 h) (Next_of elm) else Inr s1) (\<lambda>s2.
     bindE (ll_store s2 (First_of h) (Some elm)) (\<lambda>s3.
       ll_set_prev s3 (Some elm) (First_of h))))"

definition LIST_REMOVE :: "ll_mem \<Rightarrow> addr \<Rightarrow> ll_mem res" where
  "LIST_REMOVE s elm =
     bindE (link_of s (Some elm)) (\<lambda>e.
     bindE (if le_next e \<noteq> None then ll_set_prev s (le_next e) (le_prev e) else Inr s) (\<lambda>s1.
     bindE (link_of s1 (Some elm)) (\<lambda>e1.
       ll_store s1 (le_prev e1) (le_next e1))))"

definition LIST_CONCAT :: "nat \<Rightarrow> ll_mem \<Rightarrow> head_id \<Rightarrow> head_id \<Rightarrow> ll_mem option res" where
  "LIST_CONCAT n s head1 head2 =
     (if LIST_FIRST s head1 = None then
        bindE (ll_store s (First_of head1) (LIST_FIRST s head2)) (\<lambda>s1.
          if LIST_FIRST s1 head1 \<noteq> None then
            bindE (ll_set_prev s1 (LIST_FIRST s1 head2) (First_of head1)) (\<lambda>s2. Inr (Some (LIST_INIT s2 head2)))
          else Inr (Some s1))
      else if LIST_FIRST s head2 \<noteq> None then
        bindE (find_before n (LIST_NEXT s) None (LIST_FIRST s head1)) (\<lambda>found.
          case found of None \<Rightarrow> Inr None
          | Some curelm \<Rightarrow>
              bindE (next_slot curelm) (\<lambda>sl.
              bindE (ll_store s sl (LIST_FIRST s head2)) (\<lambda>s1.
              bindE (ll_set_prev s1 (LIST_FIRST s1 head2) sl) (\<lambda>s2.
                Inr (Some (LIST_INIT s2 head2))))))
      else Inr (Some s))"

definition LIST_SWAP :: "ll_mem \<Rightarrow> head_id \<Rightarrow> head_id \<Rightarrow> ll_mem res" where
  "LIST_SWAP s head1 head2 =
     (let swap_tmp = LIST_FIRST s head1 in
      bindE (ll_store s (First_of head1) (LIST_FIRST s head2)) (\<lambda>s1.
      bindE (ll_store s1 (First_of head2) swap_tmp) (\<lambda>s2.
      bindE (if LIST_FIRST s2 head1 \<noteq> None then ll_set_prev s2 (LIST_FIRST s2 head1) (First_of head1) else Inr s2) (\<lambda>s3.
        if LIST_FIRST s3 head2 \<noteq> None then ll_set_prev s3 (LIST_FIRST s3 head2) (First_of head2) else Inr s3))))"

text \<open>Traversals; \<open>mem\<close> is where the state of the loop has the links.\<close>

definition LIST_FOREACH ::
  "nat \<Rightarrow> ('m \<Rightarrow> ll_mem) \<Rightarrow> head_id \<Rightarrow> (addr \<Rightarrow> 'm \<Rightarrow> 'm res) \<Rightarrow> 'm \<Rightarrow> 'm option res" where
  "LIST_FOREACH n mem h body m = foreach_loop_from n (\<lambda>m. LIST_NEXT (mem m)) body (LIST_FIRST (mem m) h) m"

definition LIST_FOREACH_FROM ::
  "nat \<Rightarrow> ('m \<Rightarrow> ll_mem) \<Rightarrow> ptr \<Rightarrow> head_id \<Rightarrow> (addr \<Rightarrow> 'm \<Rightarrow> 'm res) \<Rightarrow> 'm \<Rightarrow> 'm option res" where
  "LIST_FOREACH_FROM n mem var h body m =
     foreach_loop_from n (\<lambda>m. LIST_NEXT (mem m)) body (start_from var (LIST_FIRST (mem m) h)) m"

definition LIST_FOREACH_SAFE ::
  "nat \<Rightarrow> ('m \<Rightarrow> ll_mem) \<Rightarrow> head_id \<Rightarrow> (addr \<Rightarrow> 'm \<Rightarrow> 'm res) \<Rightarrow> 'm \<Rightarrow> 'm option res" where
  "LIST_FOREACH_SAFE n mem h body m = foreach_safe_from n (\<lambda>m. LIST_NEXT (mem m)) body (LIST_FIRST (mem m) h) m"

definition LIST_FOREACH_FROM_SAFE ::
  "nat \<Rightarrow> ('m \<Rightarrow> ll_mem) \<Rightarrow> ptr \<Rightarrow> head_id \<Rightarrow> (addr \<Rightarrow> 'm \<Rightarrow> 'm res) \<Rightarrow> 'm \<Rightarrow> 'm option res" where
  "LIST_FOREACH_FROM_SAFE n mem var h body m =
     foreach_safe_from n (\<lambda>m. LIST_NEXT (mem m)) body (start_from var (LIST_FIRST (mem m) h)) m"

text \<open>The consistency checks: \<open>True\<close> when the check passes, \<open>False\<close> when it calls \<open>panic\<close>.\<close>

definition QMD_LIST_CHECK_HEAD :: "ll_mem \<Rightarrow> head_id \<Rightarrow> bool res" where
  "QMD_LIST_CHECK_HEAD s h =
     (if LIST_FIRST s h = None then Inr True
      else bindE (link_of s (LIST_FIRST s h)) (\<lambda>e. Inr (le_prev e = First_of h)))"

definition QMD_LIST_CHECK_NEXT :: "ll_mem \<Rightarrow> addr \<Rightarrow> bool res" where
  "QMD_LIST_CHECK_NEXT s elm =
     bindE (LIST_NEXT s (Some elm)) (\<lambda>nx.
       if nx = None then Inr True
       else bindE (link_of s nx) (\<lambda>e. Inr (le_prev e = Next_of elm)))"

definition QMD_LIST_CHECK_PREV :: "ll_mem \<Rightarrow> addr \<Rightarrow> bool res" where
  "QMD_LIST_CHECK_PREV s elm =
     bindE (link_of s (Some elm)) (\<lambda>e. bindE (ll_load s (le_prev e)) (\<lambda>p. Inr (p = Some elm)))"

section \<open>What the macros do to the list of elements\<close>

text \<open>\<open>llist s h xs\<close>: the list with head \<open>h\<close> holds the elements \<open>xs\<close>.\<close>

definition llist :: "ll_mem \<Rightarrow> head_id \<Rightarrow> addr list \<Rightarrow> bool" where
  "llist s h xs = dlist (ll_load s) (ll_prev_of s) h xs"

lemma llist_distinct: "llist s h xs \<Longrightarrow> distinct xs"
  by (simp add: llist_def dlist_def)

lemma llist_views:
  assumes "llist s h (ys @ a # zs)"
  shows "ll_load s (Next_of a) = Inr (ptr_to zs)" "ll_prev_of s a = Some (end_slot h ys)" "alloc s a"
    "le_next (the (links s a)) = ptr_to zs" "le_prev (the (links s a)) = end_slot h ys"
    "LIST_NEXT s (Some a) = Inr (ptr_to zs)" "ll_load s (end_slot h ys) = Inr (Some a)"
proof -
  show l: "ll_load s (Next_of a) = Inr (ptr_to zs)" and p: "ll_prev_of s a = Some (end_slot h ys)"
    using assms dlist_member by (simp_all add: llist_def)
  show al: "alloc s a" using load_valid[OF l] by simp
  show "le_next (the (links s a)) = ptr_to zs" "le_prev (the (links s a)) = end_slot h ys"
    using entry_views(2)[OF l] entry_views(1)[OF p] .
  then show "LIST_NEXT s (Some a) = Inr (ptr_to zs)" using al by (simp add: LIST_NEXT_def)
  show "ll_load s (end_slot h ys) = Inr (Some a)" using assms dlist_at by (fastforce simp: llist_def)
qed

lemma llist_alloc: "llist s h xs \<Longrightarrow> a \<in> set xs \<Longrightarrow> alloc s a"
  using llist_views(3) split_list by metis

lemma llist_first: "llist s h xs \<Longrightarrow> LIST_FIRST s h = ptr_to xs"
  using dlist_first[of "ll_load s" "ll_prev_of s" h xs] by (simp add: llist_def LIST_FIRST_def load_at.simps)

lemma llist_empty: "llist s h xs \<Longrightarrow> LIST_EMPTY s h = (xs = [])"
  using llist_first[of s h xs] by (simp add: LIST_EMPTY_def LIST_FIRST_def)

lemma llist_prev:
  assumes "llist s h (ys @ a # zs)"
  shows "LIST_PREV s (Some a) h = Inr (if ys = [] then None else Some (last ys))"
  using llist_views[OF assms] by (simp add: LIST_PREV_def)

lemma llist_elsewhere:
  "only_touches s s' H A \<Longrightarrow> h \<notin> H \<Longrightarrow> set xs \<inter> A = {} \<Longrightarrow> llist s h xs \<Longrightarrow> llist s' h xs"
  unfolding llist_def by (rule dlist_touches)

lemma llist_disjoint: "llist s h xs \<Longrightarrow> llist s k ys \<Longrightarrow> h \<noteq> k \<Longrightarrow> set xs \<inter> set ys = {}"
  unfolding llist_def by (rule dlist_disjoint)

interpretation llw: walkable "\<lambda>s. llist s h" LIST_NEXT for h
  by unfold_locales (rule llist_views(6))

interpretation llr: walkable "\<lambda>s xs. llist s h (rev xs)" "\<lambda>s p. LIST_PREV s p h" for h
proof
  show "LIST_PREV s (Some a) h = Inr (ptr_to zs)" if "llist s h (rev (ys @ a # zs))" for s ys a zs
    using llist_prev[of s h "rev zs" a "rev ys"] that by (cases zs) simp_all
qed

lemma llist_init: "llist (LIST_INIT s h) h [] \<and> only_touches s (LIST_INIT s h) {h} {}"
  by (auto simp: LIST_INIT_def llist_def dlist_empty intro!: touches_intros)

lemma llist_insert_head:
  assumes "llist s h xs" "alloc s n" "n \<notin> set xs"
  shows "\<exists>s'. LIST_INSERT_HEAD s h n = Inr s' \<and> llist s' h (n # xs) \<and> only_touches s s' {h} (insert n (set xs))"
proof -
  define s1 where "s1 = ll_stored s (Next_of n) (ptr_to xs)"
  define s2 where "s2 = (if xs = [] then s1 else ll_with_prev s1 (hd xs) (Next_of n))"
  define s' where "s' = ll_with_prev (ll_stored s2 (First_of h) (Some n)) n (First_of h)"
  have a: "alloc s a" if "a \<in> set xs" for a using llist_alloc[OF assms(1) that] .
  note f = llist_first[OF assms(1)] dlist_first[OF assms(1)[unfolded llist_def]]
  have "dlist (ll_load s') (ll_prev_of s') h ([] @ n # xs)"
    by (rule dlist_insert[of "ll_load s" "ll_prev_of s"])
      (use assms a f in \<open>auto simp: llist_def s'_def s2_def s1_def\<close>)
  moreover have "only_touches s s' {h} (insert n (set xs))"
    unfolding s'_def s2_def s1_def using assms a by (auto intro!: touches_intros)
  moreover have "LIST_INSERT_HEAD s h n = Inr s'"
    using assms a f by (cases xs) (simp_all add: LIST_INSERT_HEAD_def LIST_FIRST_def s'_def s2_def s1_def)
  ultimately show ?thesis by (simp add: llist_def)
qed

lemma llist_insert_after:
  assumes "llist s h (ys @ b # zs)" "alloc s n" "n \<notin> set (ys @ b # zs)"
  shows "\<exists>s'. LIST_INSERT_AFTER s b n = Inr s' \<and> llist s' h (ys @ b # n # zs) \<and>
    only_touches s s' {} (insert n (set (ys @ b # zs)))"
proof -
  define s1 where "s1 = ll_stored s (Next_of n) (ptr_to zs)"
  define s2 where "s2 = (if zs = [] then s1 else ll_with_prev s1 (hd zs) (Next_of n))"
  define s' where "s' = ll_with_prev (ll_stored s2 (Next_of b) (Some n)) n (Next_of b)"
  note v = llist_views[OF assms(1)]
  have a: "alloc s c" if "c \<in> set (ys @ b # zs)" for c using llist_alloc[OF assms(1) that] .
  have "dlist (ll_load s') (ll_prev_of s') h ((ys @ [b]) @ n # zs)"
    by (rule dlist_insert[of "ll_load s" "ll_prev_of s"])
      (use assms a v in \<open>auto simp: llist_def s'_def s2_def s1_def\<close>)
  moreover have "only_touches s s' {} (insert n (set (ys @ b # zs)))"
    unfolding s'_def s2_def s1_def using assms(2) a by (auto intro!: touches_intros)
  moreover have "LIST_INSERT_AFTER s b n = Inr s'"
    using assms a v by (cases zs) (simp_all add: LIST_INSERT_AFTER_def LIST_NEXT_def s'_def s2_def s1_def)
  ultimately show ?thesis by (simp add: llist_def)
qed

lemma llist_insert_before:
  assumes "llist s h (ys @ b # zs)" "alloc s n" "n \<notin> set (ys @ b # zs)"
  shows "\<exists>s'. LIST_INSERT_BEFORE s b n = Inr s' \<and> llist s' h (ys @ n # b # zs) \<and>
    only_touches s s' {h} (insert n (set (ys @ b # zs)))"
proof -
  define e where "e = end_slot h ys"
  define s' where "s' = ll_with_prev (ll_stored (ll_stored (ll_with_prev s n e) (Next_of n) (Some b)) e (Some n)) b (Next_of n)"
  note v = llist_views[OF assms(1)]
  have a: "alloc s c" if "c \<in> set (ys @ b # zs)" for c using llist_alloc[OF assms(1) that] .
  have e: "valid s e" "e \<noteq> Next_of n" "ll_load s e = Inr (Some b)"
    using load_valid[OF v(7)] v(7) assms(3) by (auto simp: e_def)
  have "dlist (ll_load s') (ll_prev_of s') h (ys @ n # b # zs)"
    by (rule dlist_insert[of "ll_load s" "ll_prev_of s"])
      (use assms a e in \<open>auto simp: llist_def s'_def e_def\<close>)
  moreover have "only_touches s s' {h} (insert n (set (ys @ b # zs)))"
    unfolding s'_def using assms(2) a e end_slot_cases[of h ys] by (auto intro!: touches_intros simp: e_def)
  moreover have "LIST_INSERT_BEFORE s b n = Inr s'"
    using assms(2,3) a v e by (simp add: LIST_INSERT_BEFORE_def s'_def e_def)
  ultimately show ?thesis by (simp add: llist_def)
qed

lemma llist_remove:
  assumes "llist s h (ys @ a # zs)"
  shows "\<exists>s'. LIST_REMOVE s a = Inr s' \<and> llist s' h (ys @ zs) \<and> only_touches s s' {h} (set (ys @ a # zs))"
proof -
  define e where "e = end_slot h ys"
  define s1 where "s1 = (if zs = [] then s else ll_with_prev s (hd zs) e)"
  define s' where "s' = ll_stored s1 e (ptr_to zs)"
  note v = llist_views[OF assms] and d = llist_distinct[OF assms]
  have al: "alloc s c" if "c \<in> set (ys @ a # zs)" for c using llist_alloc[OF assms that] .
  have e: "valid s e" using load_valid[OF v(7)] by (simp add: e_def)
  have "dlist (ll_load s') (ll_prev_of s') h (ys @ zs)"
    by (rule dlist_remove[OF assms[unfolded llist_def]])
      (use al e v in \<open>auto simp: s'_def s1_def e_def\<close>)
  moreover have "only_touches s s' {h} (set (ys @ a # zs))"
    unfolding s'_def s1_def using al e end_slot_cases[of h ys] by (auto intro!: touches_intros simp: e_def)
  moreover have "LIST_REMOVE s a = Inr s'"
    using al e v d by (cases zs) (simp_all add: LIST_REMOVE_def s'_def s1_def e_def)
  ultimately show ?thesis by (simp add: llist_def)
qed

lemma llist_concat:
  assumes x: "llist s h xs" and y: "llist s k ys" and "h \<noteq> k" and n: "length xs \<le> n"
  shows "\<exists>s'. LIST_CONCAT n s h k = Inr (Some s') \<and> llist s' h (xs @ ys) \<and> llist s' k [] \<and>
    only_touches s s' {h, k} (set (xs @ ys))"
proof (cases ys)
  case Nil
  then have "LIST_CONCAT n s h k = Inr (Some (if xs = [] then ll_stored s (First_of h) None else s))"
    using llist_first[OF x] llist_first[OF y] assms(3)
    by (auto simp: LIST_CONCAT_def LIST_FIRST_def stored_at.simps)
  moreover have "llist (ll_stored s (First_of h) None) h []" "llist (ll_stored s (First_of h) None) k []"
    "only_touches s (ll_stored s (First_of h) None) {h, k} (set (xs @ ys))"
    using y Nil assms(3) by (auto simp: llist_def dlist_empty intro!: touches_intros)
  ultimately show ?thesis using x y Nil by auto
next
  case (Cons b bs)
  define e where "e = end_slot h xs"
  define s1 where "s1 = ll_with_prev (ll_stored s e (Some b)) b e"
  define s' where "s' = LIST_INIT s1 k"
  have e: "valid s e" "e \<noteq> First_of k"
    using end_slot_cases[of h xs] llist_alloc[OF x] assms(3) by (auto simp: e_def)
  have b: "alloc s b" using llist_alloc[OF y] Cons by simp
  note f = llist_first[OF x] llist_first[OF y]
  have "dlist (ll_load s') (ll_prev_of s') h (xs @ ys) \<and> dlist (ll_load s') (ll_prev_of s') k []"
    by (rule dlist_join[OF x[unfolded llist_def] y[unfolded llist_def] llist_disjoint[OF x y assms(3)] assms(3)])
      (use e b Cons in \<open>auto simp: s'_def s1_def LIST_INIT_def e_def\<close>)
  moreover have "only_touches s s' {h, k} (set (xs @ ys))"
    unfolding s'_def s1_def LIST_INIT_def using e b Cons end_slot_cases[of h xs]
    by (intro touches_intros) (auto simp: e_def)
  moreover have "LIST_CONCAT n s h k = Inr (Some s')"
  proof (cases xs rule: rev_cases)
    case Nil
    then show ?thesis using f e b Cons assms(3)
      by (simp add: LIST_CONCAT_def LIST_FIRST_def s'_def s1_def e_def stored_at.simps)
  next
    case (snoc ws c)
    have "find_before n (LIST_NEXT s) None (ptr_to xs) = Inr (Some (Some c))"
      using llw.find_before_member[of s h "[]" ws c "[]" n] x llist_distinct[OF x] snoc n by simp
    then show ?thesis using f e b Cons snoc
      by (simp add: LIST_CONCAT_def LIST_FIRST_def s'_def s1_def e_def)
  qed
  ultimately show ?thesis by (auto simp: llist_def)
qed

lemma llist_swap:
  assumes x: "llist s h xs" and y: "llist s k ys" and d: "h \<noteq> k"
  shows "\<exists>s'. LIST_SWAP s h k = Inr s' \<and> llist s' h ys \<and> llist s' k xs \<and> only_touches s s' {h, k} (set (xs @ ys))"
proof -
  define s2 where "s2 = ll_stored (ll_stored s (First_of h) (ptr_to ys)) (First_of k) (ptr_to xs)"
  define s3 where "s3 = (if ys = [] then s2 else ll_with_prev s2 (hd ys) (First_of h))"
  define s' where "s' = (if xs = [] then s3 else ll_with_prev s3 (hd xs) (First_of k))"
  have disj: "xs \<noteq> [] \<Longrightarrow> hd xs \<notin> set ys" "ys \<noteq> [] \<Longrightarrow> hd ys \<notin> set xs"
    using llist_disjoint[OF x y d] by (metis disjoint_iff hd_in_set)+
  have al: "alloc s a" if "a \<in> set xs \<union> set ys" for a using that llist_alloc x y by blast
  note f = llist_first[OF x] llist_first[OF y] dlist_first[OF x[unfolded llist_def]] dlist_first[OF y[unfolded llist_def]]
  have "dlist (ll_load s') (ll_prev_of s') h ys"
    by (rule dlist_rehead[OF y[unfolded llist_def]])
      (use f al d disj in \<open>auto simp: s'_def s3_def s2_def\<close>)
  moreover have "dlist (ll_load s') (ll_prev_of s') k xs"
    by (rule dlist_rehead[OF x[unfolded llist_def]])
      (use f al d disj in \<open>auto simp: s'_def s3_def s2_def\<close>)
  moreover have "only_touches s s' {h, k} (set (xs @ ys))"
    unfolding s'_def s3_def s2_def using al by (auto intro!: touches_intros)
  moreover have "LIST_SWAP s h k = Inr s'"
    using al d f by (cases xs; cases ys)
      (simp_all add: LIST_SWAP_def LIST_FIRST_def s'_def s3_def s2_def Let_def stored_at.simps)
  ultimately show ?thesis by (auto simp: llist_def)
qed

text \<open>On a well-formed list no check panics.\<close>

lemma llist_checks:
  assumes "llist s h (ys @ a # zs)"
  shows "QMD_LIST_CHECK_HEAD s h = Inr True" "QMD_LIST_CHECK_NEXT s a = Inr True" "QMD_LIST_CHECK_PREV s a = Inr True"
proof -
  note v = llist_views[OF assms]
  obtain b bs where b: "ys @ a # zs = b # bs" by (cases "ys @ a # zs") auto
  note w = llist_views[of s h "[]" b bs]
  show "QMD_LIST_CHECK_HEAD s h = Inr True"
    using w llist_first[OF assms] assms by (simp add: QMD_LIST_CHECK_HEAD_def b)
  show "QMD_LIST_CHECK_NEXT s a = Inr True"
    using v llist_views(3,5)[of s h "ys @ [a]" "hd zs" "tl zs"] assms
    by (cases zs) (simp_all add: QMD_LIST_CHECK_NEXT_def)
  show "QMD_LIST_CHECK_PREV s a = Inr True" using v by (simp add: QMD_LIST_CHECK_PREV_def)
qed

section \<open>Properties\<close>

text \<open>The list \<open>1, 2, 3\<close> at head \<open>0\<close> and \<open>5\<close> at head \<open>1\<close>; element \<open>4\<close> is free.\<close>

definition sample_llist :: ll_mem where
  "sample_llist = \<lparr>heads = (\<lambda>h. \<lparr>lh_first = Some (if h = 0 then 1 else 5)\<rparr>),
     links = (\<lambda>a. if 1 \<le> a \<and> a \<le> 5 then Some \<lparr>le_next = (if a \<le> 2 then Some (a + 1) else None),
       le_prev = (if a = 1 then First_of 0 else if a = 5 then First_of 1 else Next_of (a - 1))\<rparr> else None)\<rparr>"

lemma sample_llists: "llist sample_llist 0 [1, 2, 3]" "llist sample_llist 1 [5]" "alloc sample_llist 4"
  by code_simp+

text \<open>
  (C25) The operations of a doubly linked list: insertion at the head, before and after a member, and
  removal of a member without a search. Each succeeds, changes the list at that place only and
  leaves every list at another head as it was; two lists never share an element.
  \<open>LIST_PREV\<close> finds the predecessor of a member, and nothing before the first.
\<close>

theorem llist_operations:
  assumes "llist s h (ys @ b # zs)" "alloc s n" "n \<notin> set (ys @ b # zs)"
    and "llist s h' os" "h' \<noteq> h" "n \<notin> set os"
  shows "(\<exists>t. LIST_INSERT_HEAD s h n = Inr t \<and> llist t h (n # ys @ b # zs) \<and> llist t h' os) \<and>
    (\<exists>t. LIST_INSERT_AFTER s b n = Inr t \<and> llist t h (ys @ b # n # zs) \<and> llist t h' os) \<and>
    (\<exists>t. LIST_INSERT_BEFORE s b n = Inr t \<and> llist t h (ys @ n # b # zs) \<and> llist t h' os) \<and>
    (\<exists>t. LIST_REMOVE s b = Inr t \<and> llist t h (ys @ zs) \<and> llist t h' os) \<and>
    LIST_PREV s (Some b) h = Inr (if ys = [] then None else Some (last ys))"
proof -
  have d: "set os \<inter> insert n (set (ys @ b # zs)) = {}" using llist_disjoint[OF assms(4,1,5)] assms(6) by auto
  have keep: "llist t h' os" if "only_touches s t H A" "H \<subseteq> {h}" "A \<subseteq> insert n (set (ys @ b # zs))" for t H A
    using llist_elsewhere[OF that(1) _ _ assms(4)] that(2,3) assms(5) d by blast
  have "\<exists>t. LIST_INSERT_HEAD s h n = Inr t \<and> llist t h (n # ys @ b # zs) \<and> llist t h' os"
    using llist_insert_head[OF assms(1-3)] keep by blast
  moreover have "\<exists>t. LIST_INSERT_AFTER s b n = Inr t \<and> llist t h (ys @ b # n # zs) \<and> llist t h' os"
    using llist_insert_after[OF assms(1-3)] keep by blast
  moreover have "\<exists>t. LIST_INSERT_BEFORE s b n = Inr t \<and> llist t h (ys @ n # b # zs) \<and> llist t h' os"
    using llist_insert_before[OF assms(1-3)] keep by blast
  moreover have "\<exists>t. LIST_REMOVE s b = Inr t \<and> llist t h (ys @ zs) \<and> llist t h' os"
    using llist_remove[OF assms(1)] keep by blast
  ultimately show ?thesis using llist_prev[OF assms(1)] by blast
qed

theorem llist_operations_witness:
  "(\<exists>t. LIST_INSERT_BEFORE sample_llist 2 4 = Inr t \<and> llist t 0 [1, 4, 2, 3] \<and> llist t 1 [5]) \<and>
   (\<exists>t. LIST_REMOVE sample_llist 2 = Inr t \<and> llist t 0 [1, 3]) \<and> LIST_PREV sample_llist (Some 2) 0 = Inr (Some 1)"
  using llist_operations[of sample_llist 0 "[1]" 2 "[3]" 4 1 "[5]"] sample_llists by auto

end
