(* ===== verification/List_Families.thy ===== *)
theory List_Families
  imports Singly_List Singly_Tail_Queue Doubly_List Tail_Queue
begin

text \<open>
  What the four families of list macros of \<open>server/src/queue.h\<close> have in common. The interface
  \<open>mem_list\<close> has the operations that all of them offer, and \<open>list_family\<close> adds the release of
  elements; their lemmas relate sequences of operations, traversals and the release of all
  elements to functions on lists, and each family is an instance. The properties compare the
  families with each other.
\<close>

section \<open>Operations on a list\<close>

datatype list_op = Insert_head addr | Insert_after addr addr | Remove addr

text \<open>The reference: operations on a list without repetitions; \<open>None\<close> where the macros ask too much.\<close>

fun apply_op :: "list_op \<Rightarrow> addr list \<Rightarrow> addr list option" where
  "apply_op (Insert_head n) xs = (if n \<in> set xs then None else Some (n # xs))"
| "apply_op (Insert_after b n) xs =
     (if b \<in> set xs \<and> n \<notin> set xs
      then Some (takeWhile (\<lambda>a. a \<noteq> b) xs @ b # n # tl (dropWhile (\<lambda>a. a \<noteq> b) xs)) else None)"
| "apply_op (Remove a) xs = (if a \<in> set xs then Some (remove1 a xs) else None)"

fun list_ops :: "list_op list \<Rightarrow> addr list \<Rightarrow> addr list option" where
  "list_ops [] xs = Some xs"
| "list_ops (c # cs) xs = Option.bind (apply_op c xs) (list_ops cs)"

fun new_elems :: "list_op \<Rightarrow> addr set" where
  "new_elems (Insert_head n) = {n}"
| "new_elems (Insert_after b n) = {n}"
| "new_elems (Remove a) = {}"

text \<open>The same operations on a memory, by the macros of a family; searches have fuel.\<close>

fun mem_op ::
  "('s \<Rightarrow> addr \<Rightarrow> 's res) \<Rightarrow> ('s \<Rightarrow> addr \<Rightarrow> addr \<Rightarrow> 's res) \<Rightarrow> ('s \<Rightarrow> addr \<Rightarrow> 's option res) \<Rightarrow>
   list_op \<Rightarrow> 's \<Rightarrow> 's option res" where
  "mem_op ih ia rm (Insert_head n) s = bindE (ih s n) (\<lambda>s1. Inr (Some s1))"
| "mem_op ih ia rm (Insert_after b n) s = bindE (ia s b n) (\<lambda>s1. Inr (Some s1))"
| "mem_op ih ia rm (Remove a) s = rm s a"

fun mem_ops ::
  "('s \<Rightarrow> addr \<Rightarrow> 's res) \<Rightarrow> ('s \<Rightarrow> addr \<Rightarrow> addr \<Rightarrow> 's res) \<Rightarrow> ('s \<Rightarrow> addr \<Rightarrow> 's option res) \<Rightarrow>
   list_op list \<Rightarrow> 's \<Rightarrow> 's option res" where
  "mem_ops ih ia rm [] s = Inr (Some s)"
| "mem_ops ih ia rm (c # cs) s =
     bindE (mem_op ih ia rm c s) (\<lambda>r. case r of None \<Rightarrow> Inr None | Some s1 \<Rightarrow> mem_ops ih ia rm cs s1)"

text \<open>The body of a loop that takes every element out and frees it.\<close>

definition release_elem :: "(('h, 'e) qmem \<Rightarrow> addr \<Rightarrow> ('h, 'e) qmem res) \<Rightarrow> addr \<Rightarrow> ('h, 'e) qmem \<Rightarrow> ('h, 'e) qmem res" where
  "release_elem unlink a s = bindE (unlink s a) (\<lambda>s1. Inr (free_links a s1))"

lemma apply_op_length: "apply_op c xs = Some ys \<Longrightarrow> length ys \<le> Suc (length xs)"
proof (induction c)
  case (Insert_after b n)
  then have "length (takeWhile (\<lambda>a. a \<noteq> b) xs) + length (dropWhile (\<lambda>a. a \<noteq> b) xs) = length xs" "b \<in> set xs"
    "dropWhile (\<lambda>a. a \<noteq> b) xs \<noteq> []"
    using length_append[of "takeWhile (\<lambda>a. a \<noteq> b) xs" "dropWhile (\<lambda>a. a \<noteq> b) xs"]
    by (auto split: if_splits)
  then show ?case using Insert_after by (auto split: if_splits)
qed (auto simp: length_remove1 split: if_splits)

lemma around_member: "b \<notin> set ys \<Longrightarrow> takeWhile (\<lambda>a. a \<noteq> b) (ys @ b # zs) = ys \<and> dropWhile (\<lambda>a. a \<noteq> b) (ys @ b # zs) = b # zs"
  by (induction ys) auto

section \<open>The interface\<close>

locale mem_list = walkable rep nxt
  for rep :: "'s \<Rightarrow> addr list \<Rightarrow> bool" and nxt :: "'s \<Rightarrow> ptr \<Rightarrow> ptr res" +
  fixes avail :: "'s \<Rightarrow> addr \<Rightarrow> bool"
    and init :: "'s \<Rightarrow> 's"
    and first :: "'s \<Rightarrow> ptr"
    and ins_head :: "'s \<Rightarrow> addr \<Rightarrow> 's res"
    and ins_after :: "'s \<Rightarrow> addr \<Rightarrow> addr \<Rightarrow> 's res"
    and del :: "nat \<Rightarrow> 's \<Rightarrow> addr \<Rightarrow> 's option res"
  assumes init_law: "rep (init s) [] \<and> (\<forall>a. avail (init s) a = avail s a)"
    and first_law: "rep s xs \<Longrightarrow> first s = ptr_to xs"
    and ins_head_law: "rep s xs \<Longrightarrow> avail s n \<Longrightarrow> n \<notin> set xs \<Longrightarrow>
      \<exists>s'. ins_head s n = Inr s' \<and> rep s' (n # xs) \<and> (\<forall>a. avail s' a = avail s a)"
    and ins_after_law: "rep s (ys @ b # zs) \<Longrightarrow> avail s n \<Longrightarrow> n \<notin> set (ys @ b # zs) \<Longrightarrow>
      \<exists>s'. ins_after s b n = Inr s' \<and> rep s' (ys @ b # n # zs) \<and> (\<forall>a. avail s' a = avail s a)"
    and del_law: "rep s (ys @ a # zs) \<Longrightarrow> length ys \<le> k \<Longrightarrow>
      \<exists>s'. del k s a = Inr (Some s') \<and> rep s' (ys @ zs) \<and> (\<forall>a. avail s' a = avail s a)"
begin

lemma op_law:
  assumes "rep s xs" "apply_op c xs = Some ys" "\<forall>a\<in>new_elems c. avail s a" "length xs \<le> k"
  shows "\<exists>s'. mem_op ins_head ins_after (del k) c s = Inr (Some s') \<and> rep s' ys \<and> (\<forall>a. avail s' a = avail s a)"
proof (cases c)
  case (Insert_head n)
  then show ?thesis using ins_head_law[OF assms(1)] assms(2,3) by (fastforce split: if_splits)
next
  case (Insert_after b n)
  then have b: "b \<in> set xs" "n \<notin> set xs" using assms(2) by (auto split: if_splits)
  obtain us vs where xs: "xs = us @ b # vs" "b \<notin> set us" using split_list_first[OF b(1)] by blast
  then have "ys = us @ b # n # vs" using assms(2) Insert_after b around_member[of b us vs] by simp
  then show ?thesis using ins_after_law[of s us b vs n] assms(1,3) Insert_after b(2) xs(1) by fastforce
next
  case (Remove a)
  then have a: "a \<in> set xs" using assms(2) by (auto split: if_splits)
  obtain us vs where xs: "xs = us @ a # vs" "a \<notin> set us" using split_list_first[OF a] by blast
  then have "ys = us @ vs" using assms(2) Remove by (simp add: remove1_append)
  then show ?thesis using del_law[of s us a vs k] assms(1,4) Remove xs(1) by simp
qed

lemma ops_law:
  "rep s xs \<Longrightarrow> list_ops cs xs = Some ys \<Longrightarrow> \<forall>c\<in>set cs. \<forall>a\<in>new_elems c. avail s a \<Longrightarrow> length xs + length cs \<le> k \<Longrightarrow>
   \<exists>s'. mem_ops ins_head ins_after (del k) cs s = Inr (Some s') \<and> rep s' ys \<and> length ys \<le> k"
proof (induction cs arbitrary: s xs)
  case (Cons c cs)
  obtain zs where zs: "apply_op c xs = Some zs" "list_ops cs zs = Some ys"
    using Cons.prems(2) by (cases "apply_op c xs") auto
  obtain s1 where s1: "mem_op ins_head ins_after (del k) c s = Inr (Some s1)" "rep s1 zs" "\<forall>a. avail s1 a = avail s a"
    using op_law[OF Cons.prems(1) zs(1), of k] Cons.prems(3,4) by auto
  have "length zs + length cs \<le> k" using apply_op_length[OF zs(1)] Cons.prems(4) by simp
  then show ?case using Cons.IH[OF s1(2) zs(2)] Cons.prems(3) s1 by simp
qed simp

text \<open>Operations from the empty list on, followed by a traversal.\<close>

lemma ops_then_visit:
  assumes "list_ops cs [] = Some xs" "\<forall>c\<in>set cs. \<forall>a\<in>new_elems c. avail s a" "length cs \<le> k"
  shows "\<exists>s'. mem_ops ins_head ins_after (del k) cs (init s) = Inr (Some s') \<and> rep s' xs \<and>
    (\<forall>body (m :: 'm). foreach_loop_from k (\<lambda>_. nxt s') body (first s') m = bindE (foldE body xs m) (\<lambda>r. Inr (Some r)))"
proof -
  obtain s' where s': "mem_ops ins_head ins_after (del k) cs (init s) = Inr (Some s')" "rep s' xs" "length xs \<le> k"
    using ops_law[of "init s" "[]" cs xs k] init_law[of s] assms by auto
  have "foreach_loop_from k (\<lambda>_. nxt s') body (first s') m = bindE (foldE body xs m) (\<lambda>r. Inr (Some r))" for body and m :: 'm
    using visit(1)[OF s'(2,3)] first_law[OF s'(2)] by simp
  then show ?thesis using s' by blast
qed

end

text \<open>The extension by the release of elements.\<close>

locale list_family = mem_list rep nxt alloc init first ins_head ins_after del
  for rep :: "('h, 'e) qmem \<Rightarrow> addr list \<Rightarrow> bool" and nxt :: "('h, 'e) qmem \<Rightarrow> ptr \<Rightarrow> ptr res"
    and init :: "('h, 'e) qmem \<Rightarrow> ('h, 'e) qmem" and first :: "('h, 'e) qmem \<Rightarrow> ptr"
    and ins_head :: "('h, 'e) qmem \<Rightarrow> addr \<Rightarrow> ('h, 'e) qmem res"
    and ins_after :: "('h, 'e) qmem \<Rightarrow> addr \<Rightarrow> addr \<Rightarrow> ('h, 'e) qmem res"
    and del :: "nat \<Rightarrow> ('h, 'e) qmem \<Rightarrow> addr \<Rightarrow> ('h, 'e) qmem option res" +
  fixes unlink :: "('h, 'e) qmem \<Rightarrow> addr \<Rightarrow> ('h, 'e) qmem res"
  assumes rep_distinct: "rep s xs \<Longrightarrow> distinct xs"
    and unlink_law: "rep s (a # xs) \<Longrightarrow>
      \<exists>s'. unlink s a = Inr s' \<and> rep s' xs \<and> (\<forall>a. alloc s' a = alloc s a)"
    and free_law: "rep s xs \<Longrightarrow> a \<notin> set xs \<Longrightarrow> rep (free_links a s) xs"
    and nxt_freed: "nxt (free_links a s) (Some a) = Inl Use_of_freed"
begin

text \<open>Releasing all elements: the safe traversal ends, the plain one reads a freed element.\<close>

lemma safe_release:
  assumes "rep s xs" "length xs \<le> n"
  shows "\<exists>s'. foreach_safe_from n nxt (release_elem unlink) (first s) s = Inr (Some s') \<and> rep s' [] \<and>
    (\<forall>b. alloc s' b = (alloc s b \<and> b \<notin> set xs))"
proof -
  let ?Q = "\<lambda>zs m. set zs \<subseteq> set xs \<and> (\<forall>b. alloc m b = (alloc s b \<and> b \<notin> set xs - set zs))"
  have step: "\<exists>m'. release_elem unlink a m = Inr m' \<and> rep m' ([] @ as) \<and> ?Q as m'"
    if r: "rep m ([] @ a # as)" and q: "?Q (a # as) m" for a as m
  proof -
    obtain m1 where m1: "unlink m a = Inr m1" "rep m1 as" "\<forall>b. alloc m1 b = alloc m b"
      using unlink_law[of m a as] r by auto
    have "a \<notin> set as" using rep_distinct[OF r] by simp
    then show ?thesis using m1 free_law[OF m1(2), of a] q by (auto simp: release_elem_def free_alloc)
  qed
  have "\<exists>m'. foreach_safe_from n (\<lambda>m. nxt m) (release_elem unlink) (ptr_to xs) s = Inr (Some m') \<and> rep m' [] \<and> ?Q [] m'"
    by (rule safe_drain[where ys = "[]" and Q = ?Q and mem = "\<lambda>m. m"]) (use assms step in simp_all)
  then show ?thesis using first_law[OF assms(1)] by auto
qed

lemma plain_release:
  assumes "rep s xs" "xs \<noteq> []"
  shows "foreach_loop_from (Suc n) nxt (release_elem unlink) (first s) s = Inl Use_of_freed"
proof -
  obtain a as where xs: "xs = a # as" using assms(2) by (cases xs) auto
  obtain s1 where "unlink s a = Inr s1" using unlink_law[of s a as] assms(1) xs by blast
  then show ?thesis using first_law[OF assms(1)] nxt_freed xs by (simp add: release_elem_def)
qed

end

section \<open>The four families\<close>

lemma links_freed: "link_of (free_links a s) (Some a) = Inl Use_of_freed"
  by (simp add: link_of_def)

interpretation sl: list_family "\<lambda>s. slist s h" SLIST_NEXT "\<lambda>s. SLIST_INIT s h" "\<lambda>s. SLIST_FIRST s h"
  "\<lambda>s. SLIST_INSERT_HEAD s h" SLIST_INSERT_AFTER "\<lambda>k s. SLIST_REMOVE k s h" "\<lambda>s _. SLIST_REMOVE_HEAD s h" for h
proof
  show "slist s h xs \<Longrightarrow> a \<notin> set xs \<Longrightarrow> slist (free_links a s) h xs" for s xs a
    unfolding slist_def by (rule chain_free)
  show "SLIST_NEXT (free_links a s) (Some a) = Inl Use_of_freed" for a and s :: sl_mem
    by (simp add: SLIST_NEXT_def links_freed)
qed (meson slist_distinct slist_init slist_first slist_insert_head slist_insert_after slist_remove
  slist_remove_head touches_alloc)+

interpretation stq: list_family "\<lambda>s. stailq s h" STAILQ_NEXT "\<lambda>s. STAILQ_INIT s h" "\<lambda>s. STAILQ_FIRST s h"
  "\<lambda>s. STAILQ_INSERT_HEAD s h" "\<lambda>s. STAILQ_INSERT_AFTER s h" "\<lambda>k s. STAILQ_REMOVE k s h"
  "\<lambda>s _. STAILQ_REMOVE_HEAD s h" for h
proof
  show "stailq s h xs \<Longrightarrow> a \<notin> set xs \<Longrightarrow> stailq (free_links a s) h xs" for s xs a
    by (simp add: stailq_def chain_free)
  show "STAILQ_NEXT (free_links a s) (Some a) = Inl Use_of_freed" for a and s :: stq_mem
    by (simp add: STAILQ_NEXT_def links_freed)
qed (meson stailq_distinct stailq_init stailq_first stailq_insert_head stailq_insert_after stailq_remove
  stailq_remove_head touches_alloc)+

lemma some_result: "\<exists>s'. r = Inr s' \<and> P s' \<Longrightarrow> \<exists>s'. bindE r (\<lambda>s1. Inr (Some s1)) = Inr (Some s') \<and> P s'"
  by auto

interpretation ll: list_family "\<lambda>s. llist s h" LIST_NEXT "\<lambda>s. LIST_INIT s h" "\<lambda>s. LIST_FIRST s h"
  "\<lambda>s. LIST_INSERT_HEAD s h" LIST_INSERT_AFTER "\<lambda>_ s a. bindE (LIST_REMOVE s a) (\<lambda>s1. Inr (Some s1))" LIST_REMOVE for h
proof
  show "llist s h xs \<Longrightarrow> a \<notin> set xs \<Longrightarrow> llist (free_links a s) h xs" for s xs a
    unfolding llist_def by (rule dlist_free)
  show "LIST_NEXT (free_links a s) (Some a) = Inl Use_of_freed" for a and s :: ll_mem
    by (simp add: LIST_NEXT_def links_freed)
  show "llist s h (a # xs) \<Longrightarrow> \<exists>s'. LIST_REMOVE s a = Inr s' \<and> llist s' h xs \<and> (\<forall>a. alloc s' a = alloc s a)" for s a xs
    using llist_remove[of s h "[]" a xs] touches_alloc by (metis append_Nil)
  show "llist s h (ys @ a # zs) \<Longrightarrow> \<exists>s'. bindE (LIST_REMOVE s a) (\<lambda>s1. Inr (Some s1)) = Inr (Some s') \<and>
      llist s' h (ys @ zs) \<and> (\<forall>a. alloc s' a = alloc s a)" for s ys a zs
    by (rule some_result) (meson llist_remove touches_alloc)
qed (meson llist_distinct llist_init llist_first llist_insert_head llist_insert_after touches_alloc)+

interpretation tqq: list_family "\<lambda>s. tailq s h" TAILQ_NEXT "\<lambda>s. TAILQ_INIT s h" "\<lambda>s. TAILQ_FIRST s h"
  "\<lambda>s. TAILQ_INSERT_HEAD s h" "\<lambda>s. TAILQ_INSERT_AFTER s h" "\<lambda>_ s a. bindE (TAILQ_REMOVE s h a) (\<lambda>s1. Inr (Some s1))"
  "\<lambda>s. TAILQ_REMOVE s h" for h
proof
  show "tailq s h xs \<Longrightarrow> a \<notin> set xs \<Longrightarrow> tailq (free_links a s) h xs" for s xs a
    by (simp add: tailq_def dlist_free)
  show "TAILQ_NEXT (free_links a s) (Some a) = Inl Use_of_freed" for a and s :: tq_mem
    by (simp add: TAILQ_NEXT_def links_freed)
  show "tailq s h (a # xs) \<Longrightarrow> \<exists>s'. TAILQ_REMOVE s h a = Inr s' \<and> tailq s' h xs \<and> (\<forall>a. alloc s' a = alloc s a)" for s a xs
    using remove_spec[of s h "[]" a xs] touches_alloc by (metis append_Nil)
  show "tailq s h (ys @ a # zs) \<Longrightarrow> \<exists>s'. bindE (TAILQ_REMOVE s h a) (\<lambda>s1. Inr (Some s1)) = Inr (Some s') \<and>
      tailq s' h (ys @ zs) \<and> (\<forall>a. alloc s' a = alloc s a)" for s ys a zs
    by (rule some_result) (meson remove_spec touches_alloc)
qed (meson tq.rep_distinct init_empty first_ptr insert_head_spec insert_after_spec touches_alloc)+

text \<open>A head with its static initialiser is a head after \<open>INIT\<close>.\<close>

lemma initialisers_agree:
  "set_head s1 h SLIST_HEAD_INITIALIZER = SLIST_INIT s1 h" "set_head s2 h (STAILQ_HEAD_INITIALIZER h) = STAILQ_INIT s2 h"
  "set_head s3 h LIST_HEAD_INITIALIZER = LIST_INIT s3 h" "set_head s4 h (TAILQ_HEAD_INITIALIZER h) = TAILQ_INIT s4 h"
  by (cases "heads s1 h"; cases "heads s3 h"; simp add: SLIST_HEAD_INITIALIZER_def SLIST_INIT_def
    STAILQ_HEAD_INITIALIZER_def STAILQ_INIT_def LIST_HEAD_INITIALIZER_def LIST_INIT_def
    TAILQ_HEAD_INITIALIZER_def TAILQ_INIT_def)+

section \<open>Properties\<close>

text \<open>
  (C11) The four families agree: any sequence of insertions at the head, insertions after a member and
  removals that the reference on lists accepts runs without touching unallocated memory from a
  freshly initialised head on, and a traversal then sees, in each family, exactly the elements
  of the reference in its order. The number of operations is enough fuel for every search loop
  and traversal.
\<close>

theorem families_agree:
  assumes "list_ops cs [] = Some xs" "length cs \<le> k"
    and "\<forall>c\<in>set cs. \<forall>a\<in>new_elems c. alloc s1 a \<and> alloc s2 a \<and> alloc s3 a \<and> alloc s4 a"
  shows "\<exists>t1 t2 t3 t4.
    mem_ops (\<lambda>s. SLIST_INSERT_HEAD s h) SLIST_INSERT_AFTER (\<lambda>s. SLIST_REMOVE k s h) cs (SLIST_INIT s1 h) = Inr (Some t1) \<and>
    mem_ops (\<lambda>s. STAILQ_INSERT_HEAD s h) (\<lambda>s. STAILQ_INSERT_AFTER s h) (\<lambda>s. STAILQ_REMOVE k s h) cs
      (STAILQ_INIT s2 h) = Inr (Some t2) \<and>
    mem_ops (\<lambda>s. LIST_INSERT_HEAD s h) LIST_INSERT_AFTER (\<lambda>s a. bindE (LIST_REMOVE s a) (\<lambda>s'. Inr (Some s'))) cs
      (LIST_INIT s3 h) = Inr (Some t3) \<and>
    mem_ops (\<lambda>s. TAILQ_INSERT_HEAD s h) (\<lambda>s. TAILQ_INSERT_AFTER s h)
      (\<lambda>s a. bindE (TAILQ_REMOVE s h a) (\<lambda>s'. Inr (Some s'))) cs (TAILQ_INIT s4 h) = Inr (Some t4) \<and>
    (\<forall>body (m :: 'm). let visit = bindE (foldE body xs m) (\<lambda>m'. Inr (Some m')) in
      SLIST_FOREACH k (\<lambda>_. t1) h body m = visit \<and> STAILQ_FOREACH k (\<lambda>_. t2) h body m = visit \<and>
      LIST_FOREACH k (\<lambda>_. t3) h body m = visit \<and> TAILQ_FOREACH k (\<lambda>_. t4) h body m = visit)"
proof -
  have al: "\<forall>c\<in>set cs. \<forall>a\<in>new_elems c. alloc s1 a" "\<forall>c\<in>set cs. \<forall>a\<in>new_elems c. alloc s2 a"
    "\<forall>c\<in>set cs. \<forall>a\<in>new_elems c. alloc s3 a" "\<forall>c\<in>set cs. \<forall>a\<in>new_elems c. alloc s4 a"
    using assms(3) by blast+
  note runs = sl.ops_then_visit[OF assms(1) al(1) assms(2), of h] stq.ops_then_visit[OF assms(1) al(2) assms(2), of h]
    ll.ops_then_visit[OF assms(1) al(3) assms(2), of h] tqq.ops_then_visit[OF assms(1) al(4) assms(2), of h]
  show ?thesis
    unfolding SLIST_FOREACH_def STAILQ_FOREACH_def LIST_FOREACH_def TAILQ_FOREACH_def Let_def
    using runs by (elim exE conjE) (intro exI conjI allI; (assumption | (erule allE)+, assumption))
qed

text \<open>Memories of the singly linked families with the elements \<open>1\<close> to \<open>4\<close> allocated and not linked.\<close>

definition sample_sl :: sl_mem where
  "sample_sl = \<lparr>heads = \<lambda>_. \<lparr>slh_first = None\<rparr>, links = (\<lambda>a. if a \<in> {1, 2, 3, 4} then Some \<lparr>sle_next = None\<rparr> else None)\<rparr>"

definition sample_stq :: stq_mem where
  "sample_stq = \<lparr>heads = STAILQ_HEAD_INITIALIZER,
     links = (\<lambda>a. if a \<in> {1, 2, 3, 4} then Some \<lparr>stqe_next = None\<rparr> else None)\<rparr>"

definition sample_ll :: ll_mem where
  "sample_ll = \<lparr>heads = \<lambda>_. \<lparr>lh_first = None\<rparr>,
     links = (\<lambda>a. if a \<in> {1, 2, 3, 4} then Some \<lparr>le_next = None, le_prev = First_of 0\<rparr> else None)\<rparr>"

definition sample_ops :: "list_op list" where
  "sample_ops = [Insert_head 1, Insert_after 1 2, Insert_head 3, Insert_after 1 4, Remove 1]"

theorem families_agree_witness:
  "\<exists>t1 t4. mem_ops (\<lambda>s. SLIST_INSERT_HEAD s 0) SLIST_INSERT_AFTER (\<lambda>s. SLIST_REMOVE 5 s 0) sample_ops
       (SLIST_INIT sample_sl 0) = Inr (Some t1) \<and>
     mem_ops (\<lambda>s. TAILQ_INSERT_HEAD s 0) (\<lambda>s. TAILQ_INSERT_AFTER s 0)
       (\<lambda>s a. bindE (TAILQ_REMOVE s 0 a) (\<lambda>s'. Inr (Some s'))) sample_ops (TAILQ_INIT sample_tq 0) = Inr (Some t4) \<and>
     SLIST_FOREACH 5 (\<lambda>_. t1) 0 (\<lambda>a seen. Inr (seen @ [a])) [] = Inr (Some [3, 4, 2]) \<and>
     TAILQ_FOREACH 5 (\<lambda>_. t4) 0 (\<lambda>a seen. Inr (seen @ [a])) [] = Inr (Some [3, 4, 2])"
proof -
  have a: "list_ops sample_ops [] = Some [3, 4, 2]" "length sample_ops \<le> 5"
    "\<forall>c\<in>set sample_ops. \<forall>a\<in>new_elems c. alloc sample_sl a \<and> alloc sample_stq a \<and> alloc sample_ll a \<and> alloc sample_tq a"
    by (simp_all add: sample_ops_def sample_sl_def sample_stq_def sample_ll_def sample_tq_def alloc_def)
  have "bindE (foldE (\<lambda>a seen. Inr (seen @ [a])) [3, 4, 2] []) (\<lambda>m'. Inr (Some m')) =
      (Inr (Some [3, 4, 2]) :: addr list option res)" by simp
  with families_agree[OF a(1) a(2) a(3), of 0] show ?thesis unfolding Let_def by metis
qed

text \<open>
  (C24) The safe traversals allow the visited element to be unlinked and freed: in every family such a
  loop ends after as many rounds as there are elements, leaves the list empty and has freed
  exactly its elements. The plain traversals read the link of the freed element in the first
  round.
\<close>

theorem safe_release_terminates:
  assumes "slist s1 h xs" "stailq s2 h xs" "llist s3 h xs" "tailq s4 h xs" "xs \<noteq> []"
  shows "\<exists>t1 t2 t3 t4.
    SLIST_FOREACH_SAFE (length xs) (\<lambda>s. s) h (release_elem (\<lambda>s _. SLIST_REMOVE_HEAD s h)) s1 = Inr (Some t1) \<and>
    STAILQ_FOREACH_SAFE (length xs) (\<lambda>s. s) h (release_elem (\<lambda>s _. STAILQ_REMOVE_HEAD s h)) s2 = Inr (Some t2) \<and>
    LIST_FOREACH_SAFE (length xs) (\<lambda>s. s) h (release_elem LIST_REMOVE) s3 = Inr (Some t3) \<and>
    TAILQ_FOREACH_SAFE (length xs) (\<lambda>s. s) h (release_elem (\<lambda>s. TAILQ_REMOVE s h)) s4 = Inr (Some t4) \<and>
    SLIST_EMPTY t1 h \<and> STAILQ_EMPTY t2 h \<and> LIST_EMPTY t3 h \<and> TAILQ_EMPTY t4 h \<and>
    (\<forall>b. alloc t1 b = (alloc s1 b \<and> b \<notin> set xs)) \<and> (\<forall>b. alloc t2 b = (alloc s2 b \<and> b \<notin> set xs)) \<and>
    (\<forall>b. alloc t3 b = (alloc s3 b \<and> b \<notin> set xs)) \<and> (\<forall>b. alloc t4 b = (alloc s4 b \<and> b \<notin> set xs)) \<and>
    SLIST_FOREACH (length xs) (\<lambda>s. s) h (release_elem (\<lambda>s _. SLIST_REMOVE_HEAD s h)) s1 = Inl Use_of_freed \<and>
    STAILQ_FOREACH (length xs) (\<lambda>s. s) h (release_elem (\<lambda>s _. STAILQ_REMOVE_HEAD s h)) s2 = Inl Use_of_freed \<and>
    LIST_FOREACH (length xs) (\<lambda>s. s) h (release_elem LIST_REMOVE) s3 = Inl Use_of_freed \<and>
    TAILQ_FOREACH (length xs) (\<lambda>s. s) h (release_elem (\<lambda>s. TAILQ_REMOVE s h)) s4 = Inl Use_of_freed"
proof -
  obtain n where n: "length xs = Suc n" using assms(5) by (cases xs) auto
  note safe = sl.safe_release[OF assms(1) order.refl] stq.safe_release[OF assms(2) order.refl]
    ll.safe_release[OF assms(3) order.refl] tqq.safe_release[OF assms(4) order.refl]
  note plain = sl.plain_release[OF assms(1,5), of n] stq.plain_release[OF assms(2,5), of n]
    ll.plain_release[OF assms(3,5), of n] tqq.plain_release[OF assms(4,5), of n]
  obtain t1 t2 t3 t4 where
    t1: "foreach_safe_from (length xs) SLIST_NEXT (release_elem (\<lambda>s _. SLIST_REMOVE_HEAD s h)) (SLIST_FIRST s1 h) s1 = Inr (Some t1)"
      "slist t1 h []" "\<forall>b. alloc t1 b = (alloc s1 b \<and> b \<notin> set xs)" and
    t2: "foreach_safe_from (length xs) STAILQ_NEXT (release_elem (\<lambda>s _. STAILQ_REMOVE_HEAD s h)) (STAILQ_FIRST s2 h) s2 = Inr (Some t2)"
      "stailq t2 h []" "\<forall>b. alloc t2 b = (alloc s2 b \<and> b \<notin> set xs)" and
    t3: "foreach_safe_from (length xs) LIST_NEXT (release_elem LIST_REMOVE) (LIST_FIRST s3 h) s3 = Inr (Some t3)"
      "llist t3 h []" "\<forall>b. alloc t3 b = (alloc s3 b \<and> b \<notin> set xs)" and
    t4: "foreach_safe_from (length xs) TAILQ_NEXT (release_elem (\<lambda>s. TAILQ_REMOVE s h)) (TAILQ_FIRST s4 h) s4 = Inr (Some t4)"
      "tailq t4 h []" "\<forall>b. alloc t4 b = (alloc s4 b \<and> b \<notin> set xs)"
    using safe by (elim exE conjE)
  have empty: "SLIST_EMPTY t1 h" "STAILQ_EMPTY t2 h" "LIST_EMPTY t3 h" "TAILQ_EMPTY t4 h"
    using t1(2) t2(2) t3(2) t4(2) by (simp_all add: slist_empty stailq_empty llist_empty empty_spec)
  show ?thesis
    unfolding SLIST_FOREACH_SAFE_def STAILQ_FOREACH_SAFE_def LIST_FOREACH_SAFE_def TAILQ_FOREACH_SAFE_def
      SLIST_FOREACH_def STAILQ_FOREACH_def LIST_FOREACH_def TAILQ_FOREACH_def plain[folded n]
    by (rule exI[of _ t1], rule exI[of _ t2], rule exI[of _ t3], rule exI[of _ t4])
      (simp add: t1(1) t2(1) t3(1) t4(1) empty t1(3) t2(3) t3(3) t4(3))
qed

text \<open>The list \<open>1, 2\<close> at head \<open>0\<close> and \<open>3\<close> at head \<open>1\<close> in each of the other families; \<open>4\<close> is free.\<close>

definition two_sl :: sl_mem where
  "two_sl = \<lparr>heads = (\<lambda>h. \<lparr>slh_first = Some (if h = 0 then 1 else 3)\<rparr>),
     links = (\<lambda>a. if a \<in> {1, 2, 3, 4} then Some \<lparr>sle_next = (if a = 1 then Some 2 else None)\<rparr> else None)\<rparr>"

definition two_stq :: stq_mem where
  "two_stq = \<lparr>heads = (\<lambda>h. if h = 0 then \<lparr>stqh_first = Some 1, stqh_last = Next_of 2\<rparr>
       else \<lparr>stqh_first = Some 3, stqh_last = Next_of 3\<rparr>),
     links = (\<lambda>a. if a \<in> {1, 2, 3, 4} then Some \<lparr>stqe_next = (if a = 1 then Some 2 else None)\<rparr> else None)\<rparr>"

definition two_ll :: ll_mem where
  "two_ll = \<lparr>heads = (\<lambda>h. \<lparr>lh_first = Some (if h = 0 then 1 else 3)\<rparr>),
     links = (\<lambda>a. if a \<in> {1, 2, 3, 4} then Some \<lparr>le_next = (if a = 1 then Some 2 else None),
       le_prev = (if a = 2 then Next_of 1 else First_of (if a = 3 then 1 else 0))\<rparr> else None)\<rparr>"

lemma two_lists:
  "slist two_sl 0 [1, 2]" "slist two_sl 1 [3]" "stailq two_stq 0 [1, 2]" "stailq two_stq 1 [3]"
  "llist two_ll 0 [1, 2]" "llist two_ll 1 [3]"
  by code_simp+

theorem safe_release_terminates_witness:
  "\<exists>t1. SLIST_FOREACH_SAFE 2 (\<lambda>s. s) 0 (release_elem (\<lambda>s _. SLIST_REMOVE_HEAD s 0)) two_sl = Inr (Some t1) \<and>
     SLIST_EMPTY t1 0 \<and> \<not> alloc t1 1 \<and>
     TAILQ_FOREACH 2 (\<lambda>s. s) 0 (release_elem (\<lambda>s. TAILQ_REMOVE s 0)) sample_two = Inl Use_of_freed"
  using safe_release_terminates[OF two_lists(1,3,5) sample_two_queues(1)] by (auto simp: numeral_2_eq_2)

text \<open>
  (C40) Concatenation moves all elements of the second list, in order, behind those of the first and
  leaves the second empty; swapping exchanges the contents of the two heads. This holds in all
  four families, empty lists included, and no macro dereferences an unallocated element; the
  families that search the end of the first list find it with its length as fuel.
\<close>

theorem families_concat_and_swap:
  assumes "h \<noteq> k" "set xs \<inter> set ys = {}" "slist s1 h xs" "slist s1 k ys" "stailq s2 h xs" "stailq s2 k ys"
    and "llist s3 h xs" "llist s3 k ys" "tailq s4 h xs" "tailq s4 k ys"
  shows "(\<exists>t1 t2 t3 t4. SLIST_CONCAT (length xs) s1 h k = Inr (Some t1) \<and> STAILQ_CONCAT s2 h k = Inr t2 \<and>
      LIST_CONCAT (length xs) s3 h k = Inr (Some t3) \<and> TAILQ_CONCAT s4 h k = Inr t4 \<and>
      slist t1 h (xs @ ys) \<and> stailq t2 h (xs @ ys) \<and> llist t3 h (xs @ ys) \<and> tailq t4 h (xs @ ys) \<and>
      slist t1 k [] \<and> stailq t2 k [] \<and> llist t3 k [] \<and> tailq t4 k []) \<and>
    (\<exists>t1 t3 t4. SLIST_SWAP s1 h k = Inr t1 \<and> LIST_SWAP s3 h k = Inr t3 \<and> TAILQ_SWAP s4 h k = Inr t4 \<and>
      slist t1 h ys \<and> stailq (STAILQ_SWAP s2 h k) h ys \<and> llist t3 h ys \<and> tailq t4 h ys \<and>
      slist t1 k xs \<and> stailq (STAILQ_SWAP s2 h k) k xs \<and> llist t3 k xs \<and> tailq t4 k xs)"
proof
  show "\<exists>t1 t2 t3 t4. SLIST_CONCAT (length xs) s1 h k = Inr (Some t1) \<and> STAILQ_CONCAT s2 h k = Inr t2 \<and>
      LIST_CONCAT (length xs) s3 h k = Inr (Some t3) \<and> TAILQ_CONCAT s4 h k = Inr t4 \<and>
      slist t1 h (xs @ ys) \<and> stailq t2 h (xs @ ys) \<and> llist t3 h (xs @ ys) \<and> tailq t4 h (xs @ ys) \<and>
      slist t1 k [] \<and> stailq t2 k [] \<and> llist t3 k [] \<and> tailq t4 k []"
    using slist_concat[OF assms(3,4,2,1) order.refl] stailq_concat[OF assms(5,6,2,1)]
      llist_concat[OF assms(7,8,1) order.refl] concat_spec[OF assms(9,10,1)]
    by (elim exE conjE) (intro exI conjI, assumption+)
  show "\<exists>t1 t3 t4. SLIST_SWAP s1 h k = Inr t1 \<and> LIST_SWAP s3 h k = Inr t3 \<and> TAILQ_SWAP s4 h k = Inr t4 \<and>
      slist t1 h ys \<and> stailq (STAILQ_SWAP s2 h k) h ys \<and> llist t3 h ys \<and> tailq t4 h ys \<and>
      slist t1 k xs \<and> stailq (STAILQ_SWAP s2 h k) k xs \<and> llist t3 k xs \<and> tailq t4 k xs"
    using slist_swap[OF assms(3,4,1)] stailq_swap[OF assms(5,6,1)] llist_swap[OF assms(7,8,1)] swap_spec[OF assms(9,10,1)]
    by (elim exE conjE) (intro exI conjI, assumption+)
qed

theorem families_concat_and_swap_witness:
  "\<exists>t1 t3. SLIST_CONCAT 2 two_sl 0 1 = Inr (Some t1) \<and> slist t1 0 [1, 2, 3] \<and>
     LIST_SWAP two_ll 0 1 = Inr t3 \<and> llist t3 0 [3] \<and> llist t3 1 [1, 2]"
  using families_concat_and_swap[OF _ _ two_lists(1-6) sample_two_queues(1,2)] by (auto simp: numeral_2_eq_2)

text \<open>
  Removal from a singly linked list or tail queue searches the element from the front. For a
  member at any place the search ends; for an element that is not in the list it runs off the
  end and dereferences a null pointer, also when the list is empty.
\<close>

theorem singly_linked_remove_outcomes:
  assumes "slist s1 h xs" "stailq s2 h xs" "length xs \<le> n"
  shows "(a \<in> set xs \<longrightarrow> (\<exists>t1 t2. SLIST_REMOVE n s1 h a = Inr (Some t1) \<and> slist t1 h (remove1 a xs) \<and>
      STAILQ_REMOVE n s2 h a = Inr (Some t2) \<and> stailq t2 h (remove1 a xs))) \<and>
    (a \<notin> set xs \<longrightarrow> SLIST_REMOVE n s1 h a = Inl Null_deref \<and> STAILQ_REMOVE n s2 h a = Inl Null_deref)"
proof (intro conjI impI)
  assume "a \<in> set xs"
  then obtain ys zs where xs: "xs = ys @ a # zs" "a \<notin> set ys" by (metis split_list_first)
  then have "remove1 a xs = ys @ zs" "length ys \<le> n" using assms(3) by (simp_all add: remove1_append)
  then show "\<exists>t1 t2. SLIST_REMOVE n s1 h a = Inr (Some t1) \<and> slist t1 h (remove1 a xs) \<and>
      STAILQ_REMOVE n s2 h a = Inr (Some t2) \<and> stailq t2 h (remove1 a xs)"
    using slist_remove[of s1 h ys a zs n] stailq_remove[of s2 h ys a zs n] assms(1,2) xs(1) by auto
qed (use slist_remove_absent[OF assms(1) _ assms(3)] stailq_remove_absent[OF assms(2) _ assms(3)] in auto)

theorem singly_linked_remove_outcomes_witness:
  "(\<exists>t1. SLIST_REMOVE 2 two_sl 0 2 = Inr (Some t1) \<and> slist t1 0 [1]) \<and>
   SLIST_REMOVE 2 two_sl 0 3 = Inl Null_deref \<and> STAILQ_REMOVE 2 two_stq 0 3 = Inl Null_deref"
  using singly_linked_remove_outcomes[OF two_lists(1,3), of 2 2] singly_linked_remove_outcomes[OF two_lists(1,3), of 2 3]
  by auto

text \<open>
  The consistency checks that the doubly linked families make in debugging kernels never panic
  and never dereference an unallocated element on a well-formed list, for every member.
\<close>

theorem checks_never_panic:
  assumes "llist s3 h xs" "tailq s4 h xs" "a \<in> set xs"
  shows "QMD_LIST_CHECK_HEAD s3 h = Inr True \<and> QMD_LIST_CHECK_NEXT s3 a = Inr True \<and> QMD_LIST_CHECK_PREV s3 a = Inr True \<and>
    QMD_TAILQ_CHECK_HEAD s4 h = Inr True \<and> QMD_TAILQ_CHECK_TAIL s4 h = Inr True \<and>
    QMD_TAILQ_CHECK_NEXT s4 a = Inr True \<and> QMD_TAILQ_CHECK_PREV s4 a = Inr True"
proof -
  obtain ys zs where "xs = ys @ a # zs" using assms(3) by (metis split_list)
  then show ?thesis using llist_checks[of s3 h ys a zs] tailq_checks[of s4 h ys a zs] assms(1,2) by simp
qed

theorem checks_never_panic_witness:
  "QMD_LIST_CHECK_PREV two_ll 2 = Inr True \<and> QMD_TAILQ_CHECK_NEXT sample_two 2 = Inr True"
  using checks_never_panic[OF two_lists(5) sample_two_queues(1), of 2] by simp

text \<open>
  Traversals that start at a given element: a null pointer starts them at the first (or, in
  reverse, at the last) element, a member starts them at that member, and the safe variants visit
  the same elements. All of them end within as many rounds as the list is long.
\<close>

theorem traversals_from_member:
  fixes body :: "addr \<Rightarrow> 'm \<Rightarrow> 'm res" and m :: 'm
  assumes "xs = ys @ a # zs" "slist s1 h xs" "stailq s2 h xs" "llist s3 h xs" "tailq s4 h xs" "length xs \<le> n"
  shows "let over = (\<lambda>as. bindE (foldE body as m) (\<lambda>m'. Inr (Some m'))) in
    SLIST_FOREACH_FROM n (\<lambda>_. s1) None h body m = over xs \<and>
    SLIST_FOREACH_FROM n (\<lambda>_. s1) (Some a) h body m = over (a # zs) \<and>
    SLIST_FOREACH_FROM_SAFE n (\<lambda>_. s1) (Some a) h body m = over (a # zs) \<and>
    STAILQ_FOREACH_FROM n (\<lambda>_. s2) None h body m = over xs \<and>
    STAILQ_FOREACH_FROM n (\<lambda>_. s2) (Some a) h body m = over (a # zs) \<and>
    STAILQ_FOREACH_FROM_SAFE n (\<lambda>_. s2) (Some a) h body m = over (a # zs) \<and>
    LIST_FOREACH_FROM n (\<lambda>_. s3) None h body m = over xs \<and>
    LIST_FOREACH_FROM n (\<lambda>_. s3) (Some a) h body m = over (a # zs) \<and>
    LIST_FOREACH_FROM_SAFE n (\<lambda>_. s3) (Some a) h body m = over (a # zs) \<and>
    TAILQ_FOREACH_FROM n (\<lambda>_. s4) None h body m = over xs \<and>
    TAILQ_FOREACH_FROM n (\<lambda>_. s4) (Some a) h body m = over (a # zs) \<and>
    TAILQ_FOREACH_FROM_SAFE n (\<lambda>_. s4) (Some a) h body m = over (a # zs) \<and>
    TAILQ_FOREACH_REVERSE_FROM n (\<lambda>_. s4) None h body m = over (rev xs) \<and>
    TAILQ_FOREACH_REVERSE_FROM n (\<lambda>_. s4) (Some a) h body m = over (a # rev ys) \<and>
    TAILQ_FOREACH_REVERSE_SAFE n (\<lambda>_. s4) h body m = over (rev xs) \<and>
    TAILQ_FOREACH_REVERSE_FROM_SAFE n (\<lambda>_. s4) (Some a) h body m = over (a # rev ys)"
proof -
  have n: "length (a # zs) \<le> n" "length (rev xs) \<le> n" "length (a # rev ys) \<le> n" using assms(1,6) by auto
  have r: "tailq s4 h (rev (rev xs))" "tailq s4 h (rev (rev zs @ a # rev ys))" using assms(1,5) by simp_all
  note firsts = slist_first[OF assms(2)] stailq_first[OF assms(3)] llist_first[OF assms(4)] first_ptr[OF assms(5)]
    last_ptr[OF assms(5)]
  note all = slw.visit[OF assms(2,6)] stqw.visit[OF assms(3,6)] llw.visit[OF assms(4,6)] tqw.visit[OF assms(5,6)]
    tqr.visit[OF r(1) n(2)]
  note from_a = slw.visit_from[OF assms(2)[unfolded assms(1)] n(1)] stqw.visit_from[OF assms(3)[unfolded assms(1)] n(1)]
    llw.visit_from[OF assms(4)[unfolded assms(1)] n(1)] tqw.visit_from[OF assms(5)[unfolded assms(1)] n(1)]
    tqr.visit_from[OF r(2) n(3)]
  show ?thesis
    unfolding SLIST_FOREACH_FROM_def SLIST_FOREACH_FROM_SAFE_def STAILQ_FOREACH_FROM_def
      STAILQ_FOREACH_FROM_SAFE_def LIST_FOREACH_FROM_def LIST_FOREACH_FROM_SAFE_def TAILQ_FOREACH_FROM_def
      TAILQ_FOREACH_FROM_SAFE_def TAILQ_FOREACH_REVERSE_FROM_def TAILQ_FOREACH_REVERSE_SAFE_def
      TAILQ_FOREACH_REVERSE_FROM_SAFE_def firsts start_from_simps option.case bindE_Inr all from_a Let_def
    by simp
qed

theorem traversals_from_member_witness:
  "SLIST_FOREACH_FROM_SAFE 2 (\<lambda>_. two_sl) (Some 2) 0 (\<lambda>a seen. Inr (seen @ [a])) [] = Inr (Some [2]) \<and>
   TAILQ_FOREACH_REVERSE_FROM 2 (\<lambda>_. sample_two) None 0 (\<lambda>a seen. Inr (seen @ [a])) [] = Inr (Some [2, 1])"
  using traversals_from_member[OF _ two_lists(1,3,5) sample_two_queues(1), of "[1]" 2 "[]" 2 "\<lambda>a seen. Inr (seen @ [a])" "[]"]
  by (simp add: Let_def)

end
