(* ===== verification/Queue_Debug.thy ===== *)
theory Queue_Debug
  imports List_Families
begin

text \<open>
  The list macros of \<open>server/src/queue.h\<close> when they are compiled with \<open>QUEUE_MACRO_DEBUG\<close>. Heads and
  entries of tail queues then carry a trace buffer with the last two places (line and file) at
  which they were altered, and a removal overwrites the links of the removed element with the
  invalid pointer \<open>(void *)-1\<close>. A memory of this build is a memory of the release build with the
  trace buffers beside it; every macro is the macro of the release build and the
  assignments that the debugging macros add to it. The trace buffers are read by nobody else, so
  the assignments to them stand behind those to the links.
\<close>

section \<open>Trace buffers\<close>

record qm_trace =
  lastline :: u64
  prevline :: u64
  lastfile :: "string option"
  prevfile :: "string option"

text \<open>\<open>__LINE__\<close> and \<open>__FILE__\<close> where a macro is used; they are the same for its whole expansion.\<close>

type_synonym place = "u64 \<times> string"

record debug_mem =
  plain :: tq_mem
  head_trace :: "head_id \<Rightarrow> qm_trace"
  elem_trace :: "addr \<Rightarrow> qm_trace"

definition TRACEBUF_INITIALIZER :: "place \<Rightarrow> qm_trace" where
  "TRACEBUF_INITIALIZER pl = \<lparr>lastline = fst pl, prevline = 0, lastfile = Some (snd pl), prevfile = None\<rparr>"

definition traced :: "place \<Rightarrow> qm_trace \<Rightarrow> qm_trace" where
  "traced pl tr = \<lparr>lastline = fst pl, prevline = lastline tr, lastfile = Some (snd pl), prevfile = lastfile tr\<rparr>"

definition QMD_TRACE_HEAD :: "place \<Rightarrow> head_id \<Rightarrow> debug_mem \<Rightarrow> debug_mem" where
  "QMD_TRACE_HEAD pl h d = d\<lparr>head_trace := (head_trace d)(h := traced pl (head_trace d h))\<rparr>"

definition QMD_TRACE_ELEM :: "place \<Rightarrow> addr \<Rightarrow> debug_mem \<Rightarrow> debug_mem res" where
  "QMD_TRACE_ELEM pl a d = bindE (link_of (plain d) (Some a)) (\<lambda>_.
     Inr (d\<lparr>elem_trace := (elem_trace d)(a := traced pl (elem_trace d a))\<rparr>))"

text \<open>\<open>TRASHIT\<close> on a next pointer and on a back pointer; nothing is allocated at that address.\<close>

definition TRASH :: addr where "TRASH = 2 ^ 64 - 1"

definition TRASHIT_next :: "tq_mem \<Rightarrow> addr \<Rightarrow> tq_mem res" where
  "TRASHIT_next s a = store s (Next_of a) (Some TRASH)"

definition TRASHIT_prev :: "tq_mem \<Rightarrow> addr \<Rightarrow> tq_mem res" where
  "TRASHIT_prev s a = set_prev s (Some a) (Next_of TRASH)"

section \<open>The macros of tail queues\<close>

definition debug_TAILQ_HEAD_INITIALIZER :: "place \<Rightarrow> debug_mem \<Rightarrow> head_id \<Rightarrow> debug_mem" where
  "debug_TAILQ_HEAD_INITIALIZER pl d h =
     d\<lparr>plain := set_head (plain d) h (TAILQ_HEAD_INITIALIZER h), head_trace := (head_trace d)(h := TRACEBUF_INITIALIZER pl)\<rparr>"

definition debug_TAILQ_INIT :: "place \<Rightarrow> debug_mem \<Rightarrow> head_id \<Rightarrow> debug_mem" where
  "debug_TAILQ_INIT pl d h = QMD_TRACE_HEAD pl h (d\<lparr>plain := TAILQ_INIT (plain d) h\<rparr>)"

definition debug_TAILQ_INSERT_HEAD :: "place \<Rightarrow> debug_mem \<Rightarrow> head_id \<Rightarrow> addr \<Rightarrow> debug_mem res" where
  "debug_TAILQ_INSERT_HEAD pl d h elm =
     bindE (TAILQ_INSERT_HEAD (plain d) h elm) (\<lambda>s.
       QMD_TRACE_ELEM pl elm (QMD_TRACE_HEAD pl h (d\<lparr>plain := s\<rparr>)))"

definition debug_TAILQ_INSERT_TAIL :: "place \<Rightarrow> debug_mem \<Rightarrow> head_id \<Rightarrow> addr \<Rightarrow> debug_mem res" where
  "debug_TAILQ_INSERT_TAIL pl d h elm =
     bindE (TAILQ_INSERT_TAIL (plain d) h elm) (\<lambda>s.
       QMD_TRACE_ELEM pl elm (QMD_TRACE_HEAD pl h (d\<lparr>plain := s\<rparr>)))"

definition debug_TAILQ_INSERT_AFTER :: "place \<Rightarrow> debug_mem \<Rightarrow> head_id \<Rightarrow> addr \<Rightarrow> addr \<Rightarrow> debug_mem res" where
  "debug_TAILQ_INSERT_AFTER pl d h listelm elm =
     bindE (TAILQ_NEXT (plain d) (Some listelm)) (\<lambda>nx.
     bindE (TAILQ_INSERT_AFTER (plain d) h listelm elm) (\<lambda>s.
     let d1 = d\<lparr>plain := s\<rparr>; d2 = (if nx \<noteq> None then d1 else QMD_TRACE_HEAD pl h d1) in
     bindE (QMD_TRACE_ELEM pl elm d2) (QMD_TRACE_ELEM pl listelm)))"

definition debug_TAILQ_INSERT_BEFORE :: "place \<Rightarrow> debug_mem \<Rightarrow> addr \<Rightarrow> addr \<Rightarrow> debug_mem res" where
  "debug_TAILQ_INSERT_BEFORE pl d listelm elm =
     bindE (TAILQ_INSERT_BEFORE (plain d) listelm elm) (\<lambda>s.
     bindE (QMD_TRACE_ELEM pl elm (d\<lparr>plain := s\<rparr>)) (QMD_TRACE_ELEM pl listelm))"

definition debug_TAILQ_REMOVE :: "place \<Rightarrow> debug_mem \<Rightarrow> head_id \<Rightarrow> addr \<Rightarrow> debug_mem res" where
  "debug_TAILQ_REMOVE pl d h elm =
     bindE (TAILQ_NEXT (plain d) (Some elm)) (\<lambda>nx.
     bindE (TAILQ_REMOVE (plain d) h elm) (\<lambda>s.
     bindE (TRASHIT_next s elm) (\<lambda>s1.
     bindE (TRASHIT_prev s1 elm) (\<lambda>s2.
     let d1 = d\<lparr>plain := s2\<rparr>; d2 = (if nx \<noteq> None then d1 else QMD_TRACE_HEAD pl h d1) in
     QMD_TRACE_ELEM pl elm d2))))"

text \<open>\<open>TAILQ_CONCAT\<close> expands \<open>TAILQ_INIT\<close>, which traces the second head, and then traces both heads.\<close>

definition debug_TAILQ_CONCAT :: "place \<Rightarrow> debug_mem \<Rightarrow> head_id \<Rightarrow> head_id \<Rightarrow> debug_mem res" where
  "debug_TAILQ_CONCAT pl d head1 head2 =
     (if TAILQ_EMPTY (plain d) head2 then Inr d
      else bindE (TAILQ_CONCAT (plain d) head1 head2) (\<lambda>s.
        Inr (QMD_TRACE_HEAD pl head2 (QMD_TRACE_HEAD pl head1 (QMD_TRACE_HEAD pl head2 (d\<lparr>plain := s\<rparr>))))))"

definition debug_TAILQ_SWAP :: "debug_mem \<Rightarrow> head_id \<Rightarrow> head_id \<Rightarrow> debug_mem res" where
  "debug_TAILQ_SWAP d head1 head2 = bindE (TAILQ_SWAP (plain d) head1 head2) (\<lambda>s. Inr (d\<lparr>plain := s\<rparr>))"

section \<open>Removal in the other families\<close>

definition debug_SLIST_REMOVE :: "nat \<Rightarrow> sl_mem \<Rightarrow> head_id \<Rightarrow> addr \<Rightarrow> sl_mem option res" where
  "debug_SLIST_REMOVE n s h elm = bindE (SLIST_REMOVE n s h elm) (\<lambda>r. case r of None \<Rightarrow> Inr None
     | Some s1 \<Rightarrow> bindE (sl_store s1 (Next_of elm) (Some TRASH)) (\<lambda>s2. Inr (Some s2)))"

definition debug_STAILQ_REMOVE :: "nat \<Rightarrow> stq_mem \<Rightarrow> head_id \<Rightarrow> addr \<Rightarrow> stq_mem option res" where
  "debug_STAILQ_REMOVE n s h elm = bindE (STAILQ_REMOVE n s h elm) (\<lambda>r. case r of None \<Rightarrow> Inr None
     | Some s1 \<Rightarrow> bindE (stq_store s1 (Next_of elm) (Some TRASH)) (\<lambda>s2. Inr (Some s2)))"

definition debug_LIST_REMOVE :: "ll_mem \<Rightarrow> addr \<Rightarrow> ll_mem res" where
  "debug_LIST_REMOVE s elm = bindE (LIST_REMOVE s elm) (\<lambda>s1.
     bindE (ll_store s1 (Next_of elm) (Some TRASH)) (\<lambda>s2. ll_set_prev s2 (Some elm) (Next_of TRASH)))"

section \<open>Effects on links and traces\<close>

lemma trace_simps [simp]:
  "plain (QMD_TRACE_HEAD pl h d) = plain d" "elem_trace (QMD_TRACE_HEAD pl h d) = elem_trace d"
  "head_trace (QMD_TRACE_HEAD pl h d) = (head_trace d)(h := traced pl (head_trace d h))"
  "alloc (plain d) a \<Longrightarrow> QMD_TRACE_ELEM pl a d = Inr (d\<lparr>elem_trace := (elem_trace d)(a := traced pl (elem_trace d a))\<rparr>)"
  by (simp_all add: QMD_TRACE_HEAD_def QMD_TRACE_ELEM_def)

lemma trash_simps:
  assumes "alloc s a"
  shows "TRASHIT_next s a = Inr (stored s (Next_of a) (Some TRASH))"
    "TRASHIT_prev (stored s (Next_of a) (Some TRASH)) a = Inr (with_prev (stored s (Next_of a) (Some TRASH)) a (Next_of TRASH))"
  using assms by (simp_all add: TRASHIT_next_def TRASHIT_prev_def)

text \<open>The links of \<open>a\<close> after its removal in the debugging build.\<close>

definition trashed :: "tq_mem \<Rightarrow> addr \<Rightarrow> tq_mem" where
  "trashed s a = with_prev (stored s (Next_of a) (Some TRASH)) a (Next_of TRASH)"

lemma trashed_touches: "alloc s a \<Longrightarrow> only_touches s (trashed s a) {} {a}"
  unfolding trashed_def by (intro touches_intros) auto

lemma trashed_next: "alloc s a \<Longrightarrow> TAILQ_NEXT (trashed s a) (Some a) = Inr (Some TRASH)"
  by (simp add: trashed_def TAILQ_NEXT_def)

lemma debug_remove_cases:
  assumes "tailq (plain d) h (ys @ a # zs)"
  obtains s where "TAILQ_REMOVE (plain d) h a = Inr s" "tailq s h (ys @ zs)" "only_touches (plain d) s {h} (set (ys @ a # zs))"
    "debug_TAILQ_REMOVE pl d h a = Inr (d\<lparr>plain := trashed s a,
       head_trace := (if zs = [] then (head_trace d)(h := traced pl (head_trace d h)) else head_trace d),
       elem_trace := (elem_trace d)(a := traced pl (elem_trace d a))\<rparr>)"
proof -
  obtain s where s: "TAILQ_REMOVE (plain d) h a = Inr s" "tailq s h (ys @ zs)" "only_touches (plain d) s {h} (set (ys @ a # zs))"
    using remove_spec[OF assms] by blast
  have al: "alloc s a" using next_view(3)[OF assms] touches_alloc[OF s(3)] by simp
  have al2: "alloc (trashed s a) a" using touches_alloc[OF trashed_touches[OF al]] al by simp
  have "debug_TAILQ_REMOVE pl d h a = Inr (d\<lparr>plain := trashed s a,
       head_trace := (if zs = [] then (head_trace d)(h := traced pl (head_trace d h)) else head_trace d),
       elem_trace := (elem_trace d)(a := traced pl (elem_trace d a))\<rparr>)"
    using next_ptr[OF assms] s(1) trash_simps[OF al] al2
    by (cases zs) (simp_all add: debug_TAILQ_REMOVE_def QMD_TRACE_HEAD_def flip: trashed_def)
  then show ?thesis using that s by blast
qed

lemma trashed_queue:
  assumes "tailq s h xs" "alloc s a" "a \<notin> set xs"
  shows "tailq (trashed s a) h xs"
  using tailq_elsewhere[OF trashed_touches[OF assms(2)]] assms by auto

section \<open>The debugging build keeps the interfaces\<close>

lemma debug_insert_cases:
  assumes "tailq (plain d) h (ys @ b # zs)" "alloc (plain d) n" "n \<notin> set (ys @ b # zs)"
  shows "\<exists>s. TAILQ_INSERT_AFTER (plain d) h b n = Inr s \<and> tailq s h (ys @ b # n # zs) \<and> (\<forall>a. alloc s a = alloc (plain d) a) \<and>
      debug_TAILQ_INSERT_AFTER pl d h b n = Inr (d\<lparr>plain := s,
        head_trace := (if zs = [] then (head_trace d)(h := traced pl (head_trace d h)) else head_trace d),
        elem_trace := (elem_trace d)(n := traced pl (elem_trace d n), b := traced pl (elem_trace d b))\<rparr>)"
    "\<exists>s. TAILQ_INSERT_BEFORE (plain d) b n = Inr s \<and> tailq s h (ys @ n # b # zs) \<and> (\<forall>a. alloc s a = alloc (plain d) a) \<and>
      debug_TAILQ_INSERT_BEFORE pl d b n = Inr (d\<lparr>plain := s,
        elem_trace := (elem_trace d)(n := traced pl (elem_trace d n), b := traced pl (elem_trace d b))\<rparr>)"
proof -
  have b: "alloc (plain d) b" "b \<noteq> n" using next_view(3)[OF assms(1)] assms(3) by auto
  obtain s where s: "TAILQ_INSERT_AFTER (plain d) h b n = Inr s" "tailq s h (ys @ b # n # zs)" "\<And>a. alloc s a = alloc (plain d) a"
    using insert_after_spec[OF assms] touches_alloc by metis
  moreover have "debug_TAILQ_INSERT_AFTER pl d h b n = Inr (d\<lparr>plain := s,
        head_trace := (if zs = [] then (head_trace d)(h := traced pl (head_trace d h)) else head_trace d),
        elem_trace := (elem_trace d)(n := traced pl (elem_trace d n), b := traced pl (elem_trace d b))\<rparr>)"
    using next_ptr[OF assms(1)] s assms(2) b
    by (cases zs) (simp_all add: debug_TAILQ_INSERT_AFTER_def QMD_TRACE_HEAD_def)
  ultimately show "\<exists>s. TAILQ_INSERT_AFTER (plain d) h b n = Inr s \<and> tailq s h (ys @ b # n # zs) \<and> (\<forall>a. alloc s a = alloc (plain d) a) \<and>
      debug_TAILQ_INSERT_AFTER pl d h b n = Inr (d\<lparr>plain := s,
        head_trace := (if zs = [] then (head_trace d)(h := traced pl (head_trace d h)) else head_trace d),
        elem_trace := (elem_trace d)(n := traced pl (elem_trace d n), b := traced pl (elem_trace d b))\<rparr>)" by blast
  obtain s where s: "TAILQ_INSERT_BEFORE (plain d) b n = Inr s" "tailq s h (ys @ n # b # zs)" "\<And>a. alloc s a = alloc (plain d) a"
    using insert_before_spec[OF assms] touches_alloc by metis
  then show "\<exists>s. TAILQ_INSERT_BEFORE (plain d) b n = Inr s \<and> tailq s h (ys @ n # b # zs) \<and> (\<forall>a. alloc s a = alloc (plain d) a) \<and>
      debug_TAILQ_INSERT_BEFORE pl d b n = Inr (d\<lparr>plain := s,
        elem_trace := (elem_trace d)(n := traced pl (elem_trace d n), b := traced pl (elem_trace d b))\<rparr>)"
    using assms(2) b by (auto simp: debug_TAILQ_INSERT_BEFORE_def)
qed

lemma debug_insert_end_cases:
  assumes "tailq (plain d) h xs" "alloc (plain d) n" "n \<notin> set xs"
  shows "\<exists>s. TAILQ_INSERT_HEAD (plain d) h n = Inr s \<and> tailq s h (n # xs) \<and> (\<forall>a. alloc s a = alloc (plain d) a) \<and>
      debug_TAILQ_INSERT_HEAD pl d h n = Inr (d\<lparr>plain := s, head_trace := (head_trace d)(h := traced pl (head_trace d h)),
        elem_trace := (elem_trace d)(n := traced pl (elem_trace d n))\<rparr>)"
    "\<exists>s. TAILQ_INSERT_TAIL (plain d) h n = Inr s \<and> tailq s h (xs @ [n]) \<and> (\<forall>a. alloc s a = alloc (plain d) a) \<and>
      debug_TAILQ_INSERT_TAIL pl d h n = Inr (d\<lparr>plain := s, head_trace := (head_trace d)(h := traced pl (head_trace d h)),
        elem_trace := (elem_trace d)(n := traced pl (elem_trace d n))\<rparr>)"
proof -
  obtain s where s: "TAILQ_INSERT_HEAD (plain d) h n = Inr s" "tailq s h (n # xs)" "\<And>a. alloc s a = alloc (plain d) a"
    using insert_head_spec[OF assms] touches_alloc by metis
  then show "\<exists>s. TAILQ_INSERT_HEAD (plain d) h n = Inr s \<and> tailq s h (n # xs) \<and> (\<forall>a. alloc s a = alloc (plain d) a) \<and>
      debug_TAILQ_INSERT_HEAD pl d h n = Inr (d\<lparr>plain := s, head_trace := (head_trace d)(h := traced pl (head_trace d h)),
        elem_trace := (elem_trace d)(n := traced pl (elem_trace d n))\<rparr>)"
    using assms(2) by (auto simp: debug_TAILQ_INSERT_HEAD_def QMD_TRACE_HEAD_def)
  obtain s where s: "TAILQ_INSERT_TAIL (plain d) h n = Inr s" "tailq s h (xs @ [n])" "\<And>a. alloc s a = alloc (plain d) a"
    using insert_tail_spec[OF assms] touches_alloc by metis
  then show "\<exists>s. TAILQ_INSERT_TAIL (plain d) h n = Inr s \<and> tailq s h (xs @ [n]) \<and> (\<forall>a. alloc s a = alloc (plain d) a) \<and>
      debug_TAILQ_INSERT_TAIL pl d h n = Inr (d\<lparr>plain := s, head_trace := (head_trace d)(h := traced pl (head_trace d h)),
        elem_trace := (elem_trace d)(n := traced pl (elem_trace d n))\<rparr>)"
    using assms(2) by (auto simp: debug_TAILQ_INSERT_TAIL_def QMD_TRACE_HEAD_def)
qed

lemma debug_remove_queue:
  assumes "tailq (plain d) h (ys @ a # zs)"
  shows "\<exists>d'. debug_TAILQ_REMOVE pl d h a = Inr d' \<and> tailq (plain d') h (ys @ zs) \<and> (\<forall>b. alloc (plain d') b = alloc (plain d) b) \<and>
    TAILQ_NEXT (plain d') (Some a) = Inr (Some TRASH)"
proof -
  obtain s where s: "tailq s h (ys @ zs)" "only_touches (plain d) s {h} (set (ys @ a # zs))"
    "debug_TAILQ_REMOVE pl d h a = Inr (d\<lparr>plain := trashed s a,
       head_trace := (if zs = [] then (head_trace d)(h := traced pl (head_trace d h)) else head_trace d),
       elem_trace := (elem_trace d)(a := traced pl (elem_trace d a))\<rparr>)"
    using debug_remove_cases[OF assms] by metis
  have al: "alloc s a" using next_view(3)[OF assms] touches_alloc[OF s(2)] by simp
  have "a \<notin> set (ys @ zs)" using tq.rep_distinct[OF assms] by simp
  then show ?thesis
    using s trashed_queue[OF s(1) al] touches_alloc[OF s(2)] touches_alloc[OF trashed_touches[OF al]] trashed_next[OF al] by simp
qed

text \<open>Every use of a macro has a place of its own: \<open>pl\<close> gives the place of a use in a memory.\<close>

interpretation dq: linked_list "\<lambda>d. tailq (plain d) h" "\<lambda>d. alloc (plain d)" "\<lambda>d. debug_TAILQ_INSERT_TAIL (pl d) d h"
  "\<lambda>d. debug_TAILQ_REMOVE (pl d) d h" "\<lambda>d. TAILQ_FIRST (plain d) h" for h pl
proof
  show "tailq (plain d) h xs \<Longrightarrow> alloc (plain d) n \<Longrightarrow> n \<notin> set xs \<Longrightarrow> \<exists>d'. debug_TAILQ_INSERT_TAIL (pl d) d h n = Inr d' \<and>
      tailq (plain d') h (xs @ [n]) \<and> (\<forall>a. alloc (plain d') a = alloc (plain d) a)" for d xs n
    using debug_insert_end_cases(2)[of d h xs n "pl d"] by auto
  show "tailq (plain d) h (ys @ a # zs) \<Longrightarrow> \<exists>d'. debug_TAILQ_REMOVE (pl d) d h a = Inr d' \<and> tailq (plain d') h (ys @ zs) \<and>
      (\<forall>a. alloc (plain d') a = alloc (plain d) a)" for d ys a zs
    using debug_remove_queue[of d h ys a zs "pl d"] by auto
qed (fact tq.rep_distinct tailq_alloc first_spec)+

interpretation dtq: mem_list "\<lambda>d. tailq (plain d) h" "\<lambda>d. TAILQ_NEXT (plain d)" "\<lambda>d. alloc (plain d)"
  "\<lambda>d. debug_TAILQ_INIT (pl d) d h" "\<lambda>d. TAILQ_FIRST (plain d) h" "\<lambda>d. debug_TAILQ_INSERT_HEAD (pl d) d h"
  "\<lambda>d. debug_TAILQ_INSERT_AFTER (pl d) d h" "\<lambda>_ d a. bindE (debug_TAILQ_REMOVE (pl d) d h a) (\<lambda>d1. Inr (Some d1))" for h pl
proof
  show "tailq (plain d) h (ys @ a # zs) \<Longrightarrow> TAILQ_NEXT (plain d) (Some a) = Inr (ptr_to zs)" for d ys a zs by (rule next_ptr)
  show "tailq (plain (debug_TAILQ_INIT (pl d) d h)) h [] \<and> (\<forall>a. alloc (plain (debug_TAILQ_INIT (pl d) d h)) a = alloc (plain d) a)" for d
    using init_empty[of "plain d" h] by (auto simp: debug_TAILQ_INIT_def dest: touches_alloc)
  show "tailq (plain d) h xs \<Longrightarrow> alloc (plain d) n \<Longrightarrow> n \<notin> set xs \<Longrightarrow> \<exists>d'. debug_TAILQ_INSERT_HEAD (pl d) d h n = Inr d' \<and>
      tailq (plain d') h (n # xs) \<and> (\<forall>a. alloc (plain d') a = alloc (plain d) a)" for d xs n
    using debug_insert_end_cases(1)[of d h xs n "pl d"] by auto
  show "tailq (plain d) h (ys @ b # zs) \<Longrightarrow> alloc (plain d) n \<Longrightarrow> n \<notin> set (ys @ b # zs) \<Longrightarrow>
      \<exists>d'. debug_TAILQ_INSERT_AFTER (pl d) d h b n = Inr d' \<and> tailq (plain d') h (ys @ b # n # zs) \<and>
        (\<forall>a. alloc (plain d') a = alloc (plain d) a)" for d ys b zs n
    using debug_insert_cases(1)[of d h ys b zs n "pl d"] by auto
  show "tailq (plain d) h (ys @ a # zs) \<Longrightarrow> \<exists>d'. bindE (debug_TAILQ_REMOVE (pl d) d h a) (\<lambda>d1. Inr (Some d1)) = Inr (Some d') \<and>
      tailq (plain d') h (ys @ zs) \<and> (\<forall>a. alloc (plain d') a = alloc (plain d) a)" for d ys a zs
    using debug_remove_queue[of d h ys a zs "pl d"] by auto
qed (rule first_ptr)


text \<open>The removals of the other families: the store to the link of the removed element touches no member.\<close>

lemma debug_slist_remove:
  assumes "slist s h (ys @ a # zs)" "length ys \<le> k"
  shows "\<exists>s'. debug_SLIST_REMOVE k s h a = Inr (Some s') \<and> slist s' h (ys @ zs) \<and> (\<forall>b. alloc s' b = alloc s b) \<and>
    SLIST_NEXT s' (Some a) = Inr (Some TRASH)"
proof -
  obtain s1 where s1: "SLIST_REMOVE k s h a = Inr (Some s1)" "slist s1 h (ys @ zs)" "only_touches s s1 {h} (set ys)"
    using slist_remove[OF assms] by blast
  have al: "alloc s1 a" using slist_alloc[OF assms(1)] touches_alloc[OF s1(3)] by simp
  let ?s = "sl_stored s1 (Next_of a) (Some TRASH)"
  have t: "only_touches s1 ?s {} {a}" using al by (intro touches_intros) auto
  have "slist ?s h (ys @ zs)" using slist_elsewhere[OF t _ _ s1(2)] slist_distinct[OF assms(1)] by simp
  then show ?thesis using s1(1) al touches_alloc[OF t] touches_alloc[OF s1(3)]
    by (simp add: debug_SLIST_REMOVE_def SLIST_NEXT_def)
qed

lemma debug_stailq_remove:
  assumes "stailq s h (ys @ a # zs)" "length ys \<le> k"
  shows "\<exists>s'. debug_STAILQ_REMOVE k s h a = Inr (Some s') \<and> stailq s' h (ys @ zs) \<and> (\<forall>b. alloc s' b = alloc s b) \<and>
    STAILQ_NEXT s' (Some a) = Inr (Some TRASH)"
proof -
  obtain s1 where s1: "STAILQ_REMOVE k s h a = Inr (Some s1)" "stailq s1 h (ys @ zs)" "only_touches s s1 {h} (set ys)"
    using stailq_remove[OF assms] by blast
  have al: "alloc s1 a" using stailq_alloc[OF assms(1)] touches_alloc[OF s1(3)] by simp
  let ?s = "stq_stored s1 (Next_of a) (Some TRASH)"
  have t: "only_touches s1 ?s {} {a}" using al by (intro touches_intros) auto
  have "stailq ?s h (ys @ zs)" using stailq_elsewhere[OF t _ _ s1(2)] stailq_distinct[OF assms(1)] by simp
  then show ?thesis using s1(1) al touches_alloc[OF t] touches_alloc[OF s1(3)]
    by (simp add: debug_STAILQ_REMOVE_def STAILQ_NEXT_def)
qed

lemma debug_llist_remove:
  assumes "llist s h (ys @ a # zs)"
  shows "\<exists>s'. debug_LIST_REMOVE s a = Inr s' \<and> llist s' h (ys @ zs) \<and> (\<forall>b. alloc s' b = alloc s b) \<and>
    LIST_NEXT s' (Some a) = Inr (Some TRASH)"
proof -
  obtain s1 where s1: "LIST_REMOVE s a = Inr s1" "llist s1 h (ys @ zs)" "only_touches s s1 {h} (set (ys @ a # zs))"
    using llist_remove[OF assms] by blast
  have al: "alloc s1 a" using llist_alloc[OF assms] touches_alloc[OF s1(3)] by simp
  let ?s = "ll_with_prev (ll_stored s1 (Next_of a) (Some TRASH)) a (Next_of TRASH)"
  have t: "only_touches s1 ?s {} {a}" using al by (intro touches_intros) auto
  have "llist ?s h (ys @ zs)" using llist_elsewhere[OF t _ _ s1(2)] llist_distinct[OF assms] by simp
  then show ?thesis using s1(1) al touches_alloc[OF t] touches_alloc[OF s1(3)]
    by (simp add: debug_LIST_REMOVE_def LIST_NEXT_def)
qed

interpretation dsl: mem_list "\<lambda>s. slist s h" SLIST_NEXT alloc "\<lambda>s. SLIST_INIT s h" "\<lambda>s. SLIST_FIRST s h"
  "\<lambda>s. SLIST_INSERT_HEAD s h" SLIST_INSERT_AFTER "\<lambda>k s. debug_SLIST_REMOVE k s h" for h
  by unfold_locales (meson sl.init_law sl.first_law sl.ins_head_law sl.ins_after_law debug_slist_remove)+

interpretation dstq: mem_list "\<lambda>s. stailq s h" STAILQ_NEXT alloc "\<lambda>s. STAILQ_INIT s h" "\<lambda>s. STAILQ_FIRST s h"
  "\<lambda>s. STAILQ_INSERT_HEAD s h" "\<lambda>s. STAILQ_INSERT_AFTER s h" "\<lambda>k s. debug_STAILQ_REMOVE k s h" for h
  by unfold_locales (meson stq.init_law stq.first_law stq.ins_head_law stq.ins_after_law debug_stailq_remove)+

interpretation dll: mem_list "\<lambda>s. llist s h" LIST_NEXT alloc "\<lambda>s. LIST_INIT s h" "\<lambda>s. LIST_FIRST s h"
  "\<lambda>s. LIST_INSERT_HEAD s h" LIST_INSERT_AFTER "\<lambda>_ s a. bindE (debug_LIST_REMOVE s a) (\<lambda>s1. Inr (Some s1))" for h
proof
  show "llist s h (ys @ a # zs) \<Longrightarrow> \<exists>s'. bindE (debug_LIST_REMOVE s a) (\<lambda>s1. Inr (Some s1)) = Inr (Some s') \<and>
      llist s' h (ys @ zs) \<and> (\<forall>a. alloc s' a = alloc s a)" for s ys a zs
    by (rule some_result) (meson debug_llist_remove)
qed (meson ll.init_law ll.first_law ll.ins_head_law ll.ins_after_law)+

text \<open>
  The release build leaves the links of a removed element as they are, so that its old successor
  can still be read from it.
\<close>

lemma remove_keeps_entry:
  assumes "tailq s h (ys @ a # zs)" "TAILQ_REMOVE s h a = Inr s'"
  shows "links s' a = links s a"
proof -
  have al: "alloc s c" if "c \<in> set (ys @ a # zs)" for c using tailq_alloc[OF assms(1) that] .
  have v: "valid s (end_slot h ys)" "end_slot h ys \<noteq> Next_of a"
    using al end_slot_cases[of h ys] tailq_parts(1)[OF assms(1)] by auto
  show ?thesis
    using assms(2) al v next_field[OF assms(1)] tailq_parts(1)[OF assms(1)]
    by (cases zs) (auto simp: TAILQ_REMOVE_def)
qed

lemma remove_keeps_next:
  assumes "tailq s h (ys @ a # zs)"
  shows "\<exists>s'. TAILQ_REMOVE s h a = Inr s' \<and> tailq s' h (ys @ zs) \<and> TAILQ_NEXT s' (Some a) = Inr (ptr_to zs)"
  using remove_spec[OF assms] remove_keeps_entry[OF assms] next_ptr[OF assms]
  by (auto simp: TAILQ_NEXT_def link_of_def)

lemma release_unlink_loop:
  "tailq s h xs \<Longrightarrow> length xs \<le> n \<Longrightarrow>
   \<exists>s'. foreach_loop_from n TAILQ_NEXT (\<lambda>a s. TAILQ_REMOVE s h a) (ptr_to xs) s = Inr (Some s') \<and> tailq s' h []"
proof (induction xs arbitrary: n s)
  case (Cons a as)
  obtain k where k: "n = Suc k" "length as \<le> k" using Cons.prems(2) by (cases n) auto
  obtain s1 where s1: "TAILQ_REMOVE s h a = Inr s1" "tailq s1 h as" "TAILQ_NEXT s1 (Some a) = Inr (ptr_to as)"
    using remove_keeps_next[of s h "[]" a as] Cons.prems(1) by auto
  then show ?case using Cons.IH[OF s1(2) k(2)] k(1) by simp
qed simp

section \<open>Properties\<close>

text \<open>
  (C19) The debugging build keeps the lists: in all four families, any sequence of insertions and
  removals that the reference on lists accepts runs without touching unallocated memory when it is
  compiled with the trace buffers and the overwriting of removed links, and a traversal then sees
  exactly the elements of the reference in its order, whatever the places of the uses are. It is
  the result that the release build gives for the same sequence.
\<close>

theorem debug_build_agrees:
  assumes "list_ops cs [] = Some xs" "length cs \<le> k"
    and "\<forall>c\<in>set cs. \<forall>a\<in>new_elems c. alloc s1 a \<and> alloc s2 a \<and> alloc s3 a \<and> alloc (plain d) a"
  shows "\<exists>t1 t2 t3 t4.
    mem_ops (\<lambda>s. SLIST_INSERT_HEAD s h) SLIST_INSERT_AFTER (\<lambda>s. debug_SLIST_REMOVE k s h) cs (SLIST_INIT s1 h) = Inr (Some t1) \<and>
    mem_ops (\<lambda>s. STAILQ_INSERT_HEAD s h) (\<lambda>s. STAILQ_INSERT_AFTER s h) (\<lambda>s. debug_STAILQ_REMOVE k s h) cs
      (STAILQ_INIT s2 h) = Inr (Some t2) \<and>
    mem_ops (\<lambda>s. LIST_INSERT_HEAD s h) LIST_INSERT_AFTER (\<lambda>s a. bindE (debug_LIST_REMOVE s a) (\<lambda>s'. Inr (Some s'))) cs
      (LIST_INIT s3 h) = Inr (Some t3) \<and>
    mem_ops (\<lambda>d. debug_TAILQ_INSERT_HEAD (pl d) d h) (\<lambda>d. debug_TAILQ_INSERT_AFTER (pl d) d h)
      (\<lambda>d a. bindE (debug_TAILQ_REMOVE (pl d) d h a) (\<lambda>d'. Inr (Some d'))) cs (debug_TAILQ_INIT (pl d) d h) = Inr (Some t4) \<and>
    (\<forall>body (m :: 'm). let visit = bindE (foldE body xs m) (\<lambda>m'. Inr (Some m')) in
      SLIST_FOREACH k (\<lambda>_. t1) h body m = visit \<and> STAILQ_FOREACH k (\<lambda>_. t2) h body m = visit \<and>
      LIST_FOREACH k (\<lambda>_. t3) h body m = visit \<and> TAILQ_FOREACH k (\<lambda>_. plain t4) h body m = visit)"
proof -
  have al: "\<forall>c\<in>set cs. \<forall>a\<in>new_elems c. alloc s1 a" "\<forall>c\<in>set cs. \<forall>a\<in>new_elems c. alloc s2 a"
    "\<forall>c\<in>set cs. \<forall>a\<in>new_elems c. alloc s3 a" "\<forall>c\<in>set cs. \<forall>a\<in>new_elems c. alloc (plain d) a"
    using assms(3) by blast+
  note runs = dsl.ops_then_visit[OF assms(1) al(1) assms(2), of h] dstq.ops_then_visit[OF assms(1) al(2) assms(2), of h]
    dll.ops_then_visit[OF assms(1) al(3) assms(2), of h] dtq.ops_then_visit[OF assms(1) al(4) assms(2), of pl h]
  show ?thesis
    unfolding SLIST_FOREACH_def STAILQ_FOREACH_def LIST_FOREACH_def TAILQ_FOREACH_def Let_def
    using runs by (elim exE conjE) (intro exI conjI allI; (assumption | (erule allE)+, assumption))
qed

text \<open>Memories of the debugging build around the samples of the release build, with empty traces.\<close>

definition no_trace :: qm_trace where
  "no_trace = \<lparr>lastline = 0, prevline = 0, lastfile = None, prevfile = None\<rparr>"

definition debug_over :: "tq_mem \<Rightarrow> debug_mem" where
  "debug_over s = \<lparr>plain = s, head_trace = \<lambda>_. no_trace, elem_trace = \<lambda>_. no_trace\<rparr>"

theorem debug_build_agrees_witness:
  "\<exists>t1 t4. mem_ops (\<lambda>s. SLIST_INSERT_HEAD s 0) SLIST_INSERT_AFTER (\<lambda>s. debug_SLIST_REMOVE 5 s 0) sample_ops
       (SLIST_INIT sample_sl 0) = Inr (Some t1) \<and>
     mem_ops (\<lambda>d. debug_TAILQ_INSERT_HEAD (7, ''a.c'') d 0) (\<lambda>d. debug_TAILQ_INSERT_AFTER (7, ''a.c'') d 0)
       (\<lambda>d a. bindE (debug_TAILQ_REMOVE (7, ''a.c'') d 0 a) (\<lambda>d'. Inr (Some d'))) sample_ops
       (debug_TAILQ_INIT (7, ''a.c'') (debug_over sample_tq) 0) = Inr (Some t4) \<and>
     SLIST_FOREACH 5 (\<lambda>_. t1) 0 (\<lambda>a seen. Inr (seen @ [a])) [] = Inr (Some [3, 4, 2]) \<and>
     TAILQ_FOREACH 5 (\<lambda>_. plain t4) 0 (\<lambda>a seen. Inr (seen @ [a])) [] = Inr (Some [3, 4, 2])"
proof -
  have a: "list_ops sample_ops [] = Some [3, 4, 2]" "length sample_ops \<le> 5"
    "\<forall>c\<in>set sample_ops. \<forall>a\<in>new_elems c. alloc sample_sl a \<and> alloc sample_stq a \<and> alloc sample_ll a \<and>
      alloc (plain (debug_over sample_tq)) a"
    by (simp_all add: sample_ops_def sample_sl_def sample_stq_def sample_ll_def sample_tq_def debug_over_def alloc_def)
  have "bindE (foldE (\<lambda>a seen. Inr (seen @ [a])) [3, 4, 2] []) (\<lambda>m'. Inr (Some m')) =
      (Inr (Some [3, 4, 2]) :: addr list option res)" by simp
  with debug_build_agrees[OF a(1) a(2) a(3), of 0 "\<lambda>_. (7, ''a.c'')"] show ?thesis unfolding Let_def by metis
qed

text \<open>
  (C35) A plain traversal whose body unlinks the visited element, without freeing it, empties the queue
  in the release build, because the removed element still has its link. The debugging build has
  overwritten that link: the same loop removes the first element, takes the invalid pointer for the
  next one and dereferences it, also when the queue has one element only. The safe traversal empties
  the queue in both builds.
\<close>

theorem debug_catches_unlinking_loop:
  assumes "tailq (plain d) h xs" "xs \<noteq> []" "\<not> alloc (plain d) TRASH"
  shows "(\<exists>s'. TAILQ_FOREACH (length xs) (\<lambda>s. s) h (\<lambda>a s. TAILQ_REMOVE s h a) (plain d) = Inr (Some s') \<and> TAILQ_EMPTY s' h) \<and>
    TAILQ_FOREACH (Suc (length xs)) plain h (\<lambda>a d. debug_TAILQ_REMOVE (pl d) d h a) d = Inl Use_of_freed \<and>
    (\<exists>d'. TAILQ_FOREACH_SAFE (length xs) plain h (\<lambda>a d. debug_TAILQ_REMOVE (pl d) d h a) d = Inr (Some d') \<and>
      TAILQ_EMPTY (plain d') h)"
proof (intro conjI)
  show "\<exists>s'. TAILQ_FOREACH (length xs) (\<lambda>s. s) h (\<lambda>a s. TAILQ_REMOVE s h a) (plain d) = Inr (Some s') \<and> TAILQ_EMPTY s' h"
    using release_unlink_loop[OF assms(1) order.refl] first_ptr[OF assms(1)] empty_spec
    by (fastforce simp: TAILQ_FOREACH_def)
  obtain a as where xs: "xs = a # as" using assms(2) by (cases xs) auto
  obtain d1 where d1: "debug_TAILQ_REMOVE (pl d) d h a = Inr d1" "\<forall>b. alloc (plain d1) b = alloc (plain d) b"
      "TAILQ_NEXT (plain d1) (Some a) = Inr (Some TRASH)"
    using debug_remove_queue[of d h "[]" a as "pl d"] assms(1) xs by auto
  have "links (plain d1) TRASH = None" using d1(2) assms(3) by (metis alloc_def)
  then have "debug_TAILQ_REMOVE (pl d1) d1 h TRASH = Inl Use_of_freed"
    by (simp add: debug_TAILQ_REMOVE_def TAILQ_NEXT_def link_of_def)
  then show "TAILQ_FOREACH (Suc (length xs)) plain h (\<lambda>a d. debug_TAILQ_REMOVE (pl d) d h a) d = Inl Use_of_freed"
    using first_ptr[OF assms(1)] d1 xs by (simp add: TAILQ_FOREACH_def)
  have step: "\<exists>d'. debug_TAILQ_REMOVE (pl e) e h b = Inr d' \<and> tailq (plain d') h ([] @ bs) \<and> True"
    if "tailq (plain e) h ([] @ b # bs)" for b bs e using debug_remove_queue[OF that, of "pl e"] by auto
  have "\<exists>d'. foreach_safe_from (length xs) (\<lambda>d. TAILQ_NEXT (plain d)) (\<lambda>a d. debug_TAILQ_REMOVE (pl d) d h a) (ptr_to xs) d =
      Inr (Some d') \<and> tailq (plain d') h [] \<and> True"
    by (rule tqw.safe_drain[where ys = "[]" and Q = "\<lambda>_ _. True" and mem = plain]) (use assms(1) step in auto)
  then show "\<exists>d'. TAILQ_FOREACH_SAFE (length xs) plain h (\<lambda>a d. debug_TAILQ_REMOVE (pl d) d h a) d = Inr (Some d') \<and>
      TAILQ_EMPTY (plain d') h"
    using first_ptr[OF assms(1)] empty_spec by (fastforce simp: TAILQ_FOREACH_SAFE_def)
qed

theorem debug_catches_unlinking_loop_witness:
  "(\<exists>s'. TAILQ_FOREACH 2 (\<lambda>s. s) 0 (\<lambda>a s. TAILQ_REMOVE s 0 a) sample_two = Inr (Some s') \<and> TAILQ_EMPTY s' 0) \<and>
   TAILQ_FOREACH 3 plain 0 (\<lambda>a d. debug_TAILQ_REMOVE (7, ''a.c'') d 0 a) (debug_over sample_two) = Inl Use_of_freed"
proof -
  have "\<not> alloc (plain (debug_over sample_two)) TRASH"
    by (simp add: debug_over_def sample_two_def alloc_def TRASH_def)
  from debug_catches_unlinking_loop[OF _ _ this, of 0 "[1, 2]" "\<lambda>_. (7, ''a.c'')"] sample_two_queues(1)
  show ?thesis by (simp add: debug_over_def numeral_2_eq_2 numeral_3_eq_3)
qed

text \<open>
  What the trace of a head records, for a queue of at least two elements. An insertion at the tail
  moves the last place to the place before it and records its own, for the head and the new
  element. Three uses change the head and leave its trace as it was: an insertion before the first
  element, the removal of the first element and a swap. A concatenation traces the second head
  twice, so that both places recorded there are its own.
\<close>

theorem head_trace_misses_changes:
  assumes "tailq (plain d) h (a # b # zs)" "tailq (plain d) k ys" "h \<noteq> k" "ys \<noteq> []"
    and "alloc (plain d) n" "n \<notin> set (a # b # zs)"
  shows "(\<exists>d'. debug_TAILQ_INSERT_TAIL pl d h n = Inr d' \<and> (let tr = head_trace d h; te = elem_trace d n in
      head_trace d' h = \<lparr>lastline = fst pl, prevline = lastline tr, lastfile = Some (snd pl), prevfile = lastfile tr\<rparr> \<and>
      elem_trace d' n = \<lparr>lastline = fst pl, prevline = lastline te, lastfile = Some (snd pl), prevfile = lastfile te\<rparr>)) \<and>
    (\<exists>d'. debug_TAILQ_INSERT_BEFORE pl d a n = Inr d' \<and> TAILQ_FIRST (plain d') h = Some n \<and> head_trace d' = head_trace d) \<and>
    (\<exists>d'. debug_TAILQ_REMOVE pl d h a = Inr d' \<and> TAILQ_FIRST (plain d') h = Some b \<and> head_trace d' = head_trace d) \<and>
    (\<exists>d'. debug_TAILQ_SWAP d h k = Inr d' \<and> TAILQ_FIRST (plain d') h = ptr_to ys \<and> TAILQ_FIRST (plain d') k = Some a \<and>
      head_trace d' = head_trace d) \<and>
    (\<exists>d'. debug_TAILQ_CONCAT pl d h k = Inr d' \<and> TAILQ_EMPTY (plain d') k \<and> head_trace d' h = traced pl (head_trace d h) \<and>
      head_trace d' k = \<lparr>lastline = fst pl, prevline = fst pl, lastfile = Some (snd pl), prevfile = Some (snd pl)\<rparr>)"
proof (intro conjI)
  have q: "tailq (plain d) h ([] @ a # b # zs)" and n: "n \<notin> set ([] @ a # b # zs)" using assms(1,6) by simp_all
  show "\<exists>d'. debug_TAILQ_INSERT_TAIL pl d h n = Inr d' \<and> (let tr = head_trace d h; te = elem_trace d n in
      head_trace d' h = \<lparr>lastline = fst pl, prevline = lastline tr, lastfile = Some (snd pl), prevfile = lastfile tr\<rparr> \<and>
      elem_trace d' n = \<lparr>lastline = fst pl, prevline = lastline te, lastfile = Some (snd pl), prevfile = lastfile te\<rparr>)"
    using debug_insert_end_cases(2)[OF assms(1,5,6), of pl] by (auto simp: traced_def)
  show "\<exists>d'. debug_TAILQ_INSERT_BEFORE pl d a n = Inr d' \<and> TAILQ_FIRST (plain d') h = Some n \<and> head_trace d' = head_trace d"
    using debug_insert_cases(2)[OF q assms(5) n, of pl] first_ptr by fastforce
  obtain s where s: "tailq s h (b # zs)" "only_touches (plain d) s {h} (set ([] @ a # b # zs))"
      "debug_TAILQ_REMOVE pl d h a = Inr (d\<lparr>plain := trashed s a, head_trace := head_trace d,
         elem_trace := (elem_trace d)(a := traced pl (elem_trace d a))\<rparr>)"
    by (rule debug_remove_cases[OF q, of pl]) simp
  have "tailq (trashed s a) h (b # zs)"
    using trashed_queue[OF s(1)] next_view(3)[OF q] touches_alloc[OF s(2)] tq.rep_distinct[OF assms(1)] by simp
  then show "\<exists>d'. debug_TAILQ_REMOVE pl d h a = Inr d' \<and> TAILQ_FIRST (plain d') h = Some b \<and> head_trace d' = head_trace d"
    using s(3) first_ptr by fastforce
  show "\<exists>d'. debug_TAILQ_SWAP d h k = Inr d' \<and> TAILQ_FIRST (plain d') h = ptr_to ys \<and> TAILQ_FIRST (plain d') k = Some a \<and>
      head_trace d' = head_trace d"
    using swap_spec[OF assms(1-3)] first_ptr by (fastforce simp: debug_TAILQ_SWAP_def)
  show "\<exists>d'. debug_TAILQ_CONCAT pl d h k = Inr d' \<and> TAILQ_EMPTY (plain d') k \<and> head_trace d' h = traced pl (head_trace d h) \<and>
      head_trace d' k = \<lparr>lastline = fst pl, prevline = fst pl, lastfile = Some (snd pl), prevfile = Some (snd pl)\<rparr>"
    using concat_spec[OF assms(1-3)] empty_spec[OF assms(2)] empty_spec assms(3,4)
    by (fastforce simp: debug_TAILQ_CONCAT_def traced_def)
qed

theorem head_trace_misses_changes_witness:
  "(\<exists>d'. debug_TAILQ_REMOVE (7, ''a.c'') (debug_over sample_two) 0 1 = Inr d' \<and> TAILQ_FIRST (plain d') 0 = Some 2 \<and>
     head_trace d' = head_trace (debug_over sample_two)) \<and>
   (\<exists>d'. debug_TAILQ_CONCAT (7, ''a.c'') (debug_over sample_two) 0 1 = Inr d' \<and> prevline (head_trace d' 1) = 7)"
proof -
  have "tailq (plain (debug_over sample_two)) 0 [1, 2]" "tailq (plain (debug_over sample_two)) 1 [3]"
    "alloc (plain (debug_over sample_two)) 4" "(4 :: addr) \<notin> set [1, 2]"
    using sample_two_queues by (simp_all add: debug_over_def)
  from head_trace_misses_changes[OF this(1,2) zero_neq_one list.distinct(2) this(3,4), of "(7, ''a.c'')"]
  show ?thesis by (elim conjE exE) simp
qed

end
