(* ===== verification/Queue_Checked.thy ===== *)
theory Queue_Checked
  imports Queue_Debug
begin

text \<open>
  The doubly linked families of \<open>server/src/queue.h\<close> as a kernel with \<open>INVARIANTS\<close> compiles them:
  most macros that change a list first check the links around the place of the change and call
  \<open>panic\<close> when one of them is wrong. The singly linked families have no such checks. The interface
  \<open>checked_list\<close> says that the checks of a family are silent on its lists; its lemma carries this
  over to every sequence of operations.
\<close>

section \<open>Macros with their checks\<close>

text \<open>A check in front of an operation; a failed one stops the kernel.\<close>

definition guarded :: "bool res \<Rightarrow> 'a res \<Rightarrow> 'a res" where
  "guarded check r = bindE check (\<lambda>ok. if ok then r else Inl Panics)"

definition checked_LIST_INSERT_AFTER :: "ll_mem \<Rightarrow> addr \<Rightarrow> addr \<Rightarrow> ll_mem res" where
  "checked_LIST_INSERT_AFTER s listelm elm = guarded (QMD_LIST_CHECK_NEXT s listelm) (LIST_INSERT_AFTER s listelm elm)"

definition checked_LIST_INSERT_BEFORE :: "ll_mem \<Rightarrow> addr \<Rightarrow> addr \<Rightarrow> ll_mem res" where
  "checked_LIST_INSERT_BEFORE s listelm elm = guarded (QMD_LIST_CHECK_PREV s listelm) (LIST_INSERT_BEFORE s listelm elm)"

definition checked_LIST_INSERT_HEAD :: "ll_mem \<Rightarrow> head_id \<Rightarrow> addr \<Rightarrow> ll_mem res" where
  "checked_LIST_INSERT_HEAD s h elm = guarded (QMD_LIST_CHECK_HEAD s h) (LIST_INSERT_HEAD s h elm)"

definition checked_LIST_REMOVE :: "ll_mem \<Rightarrow> addr \<Rightarrow> ll_mem res" where
  "checked_LIST_REMOVE s elm =
     guarded (QMD_LIST_CHECK_NEXT s elm) (guarded (QMD_LIST_CHECK_PREV s elm) (LIST_REMOVE s elm))"

definition checked_TAILQ_INSERT_AFTER :: "tq_mem \<Rightarrow> head_id \<Rightarrow> addr \<Rightarrow> addr \<Rightarrow> tq_mem res" where
  "checked_TAILQ_INSERT_AFTER s h listelm elm =
     guarded (QMD_TAILQ_CHECK_NEXT s listelm) (TAILQ_INSERT_AFTER s h listelm elm)"

definition checked_TAILQ_INSERT_BEFORE :: "tq_mem \<Rightarrow> addr \<Rightarrow> addr \<Rightarrow> tq_mem res" where
  "checked_TAILQ_INSERT_BEFORE s listelm elm =
     guarded (QMD_TAILQ_CHECK_PREV s listelm) (TAILQ_INSERT_BEFORE s listelm elm)"

definition checked_TAILQ_INSERT_HEAD :: "tq_mem \<Rightarrow> head_id \<Rightarrow> addr \<Rightarrow> tq_mem res" where
  "checked_TAILQ_INSERT_HEAD s h elm = guarded (QMD_TAILQ_CHECK_HEAD s h) (TAILQ_INSERT_HEAD s h elm)"

definition checked_TAILQ_INSERT_TAIL :: "tq_mem \<Rightarrow> head_id \<Rightarrow> addr \<Rightarrow> tq_mem res" where
  "checked_TAILQ_INSERT_TAIL s h elm = guarded (QMD_TAILQ_CHECK_TAIL s h) (TAILQ_INSERT_TAIL s h elm)"

definition checked_TAILQ_REMOVE :: "tq_mem \<Rightarrow> head_id \<Rightarrow> addr \<Rightarrow> tq_mem res" where
  "checked_TAILQ_REMOVE s h elm =
     guarded (QMD_TAILQ_CHECK_NEXT s elm) (guarded (QMD_TAILQ_CHECK_PREV s elm) (TAILQ_REMOVE s h elm))"

lemmas checked_LIST_defs = checked_LIST_INSERT_AFTER_def checked_LIST_INSERT_BEFORE_def
  checked_LIST_INSERT_HEAD_def checked_LIST_REMOVE_def

lemmas checked_TAILQ_defs = checked_TAILQ_INSERT_AFTER_def checked_TAILQ_INSERT_BEFORE_def
  checked_TAILQ_INSERT_HEAD_def checked_TAILQ_INSERT_TAIL_def checked_TAILQ_REMOVE_def

lemma guarded_simps [simp]: "guarded (Inr True) r = r" "guarded (Inr False) r = Inl Panics" "guarded (Inl e) r = Inl e"
  by (simp_all add: guarded_def)

section \<open>Silent checks\<close>

text \<open>
  The interface of a family whose operations have a checked variant: on a list the variants are the
  operations.
\<close>

locale checked_list = mem_list rep nxt avail init first ins_head ins_after del
  for rep :: "'s \<Rightarrow> addr list \<Rightarrow> bool" and nxt :: "'s \<Rightarrow> ptr \<Rightarrow> ptr res" and avail :: "'s \<Rightarrow> addr \<Rightarrow> bool"
    and init :: "'s \<Rightarrow> 's" and first :: "'s \<Rightarrow> ptr" and ins_head :: "'s \<Rightarrow> addr \<Rightarrow> 's res"
    and ins_after :: "'s \<Rightarrow> addr \<Rightarrow> addr \<Rightarrow> 's res" and del :: "nat \<Rightarrow> 's \<Rightarrow> addr \<Rightarrow> 's option res" +
  fixes chk_head :: "'s \<Rightarrow> addr \<Rightarrow> 's res"
    and chk_after :: "'s \<Rightarrow> addr \<Rightarrow> addr \<Rightarrow> 's res"
    and chk_del :: "nat \<Rightarrow> 's \<Rightarrow> addr \<Rightarrow> 's option res"
  assumes chk_head_law: "rep s xs \<Longrightarrow> chk_head s n = ins_head s n"
    and chk_after_law: "rep s xs \<Longrightarrow> b \<in> set xs \<Longrightarrow> chk_after s b n = ins_after s b n"
    and chk_del_law: "rep s xs \<Longrightarrow> a \<in> set xs \<Longrightarrow> chk_del k s a = del k s a"
begin

lemma chk_op:
  assumes "rep s xs" "apply_op c xs = Some ys"
  shows "mem_op chk_head chk_after (chk_del k) c s = mem_op ins_head ins_after (del k) c s"
  using assms chk_head_law chk_after_law chk_del_law by (cases c) (auto split: if_splits)

lemma chk_ops:
  "rep s xs \<Longrightarrow> list_ops cs xs = Some ys \<Longrightarrow> \<forall>c\<in>set cs. \<forall>a\<in>new_elems c. avail s a \<Longrightarrow> length xs + length cs \<le> k \<Longrightarrow>
   mem_ops chk_head chk_after (chk_del k) cs s = mem_ops ins_head ins_after (del k) cs s"
proof (induction cs arbitrary: s xs)
  case (Cons c cs)
  obtain zs where zs: "apply_op c xs = Some zs" "list_ops cs zs = Some ys"
    using Cons.prems(2) by (cases "apply_op c xs") auto
  obtain t where t: "mem_op ins_head ins_after (del k) c s = Inr (Some t)" "rep t zs" "\<forall>a. avail t a = avail s a"
    using op_law[OF Cons.prems(1) zs(1), of k] Cons.prems(3,4) by auto
  have "length zs + length cs \<le> k" using apply_op_length[OF zs(1)] Cons.prems(4) by simp
  then show ?case using Cons.IH[OF t(2) zs(2)] Cons.prems(3) t chk_op[OF Cons.prems(1) zs(1)] by simp
qed simp

text \<open>A sequence from the empty list on ends in a list, with the checks and without.\<close>

lemma chk_run:
  assumes "list_ops cs [] = Some xs" "\<forall>c\<in>set cs. \<forall>a\<in>new_elems c. avail s a" "length cs \<le> k"
  shows "\<exists>t. mem_ops chk_head chk_after (chk_del k) cs (init s) = Inr (Some t) \<and>
    mem_ops ins_head ins_after (del k) cs (init s) = Inr (Some t) \<and> rep t xs"
proof -
  have i: "rep (init s) []" "\<forall>c\<in>set cs. \<forall>a\<in>new_elems c. avail (init s) a" using init_law[of s] assms(2) by auto
  show ?thesis
    using chk_ops[OF i(1) assms(1) i(2), of k] ops_law[OF i(1) assms(1) i(2), of k] assms(3) by auto
qed

end

lemma list_head_check: "llist s h xs \<Longrightarrow> QMD_LIST_CHECK_HEAD s h = Inr True"
  using llist_checks(1)[of s h "[]"] llist_first[of s h "[]"]
  by (cases xs) (auto simp: QMD_LIST_CHECK_HEAD_def)

lemma list_member_checks:
  assumes "llist s h xs" "a \<in> set xs"
  shows "QMD_LIST_CHECK_NEXT s a = Inr True" "QMD_LIST_CHECK_PREV s a = Inr True"
  using assms llist_checks by (metis split_list)+

lemma tailq_head_checks:
  assumes "tailq s h xs"
  shows "QMD_TAILQ_CHECK_HEAD s h = Inr True" "QMD_TAILQ_CHECK_TAIL s h = Inr True"
  using assms tailq_checks(1)[of s h "[]"] empty_spec[OF assms] tailq_parts(3)[of s h xs "[]"]
  by (cases xs; auto simp: QMD_TAILQ_CHECK_HEAD_def QMD_TAILQ_CHECK_TAIL_def)+

lemma tailq_member_checks:
  assumes "tailq s h xs" "a \<in> set xs"
  shows "QMD_TAILQ_CHECK_NEXT s a = Inr True" "QMD_TAILQ_CHECK_PREV s a = Inr True"
  using assms tailq_checks by (metis split_list)+

lemmas silent_checks = list_head_check list_member_checks tailq_head_checks tailq_member_checks

interpretation cll: checked_list "\<lambda>s. llist s h" LIST_NEXT alloc "\<lambda>s. LIST_INIT s h" "\<lambda>s. LIST_FIRST s h"
  "\<lambda>s. LIST_INSERT_HEAD s h" LIST_INSERT_AFTER "\<lambda>_ s a. bindE (LIST_REMOVE s a) (\<lambda>s1. Inr (Some s1))"
  "\<lambda>s. checked_LIST_INSERT_HEAD s h" checked_LIST_INSERT_AFTER
  "\<lambda>_ s a. bindE (checked_LIST_REMOVE s a) (\<lambda>s1. Inr (Some s1))" for h
  by unfold_locales (simp_all add: checked_LIST_defs silent_checks)

interpretation ctq: checked_list "\<lambda>s. tailq s h" TAILQ_NEXT alloc "\<lambda>s. TAILQ_INIT s h" "\<lambda>s. TAILQ_FIRST s h"
  "\<lambda>s. TAILQ_INSERT_HEAD s h" "\<lambda>s. TAILQ_INSERT_AFTER s h" "\<lambda>_ s a. bindE (TAILQ_REMOVE s h a) (\<lambda>s1. Inr (Some s1))"
  "\<lambda>s. checked_TAILQ_INSERT_HEAD s h" "\<lambda>s. checked_TAILQ_INSERT_AFTER s h"
  "\<lambda>_ s a. bindE (checked_TAILQ_REMOVE s h a) (\<lambda>s1. Inr (Some s1))" for h
  by unfold_locales (simp_all add: checked_TAILQ_defs silent_checks)

section \<open>Removed elements\<close>

text \<open>Writing the value that a place has changes nothing.\<close>

lemma same_value:
  "load_at hf en s sl = Inr p \<Longrightarrow> (\<And>v. hu (hf v) v = v) \<Longrightarrow> (\<And>e. eu (en e) e = e) \<Longrightarrow> stored_at hu eu s sl p = s"
  "back_at ep s a = Some q \<Longrightarrow> (\<And>e. pu (ep e) e = e) \<Longrightarrow> back_stored pu s a q = s"
  "hl (heads s h) = q \<Longrightarrow> (\<And>v. lu (hl v) v = v) \<Longrightarrow> store_last lu s h q = s"
  by (cases s; cases sl; auto simp: load_at.simps stored_at.simps set_head_def set_link_def back_at_def back_stored_def
    store_last_def link_of_def fun_upd_idem_iff split: option.splits)+

lemma tailq_stale:
  assumes "tailq s h (ys @ a # zs)" "TAILQ_REMOVE s h a = Inr s'"
  shows "tailq s' h (ys @ zs)" "alloc s' a" "tqe_next (the (links s' a)) = ptr_to zs"
    "tqe_prev (the (links s' a)) = end_slot h ys" "load s' (end_slot h ys) = Inr (ptr_to zs)"
proof -
  show q: "tailq s' h (ys @ zs)" using remove_spec[OF assms(1)] assms(2) by auto
  show "load s' (end_slot h ys) = Inr (ptr_to zs)" using tailq_parts(2)[OF q] .
  show "alloc s' a" "tqe_next (the (links s' a)) = ptr_to zs" "tqe_prev (the (links s' a)) = end_slot h ys"
    using remove_keeps_entry[OF assms] next_view(3)[OF assms(1)] next_field[OF assms(1)]
    by (auto simp: alloc_def ptr_to_def)
qed

lemma tailq_remove_twice:
  assumes "tailq s h (ys @ a # zs)" "TAILQ_REMOVE s h a = Inr s'"
  shows "TAILQ_REMOVE s' h a = Inr s'"
proof -
  note v = tailq_stale[OF assms]
  have e: "stored s' (end_slot h ys) (ptr_to zs) = s'" by (rule same_value(1)[OF v(5)]) simp_all
  have o: "valid s' (end_slot h ys)" using load_valid[OF v(5)] .
  show ?thesis
  proof (cases zs)
    case Nil
    have "set_last s' h (end_slot h ys) = s'" by (rule same_value(3)[where hl = tqh_last]) (use tailq_last[OF v(1)] Nil in simp_all)
    then show ?thesis using v e o Nil by (simp add: TAILQ_REMOVE_def)
  next
    case (Cons b bs)
    have b: "tailq s' h (ys @ b # bs)" using v(1) Cons by simp
    have "with_prev s' b (end_slot h ys) = s'" by (rule same_value(2)[OF next_view(2)[OF b]]) simp
    then show ?thesis using v e o next_view(3)[OF b] Cons by (simp add: TAILQ_REMOVE_def)
  qed
qed

lemma tailq_stale_checks:
  assumes "tailq s h (ys @ a # zs)" "TAILQ_REMOVE s h a = Inr s'"
  shows "QMD_TAILQ_CHECK_NEXT s' a = Inr (zs = [])" "QMD_TAILQ_CHECK_PREV s' a = Inr False"
proof -
  note v = tailq_stale[OF assms]
  have d: "distinct (ys @ a # zs)" using tailq_parts(1)[OF assms(1)] .
  then have n: "ptr_to zs \<noteq> Some a" "end_slot h ys \<noteq> Next_of a" by (cases zs; simp)+
  show "QMD_TAILQ_CHECK_PREV s' a = Inr False" using v n by (simp add: QMD_TAILQ_CHECK_PREV_def)
  show "QMD_TAILQ_CHECK_NEXT s' a = Inr (zs = [])"
  proof (cases zs)
    case (Cons b bs)
    then have b: "tailq s' h (ys @ b # bs)" using v(1) by simp
    show ?thesis using v n Cons next_view(3)[OF b] next_field(2)[OF b]
      by (simp add: QMD_TAILQ_CHECK_NEXT_def TAILQ_NEXT_def)
  qed (use v in \<open>simp add: QMD_TAILQ_CHECK_NEXT_def TAILQ_NEXT_def\<close>)
qed

text \<open>The same for the doubly linked lists.\<close>

lemma llist_stale:
  assumes "llist s h (ys @ a # zs)" "LIST_REMOVE s a = Inr s'"
  shows "llist s' h (ys @ zs)" "alloc s' a" "le_next (the (links s' a)) = ptr_to zs"
    "le_prev (the (links s' a)) = end_slot h ys" "ll_load s' (end_slot h ys) = Inr (ptr_to zs)"
proof -
  note v = llist_views[OF assms(1)] and d = llist_distinct[OF assms(1)]
  have al: "alloc s c" if "c \<in> set (ys @ a # zs)" for c using llist_alloc[OF assms(1) that] .
  have o: "valid s (end_slot h ys)" "end_slot h ys \<noteq> Next_of a" using load_valid[OF v(7)] d by simp_all
  show q: "llist s' h (ys @ zs)" using llist_remove[OF assms(1)] assms(2) by auto
  then show "ll_load s' (end_slot h ys) = Inr (ptr_to zs)" using dlist_at by (fastforce simp: llist_def)
  have "links s' a = links s a" using assms(2) al o v d by (cases zs) (auto simp: LIST_REMOVE_def)
  then show "alloc s' a" "le_next (the (links s' a)) = ptr_to zs" "le_prev (the (links s' a)) = end_slot h ys"
    using v by (simp_all add: alloc_def)
qed

lemma llist_remove_twice:
  assumes "llist s h (ys @ a # zs)" "LIST_REMOVE s a = Inr s'"
  shows "LIST_REMOVE s' a = Inr s'"
proof -
  note v = llist_stale[OF assms]
  have e: "ll_stored s' (end_slot h ys) (ptr_to zs) = s'" by (rule same_value(1)[OF v(5)]) simp_all
  have o: "valid s' (end_slot h ys)" using load_valid[OF v(5)] .
  show ?thesis
  proof (cases zs)
    case (Cons b bs)
    have b: "llist s' h (ys @ b # bs)" using v(1) Cons by simp
    have "ll_with_prev s' b (end_slot h ys) = s'" by (rule same_value(2)[OF llist_views(2)[OF b]]) simp
    then show ?thesis using v e o llist_views(3)[OF b] Cons by (simp add: LIST_REMOVE_def)
  qed (use v e o in \<open>simp add: LIST_REMOVE_def\<close>)
qed

lemma llist_stale_checks:
  assumes "llist s h (ys @ a # zs)" "LIST_REMOVE s a = Inr s'"
  shows "QMD_LIST_CHECK_NEXT s' a = Inr (zs = [])" "QMD_LIST_CHECK_PREV s' a = Inr False"
proof -
  note v = llist_stale[OF assms]
  have n: "ptr_to zs \<noteq> Some a" "end_slot h ys \<noteq> Next_of a" using llist_distinct[OF assms(1)] by (cases zs; simp)+
  show "QMD_LIST_CHECK_PREV s' a = Inr False" using v n by (simp add: QMD_LIST_CHECK_PREV_def)
  show "QMD_LIST_CHECK_NEXT s' a = Inr (zs = [])"
  proof (cases zs)
    case (Cons b bs)
    then have b: "llist s' h (ys @ b # bs)" using v(1) by simp
    show ?thesis using v n Cons llist_views(3,5)[OF b] by (simp add: QMD_LIST_CHECK_NEXT_def LIST_NEXT_def)
  qed (use v in \<open>simp add: QMD_LIST_CHECK_NEXT_def LIST_NEXT_def\<close>)
qed

text \<open>
  The check of the next pointer passes for an element that was removed as the last one. An insertion
  after it then moves the end of the queue to the new element, which no traversal reaches.
\<close>

lemma late_insert_loses_end:
  assumes "tailq s h (ys @ [a])" "TAILQ_REMOVE s h a = Inr s'" "alloc s n" "n \<notin> set (ys @ [a])"
  shows "\<exists>u. checked_TAILQ_INSERT_AFTER s' h a n = Inr u \<and> TAILQ_FIRST u h = ptr_to ys \<and> tqh_last (heads u h) = Next_of n \<and>
    (\<forall>xs. \<not> tailq u h xs)"
proof -
  note v = tailq_stale[OF assms(1,2)]
  have n: "alloc s' n" using remove_spec[OF assms(1)] assms(2,3) touches_alloc by fastforce
  let ?u = "with_prev (stored (set_last (stored s' (Next_of n) None) h (Next_of n)) (Next_of a) (Some n)) n (Next_of a)"
  have u: "checked_TAILQ_INSERT_AFTER s' h a n = Inr ?u"
    using v n assms(4) tailq_stale_checks(1)[OF assms(1,2)]
    by (simp add: checked_TAILQ_INSERT_AFTER_def TAILQ_INSERT_AFTER_def TAILQ_NEXT_def)
  have f: "TAILQ_FIRST ?u h = ptr_to ys" "tqh_last (heads ?u h) = Next_of n"
    using first_ptr[OF v(1)] n v(2) by (simp_all add: TAILQ_FIRST_def)
  have "\<not> tailq ?u h xs" for xs
  proof
    assume q: "tailq ?u h xs"
    have e: "end_slot h xs = Next_of n" using tailq_last[OF q] f(2) by simp
    then obtain ws where ws: "xs = ws @ [n]" by (cases xs rule: rev_cases) auto
    have "prev_of ?u n = Some (Next_of a)" using n v(2) by simp
    then have w: "end_slot h ws = Next_of a" using next_view(2)[of ?u h ws n "[]"] q ws by simp
    then obtain vs where vs: "ws = vs @ [a]" by (cases ws rule: rev_cases) auto
    have p: "tailq ?u h (vs @ a # [n])" using q ws vs by simp
    have "a \<noteq> n" "end_slot h ys \<noteq> Next_of a" "end_slot h ys \<noteq> Next_of n"
      using assms(4) tailq_parts(1)[OF assms(1)] by auto
    then have "tqe_prev (the (links ?u a)) = end_slot h ys" "load ?u (end_slot h ys) = Inr None"
      using v n by simp_all
    then show False using next_field(2)[OF p] tailq_parts(2)[OF p] by simp
  qed
  then show ?thesis using u f by blast
qed

section \<open>Properties\<close>

text \<open>
  (C20) The checks of a kernel with \<open>INVARIANTS\<close> do not change the meaning of the doubly linked families:
  every sequence of insertions and removals that the reference on lists accepts gives, from an
  initialised head on, the same memory with the checks as without them, and no check panics. The
  memory holds the list of the reference, and there the operations outside such sequences,
  insertions before a member and at the tail, are those of the release build too.
\<close>

theorem checked_build_agrees:
  assumes "list_ops cs [] = Some xs" "\<forall>c\<in>set cs. \<forall>a\<in>new_elems c. alloc s3 a \<and> alloc s4 a" "b \<in> set xs"
  shows "\<exists>t3 t4.
    mem_ops (\<lambda>s. checked_LIST_INSERT_HEAD s h) checked_LIST_INSERT_AFTER
      (\<lambda>s a. bindE (checked_LIST_REMOVE s a) (\<lambda>s'. Inr (Some s'))) cs (LIST_INIT s3 h) = Inr (Some t3) \<and>
    mem_ops (\<lambda>s. LIST_INSERT_HEAD s h) LIST_INSERT_AFTER
      (\<lambda>s a. bindE (LIST_REMOVE s a) (\<lambda>s'. Inr (Some s'))) cs (LIST_INIT s3 h) = Inr (Some t3) \<and>
    mem_ops (\<lambda>s. checked_TAILQ_INSERT_HEAD s h) (\<lambda>s. checked_TAILQ_INSERT_AFTER s h)
      (\<lambda>s a. bindE (checked_TAILQ_REMOVE s h a) (\<lambda>s'. Inr (Some s'))) cs (TAILQ_INIT s4 h) = Inr (Some t4) \<and>
    mem_ops (\<lambda>s. TAILQ_INSERT_HEAD s h) (\<lambda>s. TAILQ_INSERT_AFTER s h)
      (\<lambda>s a. bindE (TAILQ_REMOVE s h a) (\<lambda>s'. Inr (Some s'))) cs (TAILQ_INIT s4 h) = Inr (Some t4) \<and>
    llist t3 h xs \<and> tailq t4 h xs \<and>
    (\<forall>n. checked_LIST_INSERT_BEFORE t3 b n = LIST_INSERT_BEFORE t3 b n \<and>
      checked_TAILQ_INSERT_BEFORE t4 b n = TAILQ_INSERT_BEFORE t4 b n \<and>
      checked_TAILQ_INSERT_TAIL t4 h n = TAILQ_INSERT_TAIL t4 h n)"
proof -
  have al: "\<forall>c\<in>set cs. \<forall>a\<in>new_elems c. alloc s3 a" "\<forall>c\<in>set cs. \<forall>a\<in>new_elems c. alloc s4 a" using assms(2) by blast+
  obtain t3 t4 where r: "llist t3 h xs" "tailq t4 h xs"
    and runs: "mem_ops (\<lambda>s. checked_LIST_INSERT_HEAD s h) checked_LIST_INSERT_AFTER
      (\<lambda>s a. bindE (checked_LIST_REMOVE s a) (\<lambda>s'. Inr (Some s'))) cs (LIST_INIT s3 h) = Inr (Some t3)"
    "mem_ops (\<lambda>s. LIST_INSERT_HEAD s h) LIST_INSERT_AFTER
      (\<lambda>s a. bindE (LIST_REMOVE s a) (\<lambda>s'. Inr (Some s'))) cs (LIST_INIT s3 h) = Inr (Some t3)"
    "mem_ops (\<lambda>s. checked_TAILQ_INSERT_HEAD s h) (\<lambda>s. checked_TAILQ_INSERT_AFTER s h)
      (\<lambda>s a. bindE (checked_TAILQ_REMOVE s h a) (\<lambda>s'. Inr (Some s'))) cs (TAILQ_INIT s4 h) = Inr (Some t4)"
    "mem_ops (\<lambda>s. TAILQ_INSERT_HEAD s h) (\<lambda>s. TAILQ_INSERT_AFTER s h)
      (\<lambda>s a. bindE (TAILQ_REMOVE s h a) (\<lambda>s'. Inr (Some s'))) cs (TAILQ_INIT s4 h) = Inr (Some t4)"
    using cll.chk_run[OF assms(1) al(1) order.refl, of h] ctq.chk_run[OF assms(1) al(2) order.refl, of h] by blast
  have "checked_LIST_INSERT_BEFORE t3 b n = LIST_INSERT_BEFORE t3 b n"
    "checked_TAILQ_INSERT_BEFORE t4 b n = TAILQ_INSERT_BEFORE t4 b n"
    "checked_TAILQ_INSERT_TAIL t4 h n = TAILQ_INSERT_TAIL t4 h n" for n
    by (simp_all add: checked_LIST_defs checked_TAILQ_defs silent_checks(3)[OF r(1) assms(3)]
      silent_checks(5)[OF r(2)] silent_checks(7)[OF r(2) assms(3)])
  then show ?thesis using r runs by blast
qed

theorem checked_build_agrees_witness:
  "\<exists>t3 t4. mem_ops (\<lambda>s. checked_LIST_INSERT_HEAD s 0) checked_LIST_INSERT_AFTER
       (\<lambda>s a. bindE (checked_LIST_REMOVE s a) (\<lambda>s'. Inr (Some s'))) sample_ops (LIST_INIT sample_ll 0) = Inr (Some t3) \<and>
     llist t3 0 [3, 4, 2] \<and> tailq t4 0 [3, 4, 2] \<and>
     checked_TAILQ_INSERT_TAIL t4 0 1 = TAILQ_INSERT_TAIL t4 0 1"
proof -
  have "list_ops sample_ops [] = Some [3, 4, 2]"
    "\<forall>c\<in>set sample_ops. \<forall>a\<in>new_elems c. alloc sample_ll a \<and> alloc sample_tq a" "4 \<in> set [3, 4, 2 :: addr]"
    by (simp_all add: sample_ops_def sample_ll_def sample_tq_def alloc_def)
  from checked_build_agrees[OF this, of 0] show ?thesis by blast
qed

text \<open>
  (C36) What the checks catch. In the release build removing an element twice is not noticed: the
  second removal is accepted and changes nothing, in both families. With the checks the second
  removal panics, and so does an insertion before the removed element. An insertion after it
  panics unless the element was the last one. In that case no check sees it: the last pointer of
  the queue ends up in the new element while its first pointer is that of the elements left, so
  that it is no longer a queue of any elements.
\<close>

theorem double_removal_panics:
  assumes "tailq s h (ys @ a # zs)" "llist t h (ys @ a # zs)" "alloc s n" "n \<notin> set (ys @ a # zs)"
  shows "\<exists>s' t'. TAILQ_REMOVE s h a = Inr s' \<and> tailq s' h (ys @ zs) \<and> LIST_REMOVE t a = Inr t' \<and> llist t' h (ys @ zs) \<and>
    TAILQ_REMOVE s' h a = Inr s' \<and> LIST_REMOVE t' a = Inr t' \<and>
    checked_TAILQ_REMOVE s' h a = Inl Panics \<and> checked_LIST_REMOVE t' a = Inl Panics \<and>
    checked_TAILQ_INSERT_BEFORE s' a n = Inl Panics \<and> checked_LIST_INSERT_BEFORE t' a n = Inl Panics \<and>
    (if zs = [] then \<exists>u. checked_TAILQ_INSERT_AFTER s' h a n = Inr u \<and> TAILQ_FIRST u h = ptr_to ys \<and>
       tqh_last (heads u h) = Next_of n \<and> (\<forall>xs. \<not> tailq u h xs)
     else checked_TAILQ_INSERT_AFTER s' h a n = Inl Panics \<and> checked_LIST_INSERT_AFTER t' a n = Inl Panics)"
proof -
  obtain s' where s': "TAILQ_REMOVE s h a = Inr s'" using remove_spec[OF assms(1)] by blast
  obtain t' where t': "LIST_REMOVE t a = Inr t'" using llist_remove[OF assms(2)] by blast
  note checks = tailq_stale_checks[OF assms(1) s'] llist_stale_checks[OF assms(2) t']
  have "checked_TAILQ_REMOVE s' h a = Inl Panics" "checked_LIST_REMOVE t' a = Inl Panics"
    "checked_TAILQ_INSERT_BEFORE s' a n = Inl Panics" "checked_LIST_INSERT_BEFORE t' a n = Inl Panics"
    "zs \<noteq> [] \<Longrightarrow> checked_TAILQ_INSERT_AFTER s' h a n = Inl Panics"
    "zs \<noteq> [] \<Longrightarrow> checked_LIST_INSERT_AFTER t' a n = Inl Panics"
    using checks by (cases "zs = []"; simp add: checked_LIST_defs checked_TAILQ_defs)+
  moreover have "\<exists>u. checked_TAILQ_INSERT_AFTER s' h a n = Inr u \<and> TAILQ_FIRST u h = ptr_to ys \<and>
       tqh_last (heads u h) = Next_of n \<and> (\<forall>xs. \<not> tailq u h xs)" if "zs = []"
    using late_insert_loses_end[OF _ s' assms(3)] assms(1,4) that by auto
  ultimately show ?thesis
    using s' t' tailq_stale(1)[OF assms(1) s'] llist_stale(1)[OF assms(2) t'] tailq_remove_twice[OF assms(1) s']
      llist_remove_twice[OF assms(2) t'] by (intro exI[of _ s'] exI[of _ t']) auto
qed

theorem double_removal_panics_witness:
  "\<exists>s'. TAILQ_REMOVE sample_two 0 2 = Inr s' \<and> TAILQ_REMOVE s' 0 2 = Inr s' \<and> checked_TAILQ_REMOVE s' 0 2 = Inl Panics \<and>
     (\<exists>u. checked_TAILQ_INSERT_AFTER s' 0 2 4 = Inr u \<and> tqh_last (heads u 0) = Next_of 4)"
  using double_removal_panics[of sample_two 0 "[1]" 2 "[]" two_ll 4] sample_two_queues two_lists(5) by auto

end
