(* ===== verification/System_Calls.thy ===== *)
theory System_Calls
  imports AESD_Prelude
begin

text \<open>
  The process helpers of \<open>examples/systemcalls/systemcalls.c\<close>. The answers of \<open>system\<close>, \<open>fork\<close>,
  \<open>execv\<close>, \<open>wait\<close> and \<open>open\<close> are inputs. The functions are modelled as they run in one process:
  after \<open>fork\<close> the parent returns a boolean, and the child becomes the command or exits. Wait
  statuses have the Linux encoding, from which \<open>WEXITSTATUS\<close> is computed.
\<close>

section \<open>Wait statuses\<close>

text \<open>How a process ended: by \<open>exit\<close> with a code, or by a signal (with or without a core dump).\<close>

datatype process_end = Exited nat | Killed nat bool

definition wait_status :: "process_end \<Rightarrow> i32" where
  "wait_status e = (case e of
     Exited c \<Rightarrow> push_bit 8 (word_of_nat (c mod 256))
   | Killed sig core \<Rightarrow> word_of_nat sig + (if core then 128 else 0))"

definition WEXITSTATUS :: "i32 \<Rightarrow> nat" where
  "WEXITSTATUS status = unat (take_bit 8 (drop_bit 8 status))"

section \<open>do_system\<close>

text \<open>\<open>ret\<close> is the answer of \<open>system\<close> and \<open>err\<close> the value of \<open>errno\<close> after it.\<close>

definition do_system :: "'c option \<Rightarrow> i32 \<Rightarrow> i32 \<Rightarrow> bool" where
  "do_system cmd ret err =
     (case cmd of None \<Rightarrow> False
      | Some _ \<Rightarrow> if ret = -1 \<or> ret = 127 \<or> err \<noteq> 0 then False else True)"

section \<open>do_exec\<close>

text \<open>
  The loop that copies the variable arguments into the array: \<open>command\<close> has \<open>count + 1\<close> slots;
  taking an argument that was not passed is undefined behaviour.
\<close>

fun copy_args :: "'s list \<Rightarrow> nat \<Rightarrow> nat \<Rightarrow> 's option list \<Rightarrow> 's option list res" where
  "copy_args args i count command =
     (if i < count then
        case args of [] \<Rightarrow> Inl Out_of_bounds
        | a # rest \<Rightarrow> bindE (arr_set command i (Some a)) (copy_args rest (Suc i) count)
      else Inr command)"

declare copy_args.simps [simp del]

definition build_command :: "nat \<Rightarrow> 's list \<Rightarrow> 's option list res" where
  "build_command count args =
     bindE (copy_args args 0 count (replicate (count + 1) None)) (\<lambda>command. arr_set command count None)"

datatype 's exec_outcome =
    Returns bool
  | Child_becomes "'s option" "'s option list"
  | Child_exits nat

text \<open>
  \<open>status\<close> is the value the local variable holds after \<open>wait\<close>: the wait status of the child or, if \<open>wait\<close>
  fails and leaves the variable as it was, its indeterminate value. The result of \<open>wait\<close> is not looked at.
\<close>

definition do_exec :: "i32 \<Rightarrow> bool \<Rightarrow> i32 \<Rightarrow> nat \<Rightarrow> 's list \<Rightarrow> 's exec_outcome res" where
  "do_exec fork_ret execv_ok status count args =
     bindE (build_command count args) (\<lambda>command.
       if fork_ret = -1 then Inr (Returns False)
       else if fork_ret = 0 then
         bindE (arr_get command 0) (\<lambda>path.
           if execv_ok then Inr (Child_becomes path command) else Inr (Child_exits 1))
       else if WEXITSTATUS status = 0 then Inr (Returns True)
       else Inr (Returns False))"

section \<open>do_exec_redirect\<close>

text \<open>The descriptors of the calling process; \<open>Some f\<close> is an open descriptor of the file or terminal \<open>f\<close>.\<close>

type_synonym 'f fds = "nat \<Rightarrow> 'f option"

definition dup2 :: "nat option \<Rightarrow> nat \<Rightarrow> 'f fds \<Rightarrow> 'f fds" where
  "dup2 oldfd newfd t = (case oldfd of None \<Rightarrow> t
     | Some fd \<Rightarrow> (case t fd of None \<Rightarrow> t | Some f \<Rightarrow> t(newfd \<mapsto> f)))"

text \<open>\<open>fd\<close> is the answer of \<open>open\<close>, \<open>None\<close> for \<open>-1\<close>.\<close>

definition do_exec_redirect ::
  "'f \<Rightarrow> nat option \<Rightarrow> i32 \<Rightarrow> bool \<Rightarrow> i32 \<Rightarrow> nat \<Rightarrow> 's list \<Rightarrow> 'f fds \<Rightarrow> ('s exec_outcome \<times> 'f fds) res" where
  "do_exec_redirect outputfile fd fork_ret execv_ok status count args t =
     bindE (build_command count args) (\<lambda>command.
       let t1 = (case fd of None \<Rightarrow> t | Some n \<Rightarrow> t(n \<mapsto> outputfile));
           t2 = dup2 fd 1 t1 in
       if fork_ret = -1 then Inr (Returns False, t2)
       else if fork_ret = 0 then
         bindE (arr_get command 0) (\<lambda>path.
           if execv_ok then Inr (Child_becomes path command, t2) else Inr (Child_exits 1, t2))
       else if WEXITSTATUS status \<noteq> 0 then Inr (Returns False, t2)
       else Inr (Returns True, t2))"

section \<open>Lemmas\<close>

lemma WEXITSTATUS_nat: "WEXITSTATUS w = unat w div 256 mod 256"
  by (simp add: WEXITSTATUS_def take_bit_eq_mod drop_bit_eq_div unat_div_distrib unat_mod_distrib)

lemma unat_small_i32: "n < 4294967296 \<Longrightarrow> unat (word_of_nat n :: i32) = n"
  by (simp add: unat_of_nat)

lemma unat_exited: "unat (wait_status (Exited c)) = 256 * (c mod 256)"
proof -
  have "c mod 256 < 256" by simp
  then have "256 * (c mod 256) < 4294967296" by linarith
  moreover have "wait_status (Exited c) = word_of_nat (256 * (c mod 256))"
    by (simp add: wait_status_def push_bit_eq_mult)
  ultimately show ?thesis by (simp only: unat_small_i32)
qed

lemma unat_killed:
  assumes "sig < 128"
  shows "unat (wait_status (Killed sig core)) = sig + (if core then 128 else 0)"
proof -
  have "sig + (if core then 128 else 0) < 4294967296" using assms by simp
  moreover have "wait_status (Killed sig core) = word_of_nat (sig + (if core then 128 else 0))"
    by (simp add: wait_status_def)
  ultimately show ?thesis by (simp only: unat_small_i32)
qed

lemma WEXITSTATUS_end:
  "WEXITSTATUS (wait_status (Exited c)) = c mod 256"
  "sig < 128 \<Longrightarrow> WEXITSTATUS (wait_status (Killed sig core)) = 0"
  by (simp_all add: WEXITSTATUS_nat unat_exited unat_killed)

lemma copy_args_ok:
  "i + length args = count \<Longrightarrow> length command = count + 1 \<Longrightarrow>
   copy_args args i count command = Inr (take i command @ map Some args @ drop count command)"
proof (induction args arbitrary: i command)
  case Nil
  then show ?case by (simp add: copy_args.simps)
next
  case (Cons a as)
  then have "copy_args as (Suc i) count (command[i := Some a]) =
    Inr (take (Suc i) (command[i := Some a]) @ map Some as @ drop count (command[i := Some a]))"
    by (intro Cons.IH) auto
  moreover have "take (Suc i) (command[i := Some a]) = take i command @ [Some a]"
    using Cons.prems by (simp add: take_Suc_conv_app_nth)
  ultimately show ?case using Cons.prems by (simp add: copy_args.simps[of "a # as"])
qed

lemma build_command_ok: "build_command (length args) args = Inr (map Some args @ [None])"
proof -
  have "copy_args args 0 (length args) (replicate (length args + 1) None) = Inr (map Some args @ [None])"
    by (subst copy_args_ok) (simp_all add: replicate_append_same[symmetric])
  then show ?thesis by (simp add: build_command_def list_update_append)
qed

section \<open>Properties\<close>

text \<open>
  (C34) \<open>do_exec\<close> with the right argument count never leaves its array. The child runs the first argument
  with all arguments and a terminating \<open>NULL\<close>, or exits with status one when that fails. The
  parent returns true when the command exits with status zero (modulo 256), false when it exits
  with another status, and also true when a signal killed it.
\<close>

theorem do_exec_reports_exit_status:
  assumes "args = path # rest" "pid \<noteq> 0" "pid \<noteq> -1" "sig < 128"
  shows "do_exec 0 True st (length args) args = Inr (Child_becomes (Some path) (map Some args @ [None])) \<and>
    do_exec 0 False st (length args) args = Inr (Child_exits 1) \<and>
    do_exec (-1) ok st (length args) args = Inr (Returns False) \<and>
    do_exec pid ok (wait_status (Exited c)) (length args) args = Inr (Returns (c mod 256 = 0)) \<and>
    do_exec pid ok (wait_status (Killed sig core)) (length args) args = Inr (Returns True)"
  using assms build_command_ok[of args] by (simp add: do_exec_def WEXITSTATUS_end)

theorem do_exec_reports_exit_status_witness:
  "do_exec 42 True (wait_status (Exited 3)) 1 [''/bin/pwd''] = Inr (Returns False) \<and>
   do_exec 42 True (wait_status (Killed 9 False)) 1 [''/bin/pwd''] = Inr (Returns True)"
  using do_exec_reports_exit_status[of "[''/bin/pwd'']" "''/bin/pwd''" "[]" 42 9 0 True 3 False] by simp

text \<open>
  \<open>do_system\<close> compares the wait status with \<open>-1\<close> and \<open>127\<close> but not with zero: when \<open>errno\<close> is zero
  it returns true for every exit code of the command, also for code 127 by which the shell says
  that there is no such command; and when \<open>errno\<close> still holds an old error it returns false even
  for a command that succeeded.
\<close>

theorem do_system_ignores_exit_code:
  "do_system (Some cmd) (wait_status (Exited c)) err = (err = 0) \<and> \<not> do_system None ret err"
proof -
  have n: "256 * x \<noteq> (127 :: nat)" "256 * x \<noteq> (4294967295 :: nat)" for x :: nat by presburger+
  have "unat (127 :: i32) = 127" "unat (- 1 :: i32) = 4294967295"
    by (simp_all add: unsigned_minus_1_eq_mask mask_eq_exp_minus_1)
  then have "wait_status (Exited c) \<noteq> 127" "wait_status (Exited c) \<noteq> -1"
    using n[of "c mod 256"] unat_exited[of c] by metis+
  then show ?thesis by (simp add: do_system_def)
qed

text \<open>
  \<open>do_exec_redirect\<close> runs \<open>dup2\<close> in the calling process and before the fork: whatever the outcome,
  standard output of the caller refers to the file afterwards and the descriptor that was opened
  is still open (the comment says the file is closed). If the file cannot be opened the
  command is started all the same, with the standard output of the caller.
\<close>

theorem redirect_changes_caller:
  assumes "args \<noteq> []"
  shows "(\<exists>out t'. do_exec_redirect f (Some n) fork_ret ok st (length args) args t = Inr (out, t') \<and>
      t' 1 = Some f \<and> t' n = Some f \<and> (\<forall>k. k \<noteq> 1 \<and> k \<noteq> n \<longrightarrow> t' k = t k) \<and>
      do_exec fork_ret ok st (length args) args = Inr out) \<and>
    (\<exists>out. do_exec_redirect f None fork_ret ok st (length args) args t = Inr (out, t) \<and>
      do_exec fork_ret ok st (length args) args = Inr out)"
  using assms build_command_ok[of args]
  by (cases args) (auto simp: do_exec_redirect_def do_exec_def dup2_def Let_def)

theorem redirect_changes_caller_witness:
  "\<exists>out t'. do_exec_redirect ''out.txt'' (Some 3) 42 True (wait_status (Exited 0)) 1 [''/bin/pwd'']
      (\<lambda>k. if k < 3 then Some ''tty'' else None) = Inr (out, t') \<and> t' 1 = Some ''out.txt'' \<and> t' 3 = Some ''out.txt''"
  using redirect_changes_caller[of "[''/bin/pwd'']" "''out.txt''" 3 42 True "wait_status (Exited 0)"
      "\<lambda>k. if k < 3 then Some ''tty'' else None"] by auto

end
