(* ===== verification/Small_Programs.thy ===== *)
theory Small_Programs
  imports AESD_Prelude
begin

text \<open>
  The small programs of the assignments: the thread that holds a mutex for a while
  (\<open>examples/threading/threading.c\<close>), the file writer (\<open>finder-app/writer.c\<close>) and the functions the
  automatic test checks (\<open>examples/autotest-validate/\<close>), with their main program and the unit test
  \<open>student-test/assignment1/Test_validate_username.c\<close>. What they do to the system is a list of
  actions.
\<close>

section \<open>threading.c\<close>

text \<open>The structure, with the mutex as an address; times are 32-bit integers.\<close>

record threading_data =
  mutex :: addr
  sleep_ms :: i32
  wait_ms :: i32
  thread_complete_success :: bool

datatype thread_action = Sleeps_us i32 | Locks addr | Unlocks addr

definition threadfunc :: "threading_data \<Rightarrow> thread_action list \<times> threading_data" where
  "threadfunc td =
     ([Sleeps_us (1000 * sleep_ms td), Locks (mutex td), Sleeps_us (1000 * wait_ms td), Unlocks (mutex td)],
      td\<lparr>thread_complete_success := True\<rparr>)"

text \<open>
  \<open>block\<close> is the answer of \<open>malloc\<close> with the bytes it happens to hold, \<open>create_ret\<close> the answer of
  \<open>pthread_create\<close>. The result has the data of the started thread.
\<close>

definition start_thread_obtaining_mutex ::
  "threading_data option \<Rightarrow> i32 \<Rightarrow> addr \<Rightarrow> i32 \<Rightarrow> i32 \<Rightarrow> (bool \<times> threading_data) res" where
  "start_thread_obtaining_mutex new_block create_ret m wait_to_obtain_ms wait_to_release_ms =
     (case new_block of None \<Rightarrow> Inl Null_deref
      | Some p_thread_data \<Rightarrow>
         let p1 = p_thread_data\<lparr>mutex := m\<rparr>;
             p2 = p1\<lparr>wait_ms := wait_to_obtain_ms\<rparr>;
             p3 = p2\<lparr>sleep_ms := wait_to_release_ms\<rparr>;
             result = (create_ret = 0) in
         Inr (result, p3))"

section \<open>writer.c\<close>

datatype writer_action =
    Prints_usage
  | Logs_writing "byte list" "byte list"
  | Logs_error "byte list"
  | Creates_file "byte list"
  | Writes "byte list"

text \<open>
  \<open>fprintf(file, text_string, NULL)\<close> takes the text as a format: bytes before the first directive
  are copied and \<open>%%\<close> gives one percent sign. \<open>directive\<close> stands for what the C library does
  with the rest of the format from the first other directive on.
\<close>

abbreviation percent :: byte where "percent \<equiv> 37"

fun format_output :: "(byte list \<Rightarrow> byte list res) \<Rightarrow> byte list \<Rightarrow> byte list res" where
  "format_output directive [] = Inr []"
| "format_output directive [c] = (if c = percent then directive [c] else Inr [c])"
| "format_output directive (c # d # cs) =
     (if c \<noteq> percent then bindE (format_output directive (d # cs)) (\<lambda>s. Inr (c # s))
      else if d = percent then bindE (format_output directive cs) (\<lambda>s. Inr (percent # s))
      else directive (c # d # cs))"

definition file_open_failed :: "byte list" where
  "file_open_failed = [70, 105, 108, 101, 32, 111, 112, 101, 110, 32, 102, 97, 105, 108, 101, 100, 44, 32,
     109, 101, 115, 115, 97, 103, 101, 58, 32]"

text \<open>
  \<open>snprintf\<close> without a buffer measures the message, \<open>malloc\<close> is not checked, \<open>sprintf\<close> fills the
  block and \<open>syslog\<close> logs it. \<open>strerr\<close> is the text of the error number.
\<close>

definition error_checking :: "bool \<Rightarrow> byte list \<Rightarrow> writer_action list res" where
  "error_checking malloc_ok strerr =
     (let msg = file_open_failed @ strerr @ [newline]; size_n = length msg in
      if \<not> malloc_ok then Inl Null_deref
      else bindE (c_strcpy (replicate (size_n + 1) 1) (msg @ [NUL])) (\<lambda>buffer.
           bindE (c_str buffer) (\<lambda>s. Inr [Logs_error (s @ [newline])])))"

record writer_env =
  fopen_result :: bool
  fprintf_fails :: bool
  malloc_result :: bool
  error_text :: "byte list"
  directive :: "byte list \<Rightarrow> byte list res"

text \<open>\<open>Writes\<close> stands for a successful \<open>fprintf\<close>; whether the flush at exit succeeds is outside the model.\<close>

definition writer_main :: "writer_env \<Rightarrow> byte list list \<Rightarrow> (int \<times> writer_action list) res" where
  "writer_main env argv =
     (if length argv \<noteq> 3 then Inr (1, [Prints_usage])
      else
        let text_string = argv ! 2; output_path = argv ! 1;
            tr1 = [Logs_writing text_string output_path] in
        bindE (if \<not> fopen_result env then error_checking (malloc_result env) (error_text env)
               else Inr [Creates_file output_path]) (\<lambda>tr2.
        if \<not> fopen_result env then Inl Null_deref
        else
          bindE (format_output (directive env) text_string) (\<lambda>out.
          if fprintf_fails env then
            bindE (error_checking (malloc_result env) (error_text env)) (\<lambda>tr3. Inr (0, tr1 @ tr2 @ tr3))
          else Inr (0, tr1 @ tr2 @ [Writes out]))))"

section \<open>autotest-validate.c\<close>

definition this_function_returns_true :: bool where
  "this_function_returns_true = True"

definition this_function_returns_false :: bool where
  "this_function_returns_false = False"

definition my_username :: string where
  "my_username = ''hangon1234''"

text \<open>The lines that \<open>autotest-validate-main.c\<close> prints.\<close>

definition bool_text :: "bool \<Rightarrow> string" where
  "bool_text b = (if b then ''true'' else ''false'')"

definition autotest_main :: "string list" where
  "autotest_main = [''this_function_returns_true returned '' @ bool_text this_function_returns_true,
     ''this_function_returns_false returned '' @ bool_text this_function_returns_false]"

text \<open>
  The unit test of the user name. The reader of the configuration file and the assertion are code
  of the test framework, which is not part of the repository, and parameters here.
\<close>

definition test_validate_my_username :: "(string \<Rightarrow> string \<Rightarrow> string \<Rightarrow> 'r) \<Rightarrow> string \<Rightarrow> 'r" where
  "test_validate_my_username assert_equal_string malloc_username_from_conf_file =
     (let username = my_username; conf_username = malloc_username_from_conf_file in
      assert_equal_string conf_username username ''Should be equal to hangon1234'')"

section \<open>Lemmas\<close>

lemma autotest_main_output:
  "autotest_main = [''this_function_returns_true returned true'', ''this_function_returns_false returned false'']"
  by (simp add: autotest_main_def bool_text_def this_function_returns_true_def this_function_returns_false_def)

text \<open>With an assertion that compares its strings the test passes for the name in \<open>conf/username.txt\<close> only.\<close>

lemma username_test_passes_iff:
  assumes "\<And>x y msg. assert_equal_string x y msg \<longleftrightarrow> x = y"
  shows "test_validate_my_username assert_equal_string conf \<longleftrightarrow> conf = ''hangon1234''"
  using assms by (simp add: test_validate_my_username_def my_username_def)

lemma format_plain: "percent \<notin> set s \<Longrightarrow> format_output dir s = Inr s"
  by (induction dir s rule: format_output.induct) auto

lemma error_checking_ok:
  assumes "NUL \<notin> set strerr"
  shows "error_checking True strerr = Inr [Logs_error (file_open_failed @ strerr @ [newline, newline])]"
proof -
  let ?m = "file_open_failed @ strerr @ [newline]"
  have n: "NUL \<notin> set ?m" using assms by (simp add: file_open_failed_def)
  have "c_str (?m @ [NUL]) = Inr ?m" using takeWhile_NUL_append[OF n, of "[]"] by (simp add: c_str_def)
  then have "c_strcpy (replicate (length ?m + 1) 1) (?m @ [NUL]) = Inr (?m @ [NUL])"
    by (simp add: c_strcpy_def)
  then show ?thesis using \<open>c_str (?m @ [NUL]) = Inr ?m\<close> by (simp add: error_checking_def Let_def)
qed

section \<open>Properties\<close>

text \<open>
  (C37) A thread started by \<open>start_thread_obtaining_mutex\<close> sleeps, locks, sleeps, unlocks and reports
  success, but the two times are exchanged: it sleeps \<open>wait_to_release_ms\<close> before it takes the
  mutex and holds it for \<open>wait_to_obtain_ms\<close>, while the header says the opposite. The sleeping
  times in microseconds are exact as long as they fit into 32 bits.
\<close>

theorem started_thread_swaps_times:
  assumes "start_thread_obtaining_mutex new_block create_ret m obtain_ms release_ms = Inr (True, td)"
    and "unat obtain_ms * 1000 < 2 ^ 31" "unat release_ms * 1000 < 2 ^ 31"
  shows "\<exists>u v. threadfunc td = ([Sleeps_us u, Locks m, Sleeps_us v, Unlocks m], td\<lparr>thread_complete_success := True\<rparr>) \<and>
    unat u = 1000 * unat release_ms \<and> unat v = 1000 * unat obtain_ms"
proof -
  have td: "sleep_ms td = release_ms" "wait_ms td = obtain_ms" "mutex td = m"
    using assms(1) by (auto simp: start_thread_obtaining_mutex_def Let_def split: option.splits)
  have "unat (1000 * w) = 1000 * unat w" if "unat w * 1000 < 2 ^ 31" for w :: i32
    using that by (simp add: unat_word_ariths)
  then show ?thesis using assms(2,3) td by (auto simp: threadfunc_def)
qed

theorem started_thread_swaps_times_witness:
  "\<exists>td u v. start_thread_obtaining_mutex (Some \<lparr>mutex = 0, sleep_ms = 0, wait_ms = 0, thread_complete_success = False\<rparr>) 0 7 20 300 =
      Inr (True, td) \<and> fst (threadfunc td) = [Sleeps_us u, Locks 7, Sleeps_us v, Unlocks 7] \<and> unat u = 300000"
proof -
  let ?td = "\<lparr>mutex = 7, sleep_ms = 300, wait_ms = 20, thread_complete_success = False\<rparr>"
  have s: "start_thread_obtaining_mutex (Some \<lparr>mutex = 0, sleep_ms = 0, wait_ms = 0, thread_complete_success = False\<rparr>) 0 7 20 300 =
      Inr (True, ?td)" by (simp add: start_thread_obtaining_mutex_def Let_def)
  show ?thesis using started_thread_swaps_times[OF s] s by auto
qed

text \<open>
  (C38) The writer with the right number of arguments: when the file can be created and the text has no
  percent sign, exactly the text is written and the status is zero; a percent sign makes the text
  a format; a failing write is logged but the status is still zero; and when the file cannot be
  created the program goes on to write through a null pointer.
\<close>

theorem writer_writes_text:
  assumes "argv = [prog, path, txt]" "percent \<notin> set txt" "NUL \<notin> set (error_text env)" "malloc_result env"
  shows "writer_main env argv =
    (if \<not> fopen_result env then Inl Null_deref
     else Inr (0, [Logs_writing txt path, Creates_file path] @
       (if fprintf_fails env then [Logs_error (file_open_failed @ error_text env @ [newline, newline])] else [Writes txt])))"
  using assms error_checking_ok[OF assms(3)] format_plain[OF assms(2)]
  by (simp add: writer_main_def Let_def)

theorem writer_writes_text_witness:
  "writer_main \<lparr>fopen_result = True, fprintf_fails = False, malloc_result = True, error_text = [], directive = \<lambda>_. Inl Null_deref\<rparr>
     [[119], [111], [104, 105]] = Inr (0, [Logs_writing [104, 105] [111], Creates_file [111], Writes [104, 105]])"
  using writer_writes_text[of "[[119], [111], [104, 105]]" "[119]" "[111]" "[104, 105]"
      "\<lparr>fopen_result = True, fprintf_fails = False, malloc_result = True, error_text = [], directive = \<lambda>_. Inl Null_deref\<rparr>"]
  by simp

end
