(* ===== verification/Spec2Isabelle.thy ===== *)
theory Spec2Isabelle
  imports Driver_Readers Server_Shutdown Queue_Checked System_Calls Small_Programs
begin

text \<open>
  \<^bold>\<open>A verification of the programs of the AESD assignments\<close>

  The repository has two main programs and some small ones. A Linux character driver
  (\<open>aesd-char-driver/\<close>) keeps the last ten lines written to \<open>/dev/aesdchar\<close> in a ring of buffers. A
  socket server (\<open>server/src/\<close>) appends what its clients send to a file, sends the file back and
  appends a timestamp every ten seconds; it has one thread per client, a timer thread, a mutex
  and a list of threads built from the BSD queue macros. The examples (\<open>examples/\<close>, \<open>finder-app/\<close>)
  are helpers to run commands, a thread that holds a mutex for a time, and a file writer.

  \<^bold>\<open>Theories and sources.\<close>

  \<^item> \<open>AESD_Prelude\<close>: machine words, undefined behaviour as the left injection of a sum
    (\<open>c_error\<close>), arrays with bounds, NUL-terminated strings inside blocks, the block heap, folds
    that may fail, and the collection \<open>c_simps\<close>.
  \<^item> \<open>Queue_Interfaces\<close>: the contracts as locales. \<open>bounded_queue\<close> (keeps the newest elements and
    hands back the overwritten one), its extension \<open>indexed_queue\<close> (lookup of a byte position), and
    \<open>linked_list\<close> (elements owned by the caller, linked at the tail and unlinked anywhere).
  \<^item> \<open>Circular_Buffer\<close>: \<open>aesd-circular-buffer.c\<close> and \<open>.h\<close>, field by field and function by function, at the
    widths of the C types. It interprets \<open>indexed_queue\<close>. Shown: a ring keeps the last ten entries;
    lookup agrees with the concatenation of the entries; no index leaves the array; a miss
    resets the ring.
  \<^item> \<open>Char_Driver\<close>: \<open>main.c\<close> and \<open>aesdchar.h\<close>. The state is the device, the heap, and what is registered
    with the kernel; the kernel functions are the parameter record \<open>kernel_api\<close> with the documented
    laws \<open>kmalloc_ok\<close> as hypothesis. Reachable states are an inductive predicate whose invariant
    \<open>drv_inv\<close> (all pointers of the device allocated and distinct, strings terminated) is proved for
    every operation.
  \<^item> \<open>Driver_History\<close>: the driver against its abstract contract, the list of the last ten lines and a
    partial line. Shown: writing a line implements the abstract step; reading to the end
    returns the last ten lines; behaviour of partial lines, errors, contention, load and unload; what
    reads deliver after the reset at end of file, when the list of lines and the slots differ.
    A reader needs at most one read per stored line and one for the end of file, which is the
    fuel of eleven in the theorem.
  \<^item> \<open>Driver_Readers\<close>: concurrent calls of the driver. \<open>aesd_read\<close> works on the entry it found after it
    has released the semaphore, so a read is a sequence of accesses (\<open>read_next\<close>) that interleave with
    other reads and with writes (\<open>device_step\<close>). Shown: without interruption the accesses are the
    function; a reader gets the line it found as long as its slot is not overwritten and the ring is
    not reset; one line too many makes it read a freed block.
  \<^item> \<open>Link_Memory\<close>: the memory under the list macros of \<open>queue.h\<close>, in which the address of a pointer is
    a value (\<open>slot\<close>): heads, link fields of allocated elements, reading and writing through slots, the
    loops of the traversal macros and the search loop. The locales \<open>link_fields\<close>, \<open>back_fields\<close> and
    \<open>last_fields\<close> are the field laws of a family of macros; each family interprets those it has.
  \<^item> \<open>Link_Chains\<close>: lists of elements in such a memory. \<open>chain\<close> and \<open>dlist\<close> are singly and doubly linked
    lists; what inserting, removing, joining and moving does to them is proved once. The locale
    \<open>walkable\<close> (the successor of a member) gives all traversals.
  \<^item> \<open>Singly_List\<close>, \<open>Singly_Tail_Queue\<close>, \<open>Doubly_List\<close>, \<open>Tail_Queue\<close>: the macros with prefix \<open>SLIST\<close>,
    \<open>STAILQ\<close>, \<open>LIST\<close> and \<open>TAILQ\<close>, one definition per macro. The abstractions \<open>slist\<close>, \<open>stailq\<close>, \<open>llist\<close>
    and \<open>tailq\<close> relate a memory to the list of elements at a head. Every macro that changes a list is
    shown to do the operation on lists without touching other lists. The consistency checks of
    debugging kernels are definitions and never fail on a well-formed list. \<open>Tail_Queue\<close> interprets
    \<open>linked_list\<close>. Loops have fuel; the number of elements is enough.
  \<^item> \<open>List_Families\<close>: the interfaces \<open>mem_list\<close> and \<open>list_family\<close> that the four families share,
    interpreted by each of them. Shown: any sequence of operations gives the same list in all families; the safe traversals
    may free every element and end; joining, swapping, removal of absent elements, traversals from
    a given element.
  \<^item> \<open>Queue_Debug\<close>: the macros compiled with \<open>QUEUE_MACRO_DEBUG\<close>, which adds trace buffers and overwrites
    the links of removed elements. It interprets \<open>mem_list\<close> for all families and \<open>linked_list\<close> again, with
    arbitrary places of use. Shown: this build keeps the lists; it detects loops that read the link
    of an element they have unlinked; what the traces record and miss.
  \<^item> \<open>Queue_Checked\<close>: the doubly linked families with the consistency checks of a kernel with
    \<open>INVARIANTS\<close>. The locale \<open>checked_list\<close> extends \<open>mem_list\<close> by checked operations and is interpreted by
    \<open>LIST\<close> and \<open>TAILQ\<close>. Shown: on lists this build is the release build; a second removal panics; one misuse
    of a removed element is not caught.
  \<^item> \<open>Signals\<close>: the signal handler and its flag \<open>EXIT_SIGNAL\<close>, shared by the main thread and the clients.
  \<^item> \<open>Socket_Thread\<close>: \<open>aesdsocket_thread.c\<close> (client handler, sending the file, client addresses) and
    \<open>timer_thread.c\<close>, as sequential functions of the answers of the system.
  \<^item> \<open>Server_Interleaving\<close>: the same handlers as steps of concurrent tasks over the shared state, in
    which a signal may arrive at any time and the receive loop reads its flag at its condition, with
    the invariant that the output of different threads is not mixed, and the proof that a sequential
    run of the handler is a run of the steps.
  \<^item> \<open>Server_Progress\<close>: well-formed tasks and progress of the same steps. Shown: a thread that has not
    finished has a next step or waits for a thread that has one; every thread can finish.
  \<^item> \<open>Thread_List\<close>: the list of threads (\<open>check_thread_exit\<close>, \<open>release_all_thread\<close>, registration) over
    \<open>Tail_Queue\<close>, with nodes that are allocated and freed. Threads are numbered by creation; an
    identifier names a thread until it is joined and may be given to a later thread then. A join
    waits for the end of the thread, and is undefined for an identifier that names none.
  \<^item> \<open>Server_Main\<close>: \<open>aesdsocket.c\<close> and \<open>timespec_add\<close>. The main function is cut into phases; each
    phase extends the list of actions or stops the process, by an exit, by undefined behaviour, or by
    waiting in \<open>accept\<close> or in a join of a client that does not end. The number of rounds of the accept loop
    bounds every traversal of the thread list, since each round adds one node.
  \<^item> \<open>Whole_Server\<close>: the process from the end of the setup on: the main thread, one node of its list per
    step, together with the interleaved threads. Undefined behaviour of the main thread ends the run.
    Shown: the server has at most one unfinished client, and up to undefined behaviour it does
    not get past its second; each connection received the replies of its threads; the steps are those of
    \<open>check_thread_exit\<close>, \<open>release_all_thread\<close> and \<open>stop_server\<close>. The accept loop tests the flag of the
    signal handler in a step of its own, so that a signal may arrive between the test and \<open>accept\<close>.
  \<^item> \<open>Server_Runs\<close>: the function \<open>server_main\<close> against the process of \<open>Whole_Server\<close>. Shown: with fresh blocks
    and any thread identifiers it does not loop, since its rounds bound every walk over the list; its
    result and actions, waiting in a join included, are those of a run of the process.
  \<^item> \<open>Server_Shutdown\<close>: runs after a signal. The locale \<open>bounded_moves\<close> bounds the moves of a run by a
    measure; it is interpreted for the threads, for the main thread and for the start of clients. Shown:
    every thread takes at most seven more steps and the main thread at most five up to undefined
    behaviour, in every run, and what has not ended is not stuck.
  \<^item> \<open>System_Calls\<close>: \<open>do_system\<close>, \<open>do_exec\<close>, \<open>do_exec_redirect\<close> of \<open>systemcalls.c\<close>, with wait
    statuses in their Linux encoding.
  \<^item> \<open>Small_Programs\<close>: \<open>threading.c\<close>, \<open>writer.c\<close>, \<open>autotest-validate.c\<close> with its main program, and
    the unit test of the user name, whose framework is a parameter.

  \<^bold>\<open>Conventions.\<close> A C function that may have undefined behaviour returns a \<open>res\<close>; error codes and
  early returns are ordinary results. Answers of the kernel, the C library and other processes are
  parameters or input lists; an input list that is used up means that the program waits. Loops
  whose end depends on linked memory have fuel, and the theorems say which fuel is enough. Where
  the code is wrong, the theorem states what it does, for inputs in the range the error concerns.

  \<^bold>\<open>Not modelled.\<close> The C++ variants of the head and entry declarations in \<open>queue.h\<close>, since the programs
  are C; the arguments that format directives of log lines stand for; write errors of the output
  stream, and those of the flush at the exit of the writer; the signal \<open>SIGPIPE\<close>, which by default ends
  the server when it sends to a closed connection, where the model has a refused byte; what a program
  does after undefined behaviour; the int counter \<open>byte_written\<close> that nothing reads; reorderings of memory accesses by compiler and
  processor; shell scripts and build files.

  \<^bold>\<open>State.\<close> All C functions and macros of the repository are modelled. The driver and the server are
  separate here as they are in the sources: the server writes to a file of its own, and not to the
  device.
\<close>

end
